(* ===== verification/Prelude.thy ===== *)
theory Prelude
  imports Main "HOL-Library.Word" "HOL-Library.List_Lexorder" "HOL-Library.Monad_Syntax"
begin

text \<open>
  Shared vocabulary of the development.

  \<^item> Bytes are 8-bit words and byte strings are lists of them; they are ordered
    lexicographically, as Rust orders slices of \<^verbatim>\<open>u8\<close>.
  \<^item> A Rust panic (a failed assertion, an index out of range, an arithmetic overflow in a
    build with overflow checks, \<^verbatim>\<open>unwrap\<close> of \<^verbatim>\<open>None\<close>) is the value \<open>None\<close> of an
    option; the option monad sequences fallible code.
  \<^item> \<open>usize\<close> quantities that count bytes held in memory are natural numbers; a
    subtraction that would underflow is checked. Where the code narrows to \<open>u32\<close> the
    reduction modulo \<open>2 ^ 32\<close> is written out.
\<close>

named_theorems panics \<open>equations that turn a successful run of checked code into its guards\<close>
named_theorems codec \<open>length and round-trip equations of the byte encodings\<close>

type_synonym byte = "8 word"
type_synonym bytes = "byte list"

subsection \<open>Checked primitives\<close>

definition assert_that :: "bool \<Rightarrow> unit option" where
  "assert_that b = (if b then Some () else None)"

definition checked_sub :: "nat \<Rightarrow> nat \<Rightarrow> nat option" where
  "checked_sub a b = (if b \<le> a then Some (a - b) else None)"

definition add_u32 :: "nat \<Rightarrow> nat \<Rightarrow> nat option" where
  "add_u32 a b = (if a + b < 2 ^ 32 then Some (a + b) else None)"

definition nth_opt :: "'a list \<Rightarrow> nat \<Rightarrow> 'a option" where
  "nth_opt xs i = (if i < length xs then Some (xs ! i) else None)"

text \<open>\<open>cut xs pos len\<close> is the slice \<^verbatim>\<open>xs[pos..pos + len]\<close>, which panics out of range.\<close>

definition cut :: "'a list \<Rightarrow> nat \<Rightarrow> nat \<Rightarrow> 'a list option" where
  "cut xs pos len = (if pos + len \<le> length xs then Some (take len (drop pos xs)) else None)"

subsection \<open>Little-endian and big-endian encodings\<close>

primrec to_le :: "nat \<Rightarrow> nat \<Rightarrow> bytes" where
  "to_le 0 n = []"
| "to_le (Suc w) n = word_of_nat n # to_le w (n div 256)"

primrec from_le :: "bytes \<Rightarrow> nat" where
  "from_le [] = 0"
| "from_le (b # bs) = unat b + 256 * from_le bs"

definition to_be :: "nat \<Rightarrow> nat \<Rightarrow> bytes" where
  "to_be w n = rev (to_le w n)"

definition from_be :: "bytes \<Rightarrow> nat" where
  "from_be bs = from_le (rev bs)"

subsection \<open>Strictly sorted key lists\<close>

abbreviation sorted_keys :: "('k::linorder \<times> 'v) list \<Rightarrow> bool" where
  "sorted_keys m \<equiv> sorted_wrt (<) (map fst m)"

subsection \<open>Lemmas on the checked primitives\<close>

lemma assert_that_Some [panics, simp]: "assert_that b = Some u \<longleftrightarrow> b"
  by (simp add: assert_that_def)

lemma assert_that_bind [simp]: "(assert_that b \<bind> f) = (if b then f () else None)"
  by (simp add: assert_that_def)

lemma checked_sub_Some [panics]: "checked_sub a b = Some c \<longleftrightarrow> b \<le> a \<and> c = a - b"
  by (auto simp: checked_sub_def)

lemma add_u32_Some [panics]: "add_u32 a b = Some c \<longleftrightarrow> a + b < 2 ^ 32 \<and> c = a + b"
  by (auto simp: add_u32_def)

lemma nth_opt_Some [panics]: "nth_opt xs i = Some x \<longleftrightarrow> i < length xs \<and> x = xs ! i"
  by (auto simp: nth_opt_def)

lemma cut_Some [panics]:
  "cut xs pos len = Some ys \<longleftrightarrow> pos + len \<le> length xs \<and> ys = take len (drop pos xs)"
  by (auto simp: cut_def)

lemma length_cut: "cut xs pos len = Some ys \<Longrightarrow> length ys = len"
  by (auto simp: cut_Some)

lemma cut_append_middle:
  "length ys = pos \<Longrightarrow> length zs = len \<Longrightarrow> cut (ys @ zs @ ws) pos len = Some zs"
  by (simp add: cut_def)

lemma cut_append_right:
  "length ys \<le> pos \<Longrightarrow> cut (ys @ zs) pos len = cut zs (pos - length ys) len"
  by (auto simp: cut_def)

lemma cut_append_left:
  "pos + len \<le> length ys \<Longrightarrow> cut (ys @ zs) pos len = cut ys pos len"
  by (auto simp: cut_def)

lemma sorted_wrt_nth_iff_less:
  fixes xs :: "'k::linorder list"
  assumes "sorted_wrt (<) xs" "i < length xs" "j < length xs"
  shows "xs ! i < xs ! j \<longleftrightarrow> i < j"
  using assms by (metis less_asym linorder_neqE_nat sorted_wrt_nth_less)

subsection \<open>Rounding up\<close>

lemma ceiling_div:
  fixes m c :: nat
  assumes "0 < c"
  shows "(m + (c - 1)) div c = (if m mod c = 0 then m div c else m div c + 1)"
proof -
  have "(m + (c - 1)) div c = (m div c * c + (m mod c + (c - 1))) div c"
    by simp
  also have "\<dots> = m div c + (m mod c + (c - 1)) div c"
    using assms by (simp only: div_mult_self3)
  also have "(m mod c + (c - 1)) div c = (if m mod c = 0 then 0 else 1)"
  proof (cases "m mod c = 0")
    case False
    have "m mod c < c" using assms by simp
    with False have "m mod c + (c - 1) = c + (m mod c - 1)" "(m mod c - 1) div c = 0" by auto
    moreover have "(c + (m mod c - 1)) div c = (m mod c - 1) div c + 1"
      using assms by (intro div_add_self1) simp
    ultimately show ?thesis using False by simp
  qed (use assms in simp)
  finally show ?thesis by simp
qed

subsection \<open>Lemmas on the encodings\<close>

lemma length_to_le [codec, simp]: "length (to_le w n) = w"
  by (induction w arbitrary: n) auto

lemma unat_byte_of_nat: "unat (word_of_nat n :: byte) = n mod 256"
  by (simp add: unat_of_nat)

lemma unat_byte_less: "unat (b :: byte) < 256"
  using unsigned_less [of b, where ?'a = nat] by simp

lemma from_le_to_le_mod: "from_le (to_le w n) = n mod 256 ^ w"
proof (induction w arbitrary: n)
  case 0
  then show ?case by simp
next
  case (Suc w)
  have "n mod (256 * 256 ^ w) = 256 * (n div 256 mod 256 ^ w) + n mod 256"
    by (rule mod_mult2_eq)
  with Suc show ?case by (simp add: unat_byte_of_nat)
qed

lemma from_le_to_le [codec]: "n < 256 ^ w \<Longrightarrow> from_le (to_le w n) = n"
  by (simp add: from_le_to_le_mod)

lemma from_le_bound: "from_le bs < 256 ^ length bs"
proof (induction bs)
  case Nil
  then show ?case by simp
next
  case (Cons b bs)
  have "unat b < 256" by (rule unat_byte_less)
  moreover have "256 * from_le bs + 256 \<le> 256 * 256 ^ length bs"
    using Cons by (metis Suc_leI mult_Suc_right mult_le_mono2 add.commute)
  ultimately show ?case by simp
qed

lemma to_le_from_le: "length bs = w \<Longrightarrow> to_le w (from_le bs) = bs"
proof (induction bs arbitrary: w)
  case Nil
  then show ?case by simp
next
  case (Cons b bs)
  have b: "unat b < 256" by (rule unat_byte_less)
  have "(unat b + 256 * from_le bs) div 256 = from_le bs"
    using b by simp
  moreover have "word_of_nat (unat b + 256 * from_le bs) = b"
    using b by (simp only: word_unat_eq_iff unat_byte_of_nat) simp
  ultimately show ?case using Cons by auto
qed

lemma length_to_be [codec, simp]: "length (to_be w n) = w"
  by (simp add: to_be_def)

lemma from_be_to_be [codec]: "n < 256 ^ w \<Longrightarrow> from_be (to_be w n) = n"
  by (simp add: to_be_def from_be_def from_le_to_le)

end
