(* ===== verification/DiskOffset.thy ===== *)
theory DiskOffset
  imports Prelude
begin

text \<open>
  Addresses on the storage pool: block counts (\<^verbatim>\<open>betree/src/vdev/block.rs\<close>), disk offsets
  (\<^verbatim>\<open>betree/src/storage_pool/disk_offset.rs\<close>) and the segment identifiers of
  \<^verbatim>\<open>betree/src/allocator.rs\<close>. All are kept at their machine width.
\<close>

unbundle bit_operations_syntax

subsection \<open>Blocks\<close>

type_synonym 'w block = "'w word"

definition BLOCK_SIZE :: "'w::len word" where "BLOCK_SIZE = 4096"

definition block_from_bytes :: "'w::len word \<Rightarrow> 'w block option" where
  "block_from_bytes bytes = do {
     assert_that (bytes mod BLOCK_SIZE = 0);
     Some (bytes div BLOCK_SIZE) }"

definition block_round_up_from_bytes :: "'w::len word \<Rightarrow> 'w block" where
  "block_round_up_from_bytes bytes =
     (let full_blocks = bytes div BLOCK_SIZE
      in if bytes mod BLOCK_SIZE = 0 then full_blocks else full_blocks + 1)"

definition block_to_bytes :: "'w::len block \<Rightarrow> 'w word option" where
  "block_to_bytes b =
     (if unat b * unat (BLOCK_SIZE :: 'w word) < 2 ^ LENGTH('w) then Some (b * BLOCK_SIZE) else None)"

definition block_add :: "'w::len block \<Rightarrow> 'w block \<Rightarrow> 'w block option" where
  "block_add a b = (if unat a + unat b < 2 ^ LENGTH('w) then Some (a + b) else None)"

definition block_sub :: "'w::len block \<Rightarrow> 'w word \<Rightarrow> 'w block option" where
  "block_sub a b = (if b \<le> a then Some (a - b) else None)"

definition block_mul :: "'w::len block \<Rightarrow> 'w word \<Rightarrow> 'w block option" where
  "block_mul a b = (if unat a * unat b < 2 ^ LENGTH('w) then Some (a * b) else None)"

definition block_div :: "'w::len block \<Rightarrow> 'w word \<Rightarrow> 'w block option" where
  "block_div a b = (if b = 0 then None else Some (a div b))"

subsection \<open>Disk offsets: 2-bit class, 10-bit disk, 52-bit block\<close>

type_synonym disk_offset = "64 word"

definition MASK_STORAGE_CLASS :: "64 word" where "MASK_STORAGE_CLASS = push_bit (10 + 52) (push_bit 2 1 - 1)"
definition MASK_DISK_ID :: "64 word" where "MASK_DISK_ID = push_bit 52 (push_bit 10 1 - 1)"
definition MASK_OFFSET :: "64 word" where "MASK_OFFSET = push_bit 52 1 - 1"
definition MASK_CLASS_DISK_ID_COMBINED :: "64 word" where
  "MASK_CLASS_DISK_ID_COMBINED = push_bit 52 (push_bit 12 1 - 1)"

definition disk_offset_new :: "8 word \<Rightarrow> 16 word \<Rightarrow> 64 block \<Rightarrow> disk_offset option" where
  "disk_offset_new class disk block = do {
     assert_that (block AND NOT MASK_OFFSET = 0);
     Some (push_bit (52 + 10) (ucast class) OR push_bit 52 (ucast disk) OR block) }"

definition storage_class :: "disk_offset \<Rightarrow> 8 word" where
  "storage_class d = ucast (drop_bit (52 + 10) (d AND MASK_STORAGE_CLASS))"

definition disk_id :: "disk_offset \<Rightarrow> 16 word" where
  "disk_id d = ucast (drop_bit 52 (d AND MASK_DISK_ID))"

definition class_disk_id :: "disk_offset \<Rightarrow> 16 word" where
  "class_disk_id d = ucast (drop_bit 52 (d AND MASK_CLASS_DISK_ID_COMBINED))"

definition block_offset :: "disk_offset \<Rightarrow> 64 block" where
  "block_offset d = d AND MASK_OFFSET"

definition construct_disk_id :: "8 word \<Rightarrow> 16 word \<Rightarrow> 16 word" where
  "construct_disk_id class disk = push_bit 10 (ucast class) OR disk"

subsection \<open>Segments of 1 GiB\<close>

type_synonym segment_id = "64 word"

definition SEGMENT_SIZE_LOG_2 :: nat where "SEGMENT_SIZE_LOG_2 = 18"
definition SEGMENT_SIZE :: nat where "SEGMENT_SIZE = 2 ^ SEGMENT_SIZE_LOG_2"
definition SEGMENT_SIZE_MASK :: "64 word" where "SEGMENT_SIZE_MASK = word_of_nat SEGMENT_SIZE - 1"

definition segment_get :: "disk_offset \<Rightarrow> segment_id" where
  "segment_get d = d AND NOT SEGMENT_SIZE_MASK"

definition segment_block_offset :: "disk_offset \<Rightarrow> 32 word" where
  "segment_block_offset d = ucast d AND ucast SEGMENT_SIZE_MASK"

definition segment_disk_offset :: "segment_id \<Rightarrow> 32 word \<Rightarrow> disk_offset option" where
  "segment_disk_offset s off =
     (if unat s + unat off < 2 ^ 64 then Some (s + ucast off) else None)"

definition segment_key :: "segment_id \<Rightarrow> bytes \<Rightarrow> bytes option" where
  "segment_key s key_prefix =
     (let segment_key = to_be 8 (unat s) in do {
        assert_that (drop 6 segment_key = [0, 0]);
        Some (key_prefix @ take 6 segment_key) })"

definition segment_next :: "segment_id \<Rightarrow> 64 block \<Rightarrow> segment_id option" where
  "segment_next s disk_size =
     (if unat (block_offset s) + SEGMENT_SIZE \<ge> unat disk_size
      then map_option segment_get (disk_offset_new (storage_class s) (disk_id s) 0)
      else if unat s + SEGMENT_SIZE < 2 ^ 64 then Some (s + word_of_nat SEGMENT_SIZE) else None)"

text \<open>A well-formed identifier is the first block of its segment.\<close>

definition segment_wf :: "segment_id \<Rightarrow> bool" where
  "segment_wf s \<longleftrightarrow> segment_get s = s"

subsection \<open>The masks as bit ranges\<close>

lemma masks_eq [simp]:
  "MASK_STORAGE_CLASS = push_bit 62 (mask 2)" "MASK_DISK_ID = push_bit 52 (mask 10)"
  "MASK_OFFSET = mask 52" "MASK_CLASS_DISK_ID_COMBINED = push_bit 52 (mask 12)"
  "SEGMENT_SIZE_MASK = mask 18"
  by (simp_all add: MASK_STORAGE_CLASS_def MASK_DISK_ID_def MASK_OFFSET_def
      MASK_CLASS_DISK_ID_COMBINED_def SEGMENT_SIZE_MASK_def SEGMENT_SIZE_def SEGMENT_SIZE_LOG_2_def
      mask_eq_exp_minus_1)

lemma bits_below:
  fixes w :: "'a::len word"
  assumes "unat w < 2 ^ n" "bit w i"
  shows "i < n"
proof -
  have "unat (take_bit n w) = unat w"
    using assms(1) by (simp add: unsigned_take_bit_eq take_bit_nat_eq_self)
  then have "take_bit n w = w" by (simp only: word_unat_eq_iff)
  with assms(2) show ?thesis by (metis bit_take_bit_iff)
qed

lemma unat_take_bit_bound: "take_bit n (w :: 'a::len word) = w \<Longrightarrow> unat w < 2 ^ n"
  using take_bit_nat_less_exp [of n "unat w"] by (simp flip: unsigned_take_bit_eq)

lemma and_not_mask_eq_0:
  fixes w :: "64 word"
  assumes "w AND NOT (mask n) = 0" "bit w i"
  shows "i < n"
proof (rule ccontr)
  assume "\<not> i < n"
  with assms(2) have "bit (w AND NOT (mask n)) i"
    by (auto simp: bit_simps dest: bit_imp_le_length)
  with assms(1) show False by simp
qed

lemma disk_offset_new_fields:
  assumes "unat c < 4" "unat d < 1024" "disk_offset_new c d b = Some off"
  shows "storage_class off = c" "disk_id off = d" "block_offset off = b"
proof -
  have b: "bit b i \<Longrightarrow> i < 52" for i
    using assms(3) and_not_mask_eq_0 [of b 52 i] by (auto simp: disk_offset_new_def split: if_splits)
  have c: "bit c i \<Longrightarrow> i < 2" for i using bits_below [of c 2 i] assms(1) by simp
  have d: "bit d i \<Longrightarrow> i < 10" for i using bits_below [of d 10 i] assms(2) by simp
  have off: "off = push_bit 62 (ucast c) OR push_bit 52 (ucast d) OR b"
    using assms(3) by (auto simp: disk_offset_new_def split: if_splits)
  show "storage_class off = c"
    by (rule bit_eqI) (auto simp: storage_class_def off bit_simps dest: b c d)
  show "disk_id off = d"
    by (rule bit_eqI) (auto simp: disk_id_def off bit_simps dest: b c d)
  show "block_offset off = b"
    by (rule bit_eqI) (auto simp: block_offset_def off bit_simps dest: b c d)
qed

lemma class_disk_id_new:
  assumes "unat c < 4" "unat d < 1024" "disk_offset_new c d b = Some off"
  shows "class_disk_id off = construct_disk_id c d"
proof -
  have b: "bit b i \<Longrightarrow> i < 52" for i
    using assms(3) and_not_mask_eq_0 [of b 52 i] by (auto simp: disk_offset_new_def split: if_splits)
  have c: "bit c i \<Longrightarrow> i < 2" for i using bits_below [of c 2 i] assms(1) by simp
  have d: "bit d i \<Longrightarrow> i < 10" for i using bits_below [of d 10 i] assms(2) by simp
  have off: "off = push_bit 62 (ucast c) OR push_bit 52 (ucast d) OR b"
    using assms(3) by (auto simp: disk_offset_new_def split: if_splits)
  show ?thesis
    by (rule bit_eqI) (auto simp: class_disk_id_def construct_disk_id_def off bit_simps dest: b c d)
qed

lemma disk_offset_new_Some_iff:
  "(\<exists>off. disk_offset_new c d b = Some off) \<longleftrightarrow> unat b < 2 ^ 52"
proof -
  have "b AND NOT (mask 52) = 0 \<longleftrightarrow> take_bit 52 b = b"
    by (auto simp: bit_eq_iff bit_simps)
  also have "\<dots> \<longleftrightarrow> take_bit 52 (unat b) = unat b"
    by (simp add: word_unat_eq_iff unsigned_take_bit_eq)
  also have "\<dots> \<longleftrightarrow> unat b < 2 ^ 52" by (simp add: take_bit_nat_eq_self_iff)
  finally show ?thesis by (simp add: disk_offset_new_def)
qed

lemma disk_offset_decompose:
  "disk_offset_new (storage_class off) (disk_id off) (block_offset off) = Some off"
proof -
  have "block_offset off AND NOT MASK_OFFSET = 0"
    by (rule bit_eqI) (auto simp: block_offset_def bit_simps)
  moreover have "push_bit 62 (ucast (storage_class off)) OR push_bit 52 (ucast (disk_id off))
      OR block_offset off = off"
  proof (rule bit_eqI)
    fix n
    show "bit (push_bit 62 (ucast (storage_class off)) OR push_bit 52 (ucast (disk_id off))
      OR block_offset off) n \<longleftrightarrow> bit off n"
      using bit_imp_le_length [of off n]
      by (cases "n < 62") (auto simp: storage_class_def disk_id_def block_offset_def bit_simps)
  qed
  ultimately show ?thesis by (simp add: disk_offset_new_def)
qed

lemma segment_get_idem [simp]: "segment_get (segment_get d) = segment_get d"
  by (rule bit_eqI) (auto simp: segment_get_def bit_simps)

lemma segment_wf_bits: "segment_wf s \<Longrightarrow> bit s i \<Longrightarrow> 18 \<le> i"
  using bit_imp_le_length [of s i]
  by (auto simp: segment_wf_def segment_get_def bit_eq_iff bit_simps not_less)

lemma segment_get_wf [simp]: "segment_wf (segment_get d)"
  by (simp add: segment_wf_def)

lemma segment_parts:
  "segment_get d + ucast (segment_block_offset d) = d"
  "unat (segment_get d) + unat (segment_block_offset d) = unat d"
proof -
  have disj: "segment_get d AND ucast (segment_block_offset d) = 0"
    by (rule bit_eqI) (auto simp: segment_get_def segment_block_offset_def bit_simps)
  have "segment_get d OR ucast (segment_block_offset d) = d"
    by (rule bit_eqI) (auto simp: segment_get_def segment_block_offset_def bit_simps)
  with disj show sum: "segment_get d + ucast (segment_block_offset d) = d"
    by (simp add: disjunctive_add_eq_or)
  have "unat d = unat (segment_get d OR (ucast (segment_block_offset d) :: 64 word))"
    using \<open>segment_get d OR _ = d\<close> by simp
  also have "\<dots> = unat (segment_get d) OR unat (segment_block_offset d)"
  proof -
    have "unat (segment_block_offset d) < 2 ^ 64"
      using unsigned_less [of "segment_block_offset d", where ?'a = nat] by simp
    then show ?thesis by (simp add: unsigned_or_eq unsigned_ucast_eq take_bit_nat_eq_self)
  qed
  also have "\<dots> = unat (segment_get d) + unat (segment_block_offset d)"
  proof (rule disjunctive_add_eq_or [symmetric])
    show "unat (segment_get d) AND unat (segment_block_offset d) = 0"
      by (rule bit_eqI) (auto simp: segment_get_def segment_block_offset_def bit_simps)
  qed
  finally show "unat (segment_get d) + unat (segment_block_offset d) = unat d" by simp
qed

lemma segment_block_offset_less: "unat (segment_block_offset d) < SEGMENT_SIZE"
proof -
  have "segment_block_offset d = take_bit 18 (ucast d)"
    by (rule bit_eqI) (auto simp: segment_block_offset_def bit_simps)
  then have "unat (segment_block_offset d) = take_bit 18 (unat (ucast d :: 32 word))"
    by (simp add: unsigned_take_bit_eq)
  also have "\<dots> < 2 ^ 18" by (rule take_bit_nat_less_exp)
  finally show ?thesis by (simp add: SEGMENT_SIZE_def SEGMENT_SIZE_LOG_2_def)
qed

lemma segment_wf_dvd: "segment_wf s \<longleftrightarrow> SEGMENT_SIZE dvd unat s"
proof -
  have "segment_wf s \<longleftrightarrow> take_bit 18 s = 0"
    by (auto simp: segment_wf_def segment_get_def bit_eq_iff bit_simps)
  also have "\<dots> \<longleftrightarrow> take_bit 18 (unat s) = 0"
    by (simp add: word_unat_eq_iff unsigned_take_bit_eq)
  finally show ?thesis
    by (simp add: SEGMENT_SIZE_def SEGMENT_SIZE_LOG_2_def take_bit_eq_0_iff)
qed

lemma to_le_split: "to_le (v + w) n = to_le v n @ to_le w (n div 256 ^ v)"
  by (induction v arbitrary: n) (auto simp: div_mult2_eq)

lemma to_le_zero: "256 ^ w dvd n \<Longrightarrow> to_le w n = replicate w 0"
proof (induction w arbitrary: n)
  case (Suc w)
  then obtain m where "n = 256 * (256 ^ w * m)" by (auto simp: mult.assoc elim: dvdE)
  moreover from this have "word_of_nat n = (0 :: byte)"
    by (simp only: word_unat_eq_iff unat_byte_of_nat) simp
  ultimately show ?case using Suc.IH [of "256 ^ w * m"] by simp
qed simp

text \<open>The two lowest bytes of a segment start are zero, so the key keeps all of it.\<close>

lemma segment_key_wf:
  assumes "segment_wf s"
  shows "segment_key s p = Some (p @ to_be 6 (unat s div 65536))"
proof -
  have "65536 dvd SEGMENT_SIZE" by (simp add: SEGMENT_SIZE_def SEGMENT_SIZE_LOG_2_def)
  with assms have "256 ^ 2 dvd unat s" by (auto simp: segment_wf_dvd intro: dvd_trans)
  then have low: "to_le 2 (unat s) = [0, 0]"
    using to_le_zero [of 2 "unat s"] by (simp add: numeral_2_eq_2)
  have "to_le 8 (unat s) = to_le 2 (unat s) @ to_le 6 (unat s div 256 ^ 2)"
    using to_le_split [of 2 6 "unat s"] by simp
  then have "to_be 8 (unat s) = to_be 6 (unat s div 65536) @ [0, 0]"
    by (simp add: to_be_def low)
  then show ?thesis by (simp add: segment_key_def Let_def)
qed

text \<open>Replacing the low 52 bits leaves class and disk alone.\<close>

lemma high_part:
  fixes d x :: "64 word"
  assumes "unat x < 2 ^ 52"
  defines "e \<equiv> (d AND NOT (mask 52)) + x"
  shows "storage_class e = storage_class d" "disk_id e = disk_id d" "block_offset e = x"
proof -
  have x: "bit x i \<Longrightarrow> i < 52" for i by (rule bits_below [OF assms(1)])
  have "(d AND NOT (mask 52)) AND x = 0"
    by (rule bit_eqI) (auto simp: bit_simps dest: x)
  then have e: "e = (d AND NOT (mask 52)) OR x"
    by (simp add: e_def disjunctive_add_eq_or)
  show "storage_class e = storage_class d"
    by (rule bit_eqI) (auto simp: storage_class_def e bit_simps dest: x)
  show "disk_id e = disk_id d"
    by (rule bit_eqI) (auto simp: disk_id_def e bit_simps dest: x)
  show "block_offset e = x"
    by (rule bit_eqI) (auto simp: block_offset_def e bit_simps dest: x)
qed

lemma high_low_sum:
  "(d AND NOT (mask 52)) + block_offset d = d"
  "unat (d AND NOT (mask 52)) + unat (block_offset d) = unat d"
proof -
  have disj: "(d AND NOT (mask 52)) AND block_offset d = 0"
    by (rule bit_eqI) (auto simp: block_offset_def bit_simps)
  have or: "(d AND NOT (mask 52)) OR block_offset d = d"
    by (rule bit_eqI) (auto simp: block_offset_def bit_simps)
  from disj or show "(d AND NOT (mask 52)) + block_offset d = d"
    by (simp add: disjunctive_add_eq_or)
  have "unat (d AND NOT (mask 52)) AND unat (block_offset d) = 0"
    using disj by (simp flip: unsigned_and_eq)
  moreover have "unat (d AND NOT (mask 52)) OR unat (block_offset d) = unat d"
    using or by (simp flip: unsigned_or_eq)
  ultimately show "unat (d AND NOT (mask 52)) + unat (block_offset d) = unat d"
    by (simp add: disjunctive_add_eq_or)
qed

lemma unat_high_bound: "unat (d AND NOT (mask 52) :: 64 word) \<le> 2 ^ 64 - 2 ^ 52"
proof -
  have "unat (d AND NOT (mask 52) :: 64 word) \<le> unat (NOT (mask 52) :: 64 word)"
    by (metis and.commute word_and_le1 word_le_nat_alt)
  also have "\<dots> = 2 ^ 64 - 2 ^ 52" by (simp add: mask_eq_exp_minus_1)
  finally show ?thesis .
qed

lemma segment_next_forward:
  assumes "segment_wf s" "unat (block_offset s) + SEGMENT_SIZE < unat disk_size"
    "unat disk_size \<le> 2 ^ 52"
  obtains t where "segment_next s disk_size = Some t" "segment_wf t"
    "storage_class t = storage_class s" "disk_id t = disk_id s"
    "unat (block_offset t) = unat (block_offset s) + SEGMENT_SIZE"
proof
  let ?x = "block_offset s + word_of_nat SEGMENT_SIZE :: 64 word"
  let ?h = "s AND NOT (mask 52)"
  have x: "unat ?x = unat (block_offset s) + SEGMENT_SIZE"
    using assms(2,3) by (simp add: SEGMENT_SIZE_def SEGMENT_SIZE_LOG_2_def unat_word_ariths)
  have x52: "unat ?x < 2 ^ 52" using assms x by simp
  have eq: "s + word_of_nat SEGMENT_SIZE = ?h + ?x"
    using high_low_sum(1) [of s] by (metis add.assoc)
  have room: "unat s + SEGMENT_SIZE < 2 ^ 64"
    using unat_high_bound [of s] high_low_sum(2) [of s] x x52 by simp
  then show "segment_next s disk_size = Some (s + word_of_nat SEGMENT_SIZE)"
    using assms(2) by (simp add: segment_next_def)
  have "unat (s + word_of_nat SEGMENT_SIZE) = unat s + SEGMENT_SIZE"
    using room by (simp add: SEGMENT_SIZE_def SEGMENT_SIZE_LOG_2_def unat_word_ariths)
  then show "segment_wf (s + word_of_nat SEGMENT_SIZE)"
    using assms(1) by (simp add: segment_wf_dvd)
  show "storage_class (s + word_of_nat SEGMENT_SIZE) = storage_class s"
    "disk_id (s + word_of_nat SEGMENT_SIZE) = disk_id s"
    "unat (block_offset (s + word_of_nat SEGMENT_SIZE)) = unat (block_offset s) + SEGMENT_SIZE"
    unfolding eq using high_part [OF x52, of s] x by simp_all
qed

lemma segment_next_wrap:
  assumes "unat disk_size \<le> unat (block_offset s) + SEGMENT_SIZE"
  obtains t where "segment_next s disk_size = Some t" "segment_wf t"
    "storage_class t = storage_class s" "disk_id t = disk_id s" "block_offset t = 0"
proof -
  have "take_bit 2 (storage_class s) = storage_class s"
    by (rule bit_eqI) (auto simp: storage_class_def bit_simps)
  then have c: "unat (storage_class s) < 4" by (auto dest: unat_take_bit_bound)
  have "take_bit 10 (disk_id s) = disk_id s"
    by (rule bit_eqI) (auto simp: disk_id_def bit_simps)
  then have d: "unat (disk_id s) < 1024" by (auto dest: unat_take_bit_bound)
  obtain t where t: "disk_offset_new (storage_class s) (disk_id s) 0 = Some t"
    using disk_offset_new_Some_iff [of "storage_class s" "disk_id s" 0] by auto
  note f = disk_offset_new_fields [OF c d t]
  have "segment_get t = t"
  proof -
    have "take_bit 52 t = 0" using f(3) by (simp add: block_offset_def take_bit_eq_mask)
    then have "bit t i \<Longrightarrow> 52 \<le> i" for i
      by (metis bit_0_eq bit_take_bit_iff bot_apply bot_bool_def not_le_imp_less)
    then show ?thesis
      by (intro bit_eqI) (force simp: segment_get_def bit_simps)
  qed
  with that [of t] t f assms show ?thesis
    by (simp add: segment_next_def segment_wf_def)
qed

text \<open>Disk offsets pack and unpack exactly: for a 2-bit class, a 10-bit disk and a
  block below \<open>2 ^ 52\<close>, \<^verbatim>\<open>DiskOffset::new\<close> succeeds and each accessor returns the part it
  was built from; conversely every 64-bit offset is rebuilt from its parts.\<close>

theorem disk_offset_roundtrip:
  assumes "unat c < 4" "unat d < 1024" "unat b < 2 ^ 52"
  shows "(\<exists>off. disk_offset_new c d b = Some off \<and> storage_class off = c \<and> disk_id off = d
     \<and> block_offset off = b \<and> class_disk_id off = construct_disk_id c d)
   \<and> disk_offset_new (storage_class o') (disk_id o') (block_offset o') = Some o'"
proof -
  obtain off where off: "disk_offset_new c d b = Some off"
    using assms(3) disk_offset_new_Some_iff [of c d b] by auto
  with disk_offset_new_fields [OF assms(1,2) off] class_disk_id_new [OF assms(1,2) off]
    disk_offset_decompose [of o'] show ?thesis by simp
qed

theorem disk_offset_roundtrip_witness:
  "(\<exists>off. disk_offset_new 1 42 189631 = Some off \<and> storage_class off = 1 \<and> disk_id off = 42
     \<and> block_offset off = 189631 \<and> class_disk_id off = construct_disk_id 1 42)
   \<and> disk_offset_new (storage_class 7) (disk_id 7) (block_offset 7) = Some 7"
  by (rule disk_offset_roundtrip) simp_all

text \<open>A disk offset is its segment plus the block inside the segment: the segment
  start is aligned, the block offset is below \<^verbatim>\<open>SEGMENT_SIZE\<close>, and
  \<^verbatim>\<open>SegmentId::disk_offset\<close> puts the two together again without overflow.\<close>

theorem segment_roundtrip:
  "segment_wf (segment_get d) \<and> unat (segment_block_offset d) < SEGMENT_SIZE
   \<and> segment_disk_offset (segment_get d) (segment_block_offset d) = Some d"
proof -
  have "unat d < 2 ^ 64" using unsigned_less [of d, where ?'a = nat] by simp
  then show ?thesis
    by (simp add: segment_block_offset_less segment_disk_offset_def segment_parts)
qed

text \<open>The 6-byte key of a segment loses nothing: the key of an aligned segment is
  always built (the assertion on the two low bytes holds) and different segments have
  different keys under the same prefix.\<close>

theorem segment_key_inj:
  assumes "segment_wf s" "segment_wf t"
  shows "segment_key s p \<noteq> None \<and> (segment_key s p = segment_key t p \<longrightarrow> s = t)"
proof -
  have small: "unat u div 65536 < 256 ^ 6" for u :: "64 word"
    using unsigned_less [of u, where ?'a = nat] by (simp add: div_less_iff_less_mult)
  have dvd: "65536 dvd unat u" if "segment_wf u" for u
  proof -
    have "65536 dvd SEGMENT_SIZE" by (simp add: SEGMENT_SIZE_def SEGMENT_SIZE_LOG_2_def)
    with that show ?thesis by (auto simp: segment_wf_dvd intro: dvd_trans)
  qed
  have "s = t" if "to_be 6 (unat s div 65536) = to_be 6 (unat t div 65536)"
  proof -
    have "unat s div 65536 = from_be (to_be 6 (unat s div 65536))"
      by (rule from_be_to_be [OF small, symmetric])
    also have "\<dots> = unat t div 65536"
      unfolding that by (rule from_be_to_be [OF small])
    finally have "unat s div 65536 = unat t div 65536" .
    then have "unat s = unat t"
      using dvd [OF assms(1)] dvd [OF assms(2)] by (metis dvd_mult_div_cancel)
    then show ?thesis by (simp only: word_unat_eq_iff)
  qed
  then show ?thesis using assms by (auto simp: segment_key_wf)
qed

theorem segment_key_inj_witness:
  "segment_key 0 [7] \<noteq> None \<and> segment_key 0 [7] \<noteq> segment_key 262144 [7]"
  using segment_key_inj [of 0 262144 "[7]"]
  by (simp add: segment_wf_dvd SEGMENT_SIZE_def SEGMENT_SIZE_LOG_2_def)

text \<open>Stepping to the next segment stays on the disk: \<^verbatim>\<open>SegmentId::next\<close> returns an
  aligned segment of the same class and disk, which is the following segment while it
  starts inside the disk and the first one otherwise.\<close>

theorem segment_next_on_disk:
  assumes "segment_wf s" "unat disk_size \<le> 2 ^ 52"
  shows "\<exists>t. segment_next s disk_size = Some t \<and> segment_wf t
     \<and> storage_class t = storage_class s \<and> disk_id t = disk_id s
     \<and> unat (block_offset t) =
        (if unat (block_offset s) + SEGMENT_SIZE < unat disk_size
         then unat (block_offset s) + SEGMENT_SIZE else 0)"
proof (cases "unat (block_offset s) + SEGMENT_SIZE < unat disk_size")
  case True
  with assms show ?thesis by (auto elim: segment_next_forward)
next
  case False
  then obtain t where "segment_next s disk_size = Some t" "segment_wf t"
    "storage_class t = storage_class s" "disk_id t = disk_id s" "block_offset t = 0"
    using segment_next_wrap [of disk_size s] by auto
  with False show ?thesis by auto
qed

theorem segment_next_on_disk_witness:
  "\<exists>t. segment_next 0 1000000 = Some t \<and> segment_wf t
     \<and> storage_class t = storage_class 0 \<and> disk_id t = disk_id 0
     \<and> unat (block_offset t) =
        (if unat (block_offset 0) + SEGMENT_SIZE < unat (1000000 :: 64 word)
         then unat (block_offset 0) + SEGMENT_SIZE else 0)"
  by (rule segment_next_on_disk) (simp_all add: segment_wf_dvd)

text \<open>Rounding up to blocks: \<^verbatim>\<open>Block::round_up_from_bytes\<close> on 64-bit byte counts is the
  ceiling of the division by the block size, and converting a block count that fits to
  bytes and back is the identity.\<close>

theorem block_round_up_ceiling:
  fixes n :: "64 word"
  shows "unat (block_round_up_from_bytes n) = (unat n + 4095) div 4096
     \<and> (block_to_bytes b = Some n \<longrightarrow> block_from_bytes n = Some b)"
proof -
  have n: "unat n < 2 ^ 64" using unsigned_less [of n, where ?'a = nat] by simp
  have md: "unat (n mod 4096) = unat n mod 4096" "unat (n div 4096) = unat n div 4096"
    by (simp_all add: unat_mod_distrib unat_div_distrib)
  have "unat (n div 4096 + 1) = unat n div 4096 + 1"
    using n by (simp add: unat_word_ariths md)
  moreover have "n mod 4096 = 0 \<longleftrightarrow> unat n mod 4096 = 0"
    using md(1) by (simp add: word_unat_eq_iff)
  moreover note ceiling_div [of 4096 "unat n", simplified]
  ultimately have "unat (block_round_up_from_bytes n) = (unat n + 4095) div 4096"
    by (simp add: block_round_up_from_bytes_def BLOCK_SIZE_def Let_def md)
  moreover have "block_from_bytes n = Some b" if "block_to_bytes b = Some n"
  proof -
    from that have "unat b * 4096 < 2 ^ 64" "n = b * 4096"
      by (auto simp: block_to_bytes_def BLOCK_SIZE_def split: if_splits)
    then have "unat n = unat b * 4096" by (simp add: unat_word_ariths)
    with md have "n mod 4096 = 0" "n div 4096 = b" by (simp_all add: word_unat_eq_iff)
    then show ?thesis by (simp add: block_from_bytes_def BLOCK_SIZE_def)
  qed
  ultimately show ?thesis by blast
qed

theorem block_round_up_ceiling_witness:
  "block_to_bytes (3 :: 64 word) = Some 12288 \<and> block_from_bytes (12288 :: 64 word) = Some 3"
  using block_round_up_ceiling [of 12288 3] by (simp add: block_to_bytes_def BLOCK_SIZE_def)

end
