(* ===== verification/Allocator.thy ===== *)
theory Allocator
  imports DiskOffset
begin

text \<open>
  \<^verbatim>\<open>betree/src/allocator.rs\<close>: the first-fit bitmap allocator of one segment. The bitmap is
  a function of the block index, read below \<^verbatim>\<open>SEGMENT_SIZE\<close> only; the list of free runs is
  the code's vector of (offset, size) pairs. Offsets and sizes are \<open>u32\<close> values with
  checked additions. A result of \<open>None\<close> is a panic.
\<close>

datatype action = Deallocate | Allocate

fun action_as_bool :: "action \<Rightarrow> bool" where
  "action_as_bool Deallocate = False"
| "action_as_bool Allocate = True"

record segment_allocator =
  sa_data :: "nat \<Rightarrow> bool"
  free_segments :: "(nat \<times> nat) list"

definition any_set :: "(nat \<Rightarrow> bool) \<Rightarrow> nat \<Rightarrow> nat \<Rightarrow> bool" where
  "any_set bits lo hi = list_ex bits [lo..<hi]"

definition all_set :: "(nat \<Rightarrow> bool) \<Rightarrow> nat \<Rightarrow> nat \<Rightarrow> bool" where
  "all_set bits lo hi = list_all bits [lo..<hi]"

definition mark :: "segment_allocator \<Rightarrow> nat \<Rightarrow> nat \<Rightarrow> action \<Rightarrow> segment_allocator option" where
  "mark a offset sz act = do {
     end_idx \<leftarrow> add_u32 offset sz;
     assert_that (end_idx \<le> SEGMENT_SIZE);
     assert_that (case act of
         Allocate \<Rightarrow> \<not> any_set (sa_data a) offset end_idx
       | Deallocate \<Rightarrow> all_set (sa_data a) offset end_idx);
     Some (a\<lparr>sa_data := (\<lambda>i. if offset \<le> i \<and> i < end_idx then action_as_bool act else sa_data a i)\<rparr>) }"

subsection \<open>Initialisation: scanning the bitmap for free runs\<close>

text \<open>The inner loop: the size of the free run at \<open>offset\<close> and the offset after it.\<close>

function scan_run :: "(nat \<Rightarrow> bool) \<Rightarrow> nat \<Rightarrow> nat \<Rightarrow> nat \<times> nat" where
  "scan_run bits offset current_size =
     (if offset < SEGMENT_SIZE \<and> \<not> bits offset
      then scan_run bits (offset + 1) (current_size + 1) else (current_size, offset))"
  by pat_completeness auto
termination
  by (relation "measure (\<lambda>(bits, offset, n). SEGMENT_SIZE - offset)") auto

declare scan_run.simps [simp del]

lemma scan_run_advances: "offset \<le> snd (scan_run bits offset n)"
proof (induction bits offset n rule: scan_run.induct)
  case (1 bits offset n)
  then show ?case by (subst scan_run.simps) (auto intro: Suc_leD)
qed

lemma scan_run_progress:
  "(c, offset') = scan_run bits offset n \<Longrightarrow> offset < SEGMENT_SIZE \<Longrightarrow> \<not> bits offset
   \<Longrightarrow> offset < offset'"
  using scan_run_advances [of "offset + 1" bits "n + 1"]
  by (simp add: scan_run.simps [of bits offset n]) (metis Suc_le_eq snd_conv)

function scan_free :: "(nat \<Rightarrow> bool) \<Rightarrow> nat \<Rightarrow> (nat \<times> nat) list" where
  "scan_free bits offset =
     (if offset < SEGMENT_SIZE then
        (if \<not> bits offset
         then (let (current_size, offset') = scan_run bits offset 0
               in (offset, current_size) # scan_free bits offset')
         else scan_free bits (offset + 1))
      else [])"
  by pat_completeness auto
termination
  by (relation "measure (\<lambda>(bits, offset). SEGMENT_SIZE - offset)")
    (auto dest!: scan_run_progress)

declare scan_free.simps [simp del]

definition initialize_free_segments :: "segment_allocator \<Rightarrow> segment_allocator" where
  "initialize_free_segments a = a\<lparr>free_segments := free_segments a @ scan_free (sa_data a) 0\<rparr>"

definition segment_allocator_new :: "(nat \<Rightarrow> bool) \<Rightarrow> segment_allocator" where
  "segment_allocator_new bitmap = initialize_free_segments \<lparr>sa_data = bitmap, free_segments = []\<rparr>"

subsection \<open>Allocation\<close>

text \<open>The loops run over the indices of the free list as it was when they started.\<close>

fun allocate_loop ::
  "segment_allocator \<Rightarrow> nat \<Rightarrow> nat list \<Rightarrow> (nat option \<times> segment_allocator) option" where
  "allocate_loop a sz [] = Some (None, a)"
| "allocate_loop a sz (i # is) = do {
     (offset, segment_size) \<leftarrow> nth_opt (free_segments a) i;
     if segment_size \<ge> sz then do {
       a' \<leftarrow> mark a offset sz Allocate;
       offset' \<leftarrow> add_u32 offset sz;
       Some (Some offset, a'\<lparr>free_segments := (free_segments a')[i := (offset', segment_size - sz)]\<rparr>)
     } else allocate_loop a sz is }"

definition allocate ::
  "segment_allocator \<Rightarrow> nat \<Rightarrow> (nat option \<times> segment_allocator) option" where
  "allocate a sz =
     (if sz = 0 then Some (Some 0, a)
      else allocate_loop a sz [0..<length (free_segments a)])"

fun allocate_at_loop ::
  "segment_allocator \<Rightarrow> nat \<Rightarrow> nat \<Rightarrow> nat list \<Rightarrow> (bool \<times> segment_allocator) option" where
  "allocate_at_loop a sz offset [] = Some (False, a)"
| "allocate_at_loop a sz offset (i # is) = do {
     (seg_offset, seg_size) \<leftarrow> nth_opt (free_segments a) i;
     if seg_offset = offset \<and> seg_size = sz then do {
       a' \<leftarrow> mark (a\<lparr>free_segments := take i (free_segments a) @ drop (i + 1) (free_segments a)\<rparr>)
         offset sz Allocate;
       Some (True, a') }
     else if seg_offset = offset \<and> seg_size > sz then do {
       seg_offset' \<leftarrow> add_u32 seg_offset sz;
       a' \<leftarrow> mark (a\<lparr>free_segments := (free_segments a)[i := (seg_offset', seg_size - sz)]\<rparr>)
         offset sz Allocate;
       Some (True, a') }
     else if offset > seg_offset then do {
       end' \<leftarrow> add_u32 offset sz;
       seg_end \<leftarrow> add_u32 seg_offset seg_size;
       if end' = seg_end then do {
         seg_size' \<leftarrow> checked_sub seg_size sz;
         a' \<leftarrow> mark (a\<lparr>free_segments := (free_segments a)[i := (seg_offset, seg_size')]\<rparr>)
           offset sz Allocate;
         Some (True, a') }
       else if offset < seg_end \<and> end' < seg_end then do {
         remaining_size \<leftarrow> checked_sub seg_size (sz + (offset - seg_offset));
         a' \<leftarrow> mark (a\<lparr>free_segments :=
             (let fs = (free_segments a)[i := (seg_offset, offset - seg_offset)]
              in take (i + 1) fs @ (end', remaining_size) # drop (i + 1) fs)\<rparr>)
           offset sz Allocate;
         Some (True, a') }
       else allocate_at_loop a sz offset is }
     else allocate_at_loop a sz offset is }"

definition allocate_at ::
  "segment_allocator \<Rightarrow> nat \<Rightarrow> nat \<Rightarrow> (bool \<times> segment_allocator) option" where
  "allocate_at a sz offset =
     (if sz = 0 then Some (True, a)
      else do {
        end_idx \<leftarrow> add_u32 offset sz;
        if end_idx > SEGMENT_SIZE then Some (False, a)
        else if any_set (sa_data a) offset end_idx then Some (False, a)
        else allocate_at_loop a sz offset [0..<length (free_segments a)] })"

subsection \<open>The invariant\<close>

text \<open>
  The free list holds separated runs in increasing order, within the segment, and they
  cover exactly the free blocks. A run may be empty: allocation leaves empty runs behind.
\<close>

definition covers :: "nat \<times> nat \<Rightarrow> nat \<Rightarrow> bool" where
  "covers r i \<longleftrightarrow> fst r \<le> i \<and> i < fst r + snd r"

definition separated :: "(nat \<times> nat) list \<Rightarrow> bool" where
  "separated rs \<longleftrightarrow> sorted_wrt (\<lambda>r r'. fst r + snd r < fst r') rs"

definition allocator_inv :: "segment_allocator \<Rightarrow> bool" where
  "allocator_inv a \<longleftrightarrow> separated (free_segments a)
     \<and> (\<forall>r \<in> set (free_segments a). fst r + snd r \<le> SEGMENT_SIZE)
     \<and> (\<forall>i < SEGMENT_SIZE. sa_data a i \<longleftrightarrow> \<not> (\<exists>r \<in> set (free_segments a). covers r i))"

definition free_range :: "segment_allocator \<Rightarrow> nat \<Rightarrow> nat \<Rightarrow> bool" where
  "free_range a offset sz \<longleftrightarrow>
     offset + sz \<le> SEGMENT_SIZE \<and> (\<forall>i. offset \<le> i \<and> i < offset + sz \<longrightarrow> \<not> sa_data a i)"

lemma SEGMENT_SIZE_less: "SEGMENT_SIZE < 2 ^ 32"
  by (simp add: SEGMENT_SIZE_def SEGMENT_SIZE_LOG_2_def)

lemma any_set_iff: "any_set bits lo hi \<longleftrightarrow> (\<exists>i. lo \<le> i \<and> i < hi \<and> bits i)"
  by (auto simp: any_set_def list_ex_iff)

lemma add_u32_segment: "a + b \<le> SEGMENT_SIZE \<Longrightarrow> add_u32 a b = Some (a + b)"
  using SEGMENT_SIZE_less by (simp add: add_u32_def)

lemma mark_free_range:
  "free_range a offset sz \<Longrightarrow> mark a offset sz Allocate =
    Some (a\<lparr>sa_data := (\<lambda>i. sa_data a i \<or> offset \<le> i \<and> i < offset + sz)\<rparr>)"
  by (cases a) (auto simp: mark_def free_range_def add_u32_segment any_set_iff)

subsection \<open>The scan finds exactly the free runs\<close>

lemma scan_run_spec:
  "offset \<le> SEGMENT_SIZE \<Longrightarrow> \<exists>k. scan_run bits offset n = (n + k, offset + k)
    \<and> offset + k \<le> SEGMENT_SIZE \<and> (\<forall>i. offset \<le> i \<and> i < offset + k \<longrightarrow> \<not> bits i)
    \<and> (offset + k < SEGMENT_SIZE \<longrightarrow> bits (offset + k))"
proof (induction bits offset n rule: scan_run.induct)
  case (1 bits offset n)
  show ?case
  proof (cases "offset < SEGMENT_SIZE \<and> \<not> bits offset")
    case True
    with 1 obtain k where k: "scan_run bits (offset + 1) (n + 1) = (n + 1 + k, offset + 1 + k)"
      "offset + 1 + k \<le> SEGMENT_SIZE" "\<forall>i. offset + 1 \<le> i \<and> i < offset + 1 + k \<longrightarrow> \<not> bits i"
      "offset + 1 + k < SEGMENT_SIZE \<longrightarrow> bits (offset + 1 + k)" by auto
    have "\<not> bits i" if "offset \<le> i" "i < offset + Suc k" for i
      using that k(3) True by (cases "i = offset") auto
    with True k show ?thesis
      by (intro exI [of _ "Suc k"]) (simp add: scan_run.simps [of bits offset n])
  next
    case False
    with 1 show ?thesis by (intro exI [of _ 0]) (auto simp: scan_run.simps [of bits offset n])
  qed
qed

lemma scan_free_spec:
  "offset \<le> SEGMENT_SIZE \<Longrightarrow> separated (scan_free bits offset)
    \<and> (\<forall>r \<in> set (scan_free bits offset). offset \<le> fst r \<and> 0 < snd r \<and> fst r + snd r \<le> SEGMENT_SIZE)
    \<and> (\<forall>i. offset \<le> i \<and> i < SEGMENT_SIZE \<longrightarrow>
         (bits i \<longleftrightarrow> \<not> (\<exists>r \<in> set (scan_free bits offset). covers r i)))"
proof (induction bits offset rule: scan_free.induct)
  case (1 bits offset)
  consider (past) "\<not> offset < SEGMENT_SIZE" | (used) "offset < SEGMENT_SIZE" "bits offset"
    | (free) "offset < SEGMENT_SIZE" "\<not> bits offset" by blast
  then show ?case
  proof cases
    case past
    then show ?thesis by (auto simp: scan_free.simps [of bits offset] separated_def)
  next
    case used
    with 1 have IH: "separated (scan_free bits (offset + 1))"
      "\<forall>r \<in> set (scan_free bits (offset + 1)). offset + 1 \<le> fst r \<and> 0 < snd r \<and> fst r + snd r \<le> SEGMENT_SIZE"
      "\<forall>i. offset + 1 \<le> i \<and> i < SEGMENT_SIZE \<longrightarrow>
         (bits i \<longleftrightarrow> \<not> (\<exists>r \<in> set (scan_free bits (offset + 1)). covers r i))" by auto
    have "bits i \<longleftrightarrow> \<not> (\<exists>r \<in> set (scan_free bits (offset + 1)). covers r i)"
      if "offset \<le> i" "i < SEGMENT_SIZE" for i
    proof (cases "i = offset")
      case True
      with used IH(2) show ?thesis by (auto simp: covers_def)
    next
      case False
      with that IH(3) show ?thesis by simp
    qed
    with used IH(1,2) show ?thesis by (auto simp: scan_free.simps [of bits offset])
  next
    case free
    obtain k where k: "scan_run bits offset 0 = (k, offset + k)" "offset + k \<le> SEGMENT_SIZE"
      "\<forall>i. offset \<le> i \<and> i < offset + k \<longrightarrow> \<not> bits i"
      "offset + k < SEGMENT_SIZE \<longrightarrow> bits (offset + k)"
      using scan_run_spec [of offset bits 0] free by auto
    have "0 < k" using scan_run_progress [of k "offset + k" bits offset 0] k(1) free by simp
    let ?rest = "scan_free bits (offset + k)"
    have IH: "separated ?rest"
      "\<forall>r \<in> set ?rest. offset + k \<le> fst r \<and> 0 < snd r \<and> fst r + snd r \<le> SEGMENT_SIZE"
      "\<forall>i. offset + k \<le> i \<and> i < SEGMENT_SIZE \<longrightarrow> (bits i \<longleftrightarrow> \<not> (\<exists>r \<in> set ?rest. covers r i))"
      using 1(1) [OF free k(1) [symmetric] refl] k(2) by auto
    have gap: "offset + k < fst r" if "r \<in> set ?rest" for r
    proof (rule ccontr)
      assume "\<not> offset + k < fst r"
      with that IH(2) have r: "fst r = offset + k" "0 < snd r" "fst r + snd r \<le> SEGMENT_SIZE" by fastforce+
      then have "offset + k < SEGMENT_SIZE" "covers r (offset + k)" by (auto simp: covers_def)
      with IH(3) k(4) that show False by blast
    qed
    have "bits i \<longleftrightarrow> \<not> (\<exists>r \<in> set ((offset, k) # ?rest). covers r i)"
      if "offset \<le> i" "i < SEGMENT_SIZE" for i
    proof (cases "i < offset + k")
      case True
      with that k(3) show ?thesis by (auto simp: covers_def)
    next
      case False
      with that IH(3) show ?thesis by (simp add: covers_def)
    qed
    with free k IH(1,2) gap \<open>0 < k\<close> show ?thesis
      by (auto simp: scan_free.simps [of bits offset] separated_def)
  qed
qed

subsection \<open>Carving a range out of a free run\<close>

definition take_range :: "segment_allocator \<Rightarrow> nat \<Rightarrow> nat \<Rightarrow> (nat \<times> nat) list \<Rightarrow> segment_allocator" where
  "take_range a offset sz fs =
     \<lparr>sa_data = (\<lambda>i. sa_data a i \<or> offset \<le> i \<and> i < offset + sz), free_segments = fs\<rparr>"

lemma take_range_update:
  "a\<lparr>sa_data := (\<lambda>i. sa_data a i \<or> offset \<le> i \<and> i < offset + sz), free_segments := fs\<rparr> =
    take_range a offset sz fs"
  by (cases a) (simp add: take_range_def)

lemma take_range_simps [simp]:
  "sa_data (take_range a offset sz fs) = (\<lambda>i. sa_data a i \<or> offset \<le> i \<and> i < offset + sz)"
  "free_segments (take_range a offset sz fs) = fs"
  by (simp_all add: take_range_def)

lemma free_range_update_segments [simp]:
  "free_range (a\<lparr>free_segments := fs\<rparr>) offset sz = free_range a offset sz"
  by (simp add: free_range_def)

lemma separated_replace:
  assumes "separated (L @ r # R)" "separated ps"
    "\<forall>p \<in> set ps. fst r \<le> fst p \<and> fst p + snd p \<le> fst r + snd r"
  shows "separated (L @ ps @ R)"
  using assms by (fastforce simp: separated_def sorted_wrt_append)

lemma separated_disjoint:
  assumes "separated (L @ r # R)" "r' \<in> set L \<union> set R" "covers r i"
  shows "\<not> covers r' i"
  using assms by (fastforce simp: separated_def sorted_wrt_append covers_def)

text \<open>Replacing the run \<open>r\<close> by what the range leaves of it keeps the invariant.\<close>

lemma allocator_inv_carve:
  assumes inv: "allocator_inv a" and fs: "free_segments a = L @ r # R"
    and ps: "separated ps" "\<forall>p \<in> set ps. fst r \<le> fst p \<and> fst p + snd p \<le> fst r + snd r"
    and cut: "\<And>i. (\<exists>p \<in> set ps. covers p i) \<longleftrightarrow> covers r i \<and> \<not> (offset \<le> i \<and> i < offset + sz)"
    and within: "fst r \<le> offset" "offset + sz \<le> fst r + snd r"
  shows "allocator_inv (take_range a offset sz (L @ ps @ R))"
proof -
  have sep: "separated (L @ r # R)" and bound: "\<forall>r \<in> set (L @ r # R). fst r + snd r \<le> SEGMENT_SIZE"
    and exact: "\<forall>i < SEGMENT_SIZE. sa_data a i \<longleftrightarrow> \<not> (\<exists>r \<in> set (L @ r # R). covers r i)"
    using inv fs by (simp_all add: allocator_inv_def)
  have inside: "covers r i" if "offset \<le> i" "i < offset + sz" for i
    using that within by (simp add: covers_def)
  have "(sa_data a i \<or> offset \<le> i \<and> i < offset + sz) \<longleftrightarrow> \<not> (\<exists>r' \<in> set (L @ ps @ R). covers r' i)"
    if "i < SEGMENT_SIZE" for i
  proof -
    have "(\<exists>r' \<in> set (L @ ps @ R). covers r' i) \<longleftrightarrow>
        (\<exists>r' \<in> set L \<union> set R. covers r' i) \<or> (covers r i \<and> \<not> (offset \<le> i \<and> i < offset + sz))"
      unfolding cut [symmetric] by auto
    moreover have "sa_data a i \<longleftrightarrow> \<not> ((\<exists>r' \<in> set L \<union> set R. covers r' i) \<or> covers r i)"
      using exact that by auto
    ultimately show ?thesis using inside [of i] separated_disjoint [OF sep, of _ i] by blast
  qed
  moreover have "\<forall>r' \<in> set (L @ ps @ R). fst r' + snd r' \<le> SEGMENT_SIZE"
    using bound ps(2) by (auto dest!: bspec intro: order_trans)
  ultimately show ?thesis
    using separated_replace [OF sep ps] by (simp add: allocator_inv_def)
qed

lemma run_is_free:
  assumes "allocator_inv a" "r \<in> set (free_segments a)" "fst r \<le> offset" "offset + sz \<le> fst r + snd r"
  shows "free_range a offset sz"
  using assms by (fastforce simp: free_range_def allocator_inv_def covers_def)

text \<open>A free range lies within one of the runs, since different runs do not touch.\<close>

lemma free_range_in_run:
  assumes inv: "allocator_inv a" and free: "free_range a offset sz" and "0 < sz"
  obtains r where "r \<in> set (free_segments a)" "fst r \<le> offset" "offset + sz \<le> fst r + snd r"
proof -
  have cov: "\<exists>r \<in> set (free_segments a). covers r i" if "offset \<le> i" "i < offset + sz" for i
    using inv free that by (auto simp: allocator_inv_def free_range_def)
  obtain r where r: "r \<in> set (free_segments a)" "covers r offset"
    using cov [of offset] \<open>0 < sz\<close> by auto
  have "covers r (offset + k)" if "k < sz" for k
    using that
  proof (induction k)
    case 0
    show ?case using r by simp
  next
    case (Suc k)
    obtain r' where r': "r' \<in> set (free_segments a)" "covers r' (offset + Suc k)"
      using cov [of "offset + Suc k"] Suc.prems by auto
    have IH: "covers r (offset + k)" using Suc by simp
    have "r' = r"
    proof (rule ccontr)
      assume "r' \<noteq> r"
      then have "fst r + snd r < fst r' \<or> fst r' + snd r' < fst r"
        using inv r(1) r'(1)
        by (auto simp: allocator_inv_def separated_def in_set_conv_nth sorted_wrt_iff_nth_less)
          (metis linorder_neqE_nat prod.collapse)
      with IH r'(2) show False by (auto simp: covers_def)
    qed
    with r'(2) show ?case by simp
  qed
  from this [of "sz - 1"] r \<open>0 < sz\<close> show thesis by (intro that) (auto simp: covers_def)
qed

subsection \<open>The allocation loops\<close>

definition fits :: "segment_allocator \<Rightarrow> nat \<Rightarrow> nat \<Rightarrow> bool" where
  "fits a sz i \<longleftrightarrow> sz \<le> snd (free_segments a ! i)"

definition allocate_result :: "segment_allocator \<Rightarrow> nat \<Rightarrow> nat \<Rightarrow> nat option \<times> segment_allocator" where
  "allocate_result a sz i = (let (offset, s) = free_segments a ! i in
     (Some offset, take_range a offset sz ((free_segments a)[i := (offset + sz, s - sz)])))"

lemma allocate_loop_find:
  assumes inv: "allocator_inv a"
  shows "\<forall>i \<in> set is. i < length (free_segments a) \<Longrightarrow> allocate_loop a sz is =
    Some (case find (fits a sz) is of None \<Rightarrow> (None, a) | Some i \<Rightarrow> allocate_result a sz i)"
proof (induction "is")
  case (Cons i "is")
  obtain offset s where r: "free_segments a ! i = (offset, s)" by fastforce
  have "free_range a offset sz" if "sz \<le> s"
    using run_is_free [OF inv nth_mem, of i offset sz] that r Cons.prems by simp
  then have "mark a offset sz Allocate = Some (a\<lparr>sa_data := (\<lambda>i. sa_data a i \<or> offset \<le> i \<and> i < offset + sz)\<rparr>)"
    "add_u32 offset sz = Some (offset + sz)" if "sz \<le> s"
    using that by (auto simp: mark_free_range free_range_def add_u32_segment)
  with Cons r show ?case
    by (auto simp: fits_def allocate_result_def nth_opt_def take_range_update)
qed simp

lemma allocate_result_inv:
  assumes inv: "allocator_inv a" and i: "i < length (free_segments a)" "fits a sz i"
  shows "allocator_inv (snd (allocate_result a sz i))"
proof -
  obtain offset s where r: "free_segments a ! i = (offset, s)" by fastforce
  let ?L = "take i (free_segments a)" and ?R = "drop (Suc i) (free_segments a)"
  have fs: "free_segments a = ?L @ (offset, s) # ?R" using i r by (metis id_take_nth_drop)
  have "allocator_inv (take_range a offset sz (?L @ [(offset + sz, s - sz)] @ ?R))"
    using i r by (intro allocator_inv_carve [OF inv fs]) (auto simp: separated_def covers_def fits_def)
  with i r show ?thesis by (simp add: allocate_result_def upd_conv_take_nth_drop)
qed

lemma runs_sorted:
  assumes "allocator_inv a" "i \<le> j" "j < length (free_segments a)"
  shows "fst (free_segments a ! i) \<le> fst (free_segments a ! j)"
proof (cases "i = j")
  case False
  with assms have "fst (free_segments a ! i) + snd (free_segments a ! i) < fst (free_segments a ! j)"
    by (intro sorted_wrt_nth_less [where P = "\<lambda>r r'. fst r + snd r < fst r'"])
      (auto simp: allocator_inv_def separated_def)
  then show ?thesis by simp
qed simp

text \<open>Why a run of \<open>allocate_at\<close>'s list that holds the range is the one its loop stops at.\<close>

definition holds_range :: "nat \<times> nat \<Rightarrow> nat \<Rightarrow> nat \<Rightarrow> bool" where
  "holds_range r offset sz \<longleftrightarrow> fst r \<le> offset \<and> offset + sz \<le> fst r + snd r"

definition leftover :: "nat \<times> nat \<Rightarrow> nat \<Rightarrow> nat \<Rightarrow> (nat \<times> nat) list" where
  "leftover r offset sz =
     (if fst r < offset then [(fst r, offset - fst r)] else []) @
     (if offset + sz < fst r + snd r then [(offset + sz, fst r + snd r - (offset + sz))] else [])"

lemma leftover_carves:
  assumes "holds_range r offset sz" "0 < sz"
  shows "separated (leftover r offset sz)"
    and "\<forall>p \<in> set (leftover r offset sz). fst r \<le> fst p \<and> fst p + snd p \<le> fst r + snd r"
    and "(\<exists>p \<in> set (leftover r offset sz). covers p i) \<longleftrightarrow> covers r i \<and> \<not> (offset \<le> i \<and> i < offset + sz)"
proof -
  show "separated (leftover r offset sz)"
    using assms by (simp add: leftover_def separated_def)
  show "\<forall>p \<in> set (leftover r offset sz). fst r \<le> fst p \<and> fst p + snd p \<le> fst r + snd r"
    using assms by (auto simp: leftover_def holds_range_def)
  show "(\<exists>p \<in> set (leftover r offset sz). covers p i) \<longleftrightarrow> covers r i \<and> \<not> (offset \<le> i \<and> i < offset + sz)"
    using assms
    by (cases "fst r < offset"; cases "offset + sz < fst r + snd r")
      (simp_all add: leftover_def holds_range_def covers_def, arith+)
qed

lemma allocate_at_step:
  assumes inv: "allocator_inv a" and i: "i < length (free_segments a)" and sz: "0 < sz"
    and free: "free_range a offset sz"
  shows "allocate_at_loop a sz offset (i # is) =
    (if holds_range (free_segments a ! i) offset sz
     then Some (True, take_range a offset sz (take i (free_segments a)
       @ leftover (free_segments a ! i) offset sz @ drop (Suc i) (free_segments a)))
     else allocate_at_loop a sz offset is)"
proof -
  obtain o' s where r: "free_segments a ! i = (o', s)" by fastforce
  have "o' + s \<le> SEGMENT_SIZE" using inv i r by (metis allocator_inv_def fst_conv nth_mem snd_conv)
  moreover have "offset + sz \<le> SEGMENT_SIZE" using free by (simp add: free_range_def)
  ultimately have adds: "add_u32 o' s = Some (o' + s)" "add_u32 offset sz = Some (offset + sz)"
    "sz < s \<Longrightarrow> add_u32 o' sz = Some (o' + sz)"
    by (simp_all add: add_u32_segment)
  consider "\<not> holds_range (o', s) offset sz" | "o' = offset" "s = sz" | "o' = offset" "s > sz"
    | "o' < offset" "offset + sz = o' + s" | "o' < offset" "offset + sz < o' + s"
    unfolding holds_range_def fst_conv snd_conv by atomize_elim arith
  then show ?thesis
  proof cases
    case 1
    then show ?thesis using adds by (auto simp: r i nth_opt_def holds_range_def)
  next
    case 2
    then show ?thesis using adds
      by (simp add: r i nth_opt_def holds_range_def leftover_def mark_free_range free take_range_update)
  next
    case 3
    then show ?thesis using adds
      by (simp add: r i nth_opt_def holds_range_def leftover_def mark_free_range free take_range_update
          upd_conv_take_nth_drop)
  next
    case 4
    then show ?thesis using adds
      by (simp add: r i nth_opt_def holds_range_def leftover_def mark_free_range free take_range_update
          upd_conv_take_nth_drop checked_sub_def)
  next
    case 5
    then show ?thesis using adds
      by (simp add: r i nth_opt_def holds_range_def leftover_def mark_free_range free take_range_update
          upd_conv_take_nth_drop checked_sub_def Let_def)
  qed
qed

lemma allocate_at_loop_free:
  assumes inv: "allocator_inv a" and sz: "0 < sz" and free: "free_range a offset sz"
  shows "\<lbrakk>\<forall>i \<in> set is. i < length (free_segments a);
      \<exists>i \<in> set is. holds_range (free_segments a ! i) offset sz\<rbrakk>
    \<Longrightarrow> \<exists>fs. allocate_at_loop a sz offset is = Some (True, take_range a offset sz fs)
      \<and> allocator_inv (take_range a offset sz fs)"
proof (induction "is")
  case (Cons i "is")
  let ?r = "free_segments a ! i"
  have i: "i < length (free_segments a)" using Cons.prems by simp
  show ?case
  proof (cases "holds_range ?r offset sz")
    case True
    have fs: "free_segments a = take i (free_segments a) @ ?r # drop (Suc i) (free_segments a)"
      using i by (rule id_take_nth_drop)
    have "allocator_inv (take_range a offset sz (take i (free_segments a)
        @ leftover ?r offset sz @ drop (Suc i) (free_segments a)))"
      using True by (intro allocator_inv_carve [OF inv fs] leftover_carves [OF True sz]) (auto simp: holds_range_def)
    with True show ?thesis by (auto simp: allocate_at_step [OF inv i sz free] simp del: allocate_at_loop.simps)
  next
    case False
    with Cons show ?thesis by (simp add: allocate_at_step [OF inv i sz free] del: allocate_at_loop.simps)
  qed
qed simp

subsection \<open>Correctness of the allocator\<close>

lemma allocator_new_spec: "allocator_inv (segment_allocator_new bits)"
  using scan_free_spec [of 0 bits]
  by (auto simp: segment_allocator_new_def initialize_free_segments_def allocator_inv_def)

lemma allocate_spec:
  assumes "allocator_inv a" "0 < sz"
  shows "case allocate a sz of
      None \<Rightarrow> False
    | Some (None, a') \<Rightarrow> a' = a \<and> (\<forall>offset. \<not> free_range a offset sz)
    | Some (Some offset, a') \<Rightarrow> free_range a offset sz
        \<and> (\<forall>offset'. free_range a offset' sz \<longrightarrow> offset \<le> offset')
        \<and> sa_data a' = (\<lambda>i. sa_data a i \<or> offset \<le> i \<and> i < offset + sz) \<and> allocator_inv a'"
proof -
  let ?n = "length (free_segments a)"
  have fit: "\<exists>j < ?n. fits a sz j \<and> fst (free_segments a ! j) \<le> offset'" if "free_range a offset' sz" for offset'
  proof -
    note free = that
    obtain r where "r \<in> set (free_segments a)" "fst r \<le> offset'" "offset' + sz \<le> fst r + snd r"
      using free_range_in_run [OF assms(1) free assms(2)] .
    then show ?thesis by (auto simp: fits_def in_set_conv_nth)
  qed
  show ?thesis
  proof (cases "find (fits a sz) [0..<?n]")
    case None
    then have "\<forall>j < ?n. \<not> fits a sz j" by (simp add: find_None_iff)
    with fit have "\<forall>offset. \<not> free_range a offset sz" by blast
    with None assms show ?thesis by (simp add: allocate_def allocate_loop_find)
  next
    case (Some i)
    then have i: "i < ?n" "fits a sz i" "\<forall>j < i. \<not> fits a sz j"
      by (auto simp: find_Some_iff)
    obtain offset s where r: "free_segments a ! i = (offset, s)" by fastforce
    have "free_range a offset sz"
      using i r assms run_is_free [OF assms(1) nth_mem, of i offset sz] by (simp add: fits_def)
    moreover have "offset \<le> offset'" if "free_range a offset' sz" for offset'
      using fit [OF that] runs_sorted [OF assms(1), of i] i(3) r by (metis fst_conv le_trans not_le_imp_less)
    ultimately show ?thesis
      using Some assms i r allocate_result_inv [OF assms(1) i(1,2)]
      by (simp add: allocate_def allocate_loop_find allocate_result_def)
  qed
qed

lemma allocate_at_spec:
  assumes "allocator_inv a" "0 < sz" "offset + sz < 2 ^ 32"
  shows "case allocate_at a sz offset of
      None \<Rightarrow> False
    | Some (False, a') \<Rightarrow> a' = a \<and> \<not> free_range a offset sz
    | Some (True, a') \<Rightarrow> free_range a offset sz \<and> allocator_inv a'
        \<and> sa_data a' = (\<lambda>i. sa_data a i \<or> offset \<le> i \<and> i < offset + sz)"
proof (cases "free_range a offset sz")
  case True
  then have guards: "\<not> SEGMENT_SIZE < offset + sz" "\<not> any_set (sa_data a) offset (offset + sz)"
    by (auto simp: free_range_def any_set_iff)
  have "\<exists>i \<in> set [0..<length (free_segments a)]. holds_range (free_segments a ! i) offset sz"
  proof -
    obtain r where "r \<in> set (free_segments a)" "fst r \<le> offset" "offset + sz \<le> fst r + snd r"
      using free_range_in_run [OF assms(1) True assms(2)] .
    then show ?thesis by (auto simp: holds_range_def in_set_conv_nth)
  qed
  then obtain fs where "allocate_at_loop a sz offset [0..<length (free_segments a)] =
      Some (True, take_range a offset sz fs)" "allocator_inv (take_range a offset sz fs)"
    using allocate_at_loop_free [OF assms(1,2) True, of "[0..<length (free_segments a)]"] by auto
  with guards assms True show ?thesis by (simp add: allocate_at_def add_u32_def)
next
  case False
  then have "SEGMENT_SIZE < offset + sz \<or> any_set (sa_data a) offset (offset + sz)"
    by (auto simp: free_range_def any_set_iff)
  with assms False show ?thesis by (auto simp: allocate_at_def add_u32_def)
qed

text \<open>
  The interface of the allocator of a segment: an allocation takes blocks that were not in use and
  puts exactly these into use. The client lemmas say that blocks that are in use are never given
  out, whatever they are in use for.
\<close>

locale block_allocator =
  fixes ok :: "'a \<Rightarrow> bool"
    and used :: "'a \<Rightarrow> nat \<Rightarrow> bool"
    and limit :: nat
    and alloc :: "'a \<Rightarrow> nat \<Rightarrow> (nat option \<times> 'a) option"
    and alloc_at :: "'a \<Rightarrow> nat \<Rightarrow> nat \<Rightarrow> (bool \<times> 'a) option"
  assumes alloc_law: "ok a \<Longrightarrow> 0 < n \<Longrightarrow> \<exists>r a'. alloc a n = Some (r, a') \<and> ok a' \<and> (case r of None \<Rightarrow> a' = a
      | Some off \<Rightarrow> off + n \<le> limit \<and> (\<forall>i. off \<le> i \<and> i < off + n \<longrightarrow> \<not> used a i) \<and> used a' = (\<lambda>i. used a i \<or> off \<le> i \<and> i < off + n))"
    and alloc_at_law: "ok a \<Longrightarrow> 0 < n \<Longrightarrow> off + n < 2 ^ 32 \<Longrightarrow> \<exists>b a'. alloc_at a n off = Some (b, a') \<and> ok a'
      \<and> (if b then off + n \<le> limit \<and> (\<forall>i. off \<le> i \<and> i < off + n \<longrightarrow> \<not> used a i) \<and> used a' = (\<lambda>i. used a i \<or> off \<le> i \<and> i < off + n)
          else a' = a)"
begin

lemma alloc_disjoint:
  assumes "ok a" "0 < n" "\<forall>i. X i \<longrightarrow> used a i" "alloc a n = Some (Some off, a')"
  shows "ok a'" "off + n \<le> limit" "\<forall>i. off \<le> i \<and> i < off + n \<longrightarrow> \<not> X i" "\<forall>i. X i \<or> off \<le> i \<and> i < off + n \<longrightarrow> used a' i"
  using alloc_law [OF assms(1,2)] assms(3,4) by auto

lemma alloc_fails:
  assumes "ok a" "0 < n" "alloc a n = Some (None, a')"
  shows "a' = a"
  using alloc_law [OF assms(1,2)] assms(3) by auto

lemma alloc_at_keeps:
  assumes "ok a" "0 < n" "off + n < 2 ^ 32" "alloc_at a n off = Some (b, a')"
  shows "ok a'" "used a i \<Longrightarrow> used a' i" "b \<Longrightarrow> off \<le> i \<Longrightarrow> i < off + n \<Longrightarrow> used a' i"
proof -
  have law: "ok a' \<and> (if b then off + n \<le> limit \<and> (\<forall>i. off \<le> i \<and> i < off + n \<longrightarrow> \<not> used a i)
      \<and> used a' = (\<lambda>i. used a i \<or> off \<le> i \<and> i < off + n) else a' = a)"
    using alloc_at_law [OF assms(1-3)] unfolding assms(4) option.inject prod.inject by (elim exE conjE) (rule conjI; hypsubst; assumption)
  then show "ok a'" by blast
  show "used a i \<Longrightarrow> used a' i" "b \<Longrightarrow> off \<le> i \<Longrightarrow> i < off + n \<Longrightarrow> used a' i"
    using law by (cases b; simp)+
qed

end

interpretation sga: block_allocator allocator_inv sa_data SEGMENT_SIZE allocate allocate_at
proof
  fix a :: segment_allocator and n off :: nat
  assume a: "allocator_inv a" "0 < n"
  show "\<exists>r a'. allocate a n = Some (r, a') \<and> allocator_inv a' \<and> (case r of None \<Rightarrow> a' = a
      | Some off \<Rightarrow> off + n \<le> SEGMENT_SIZE \<and> (\<forall>i. off \<le> i \<and> i < off + n \<longrightarrow> \<not> sa_data a i)
          \<and> sa_data a' = (\<lambda>i. sa_data a i \<or> off \<le> i \<and> i < off + n))"
  proof (cases "allocate a n")
    case (Some x)
    then show ?thesis using allocate_spec [OF a] a(1) by (cases x; cases "fst x") (auto simp: free_range_def)
  qed (use allocate_spec [OF a] in simp)
  show "\<exists>b a'. allocate_at a n off = Some (b, a') \<and> allocator_inv a'
      \<and> (if b then off + n \<le> SEGMENT_SIZE \<and> (\<forall>i. off \<le> i \<and> i < off + n \<longrightarrow> \<not> sa_data a i)
            \<and> sa_data a' = (\<lambda>i. sa_data a i \<or> off \<le> i \<and> i < off + n) else a' = a)" if "off + n < 2 ^ 32"
  proof (cases "allocate_at a n off")
    case (Some x)
    then show ?thesis using allocate_at_spec [OF a that] a(1) by (cases x; cases "fst x") (auto simp: free_range_def)
  qed (use allocate_at_spec [OF a that] in simp)
qed

subsection \<open>The properties of the allocator\<close>

text \<open>
  A segment allocator loaded from any bitmap satisfies the invariant: the free list
  consists of separated runs inside the segment that cover exactly the clear bits.
\<close>

theorem segment_allocator_new_inv: "allocator_inv (segment_allocator_new bits)"
  by (rule allocator_new_spec)

text \<open>
  C12. Allocation is first fit and never panics: it fails exactly when no free range of the
  requested size exists, and otherwise returns the lowest such range, marks exactly its
  blocks and keeps the invariant.
\<close>

theorem allocate_first_fit:
  assumes "allocator_inv a" "0 < sz"
  shows "case allocate a sz of
      None \<Rightarrow> False
    | Some (None, a') \<Rightarrow> a' = a \<and> (\<forall>offset. \<not> free_range a offset sz)
    | Some (Some offset, a') \<Rightarrow> free_range a offset sz
        \<and> (\<forall>offset'. free_range a offset' sz \<longrightarrow> offset \<le> offset')
        \<and> sa_data a' = (\<lambda>i. sa_data a i \<or> offset \<le> i \<and> i < offset + sz) \<and> allocator_inv a'"
  by (rule allocate_spec [OF assms])

text \<open>
  C29. Allocation at a fixed offset never panics for a range whose end is a \<open>u32\<close>: it
  succeeds exactly when the range lies inside the segment and is free, in which case it
  marks exactly those blocks and keeps the invariant; otherwise nothing changes.
\<close>

theorem allocate_at_exact:
  assumes "allocator_inv a" "0 < sz" "offset + sz < 2 ^ 32"
  shows "case allocate_at a sz offset of
      None \<Rightarrow> False
    | Some (False, a') \<Rightarrow> a' = a \<and> \<not> free_range a offset sz
    | Some (True, a') \<Rightarrow> free_range a offset sz \<and> allocator_inv a'
        \<and> sa_data a' = (\<lambda>i. sa_data a i \<or> offset \<le> i \<and> i < offset + sz)"
  by (rule allocate_at_spec [OF assms])

definition empty_segment :: segment_allocator where
  "empty_segment = \<lparr>sa_data = (\<lambda>_. False), free_segments = [(0, SEGMENT_SIZE)]\<rparr>"

lemma empty_segment_inv: "allocator_inv empty_segment"
  by (simp add: empty_segment_def allocator_inv_def separated_def covers_def)

theorem allocate_first_fit_witness:
  "allocator_inv empty_segment \<and> (\<exists>offset a'. allocate empty_segment 5 = Some (Some offset, a')
     \<and> sa_data a' = (\<lambda>i. offset \<le> i \<and> i < offset + 5) \<and> allocator_inv a')"
proof -
  have "free_range empty_segment 0 5"
    by (simp add: free_range_def empty_segment_def SEGMENT_SIZE_def SEGMENT_SIZE_LOG_2_def)
  then show ?thesis
    using allocate_first_fit [OF empty_segment_inv, of 5] empty_segment_inv
    by (auto split: option.splits simp: empty_segment_def)
qed

theorem allocate_at_exact_witness:
  "allocator_inv empty_segment \<and> (\<exists>a'. allocate_at empty_segment 5 7 = Some (True, a')
     \<and> sa_data a' = (\<lambda>i. 7 \<le> i \<and> i < 12) \<and> allocator_inv a')"
proof -
  have "free_range empty_segment 7 5"
    by (simp add: free_range_def empty_segment_def SEGMENT_SIZE_def SEGMENT_SIZE_LOG_2_def)
  then show ?thesis
    using allocate_at_exact [OF empty_segment_inv, of 5 7] empty_segment_inv
    by (auto split: option.splits bool.splits simp: empty_segment_def)
qed

end
