(* ===== verification/CowBytes.thy ===== *)
theory CowBytes
  imports Prelude
begin

text \<open>
  \<^verbatim>\<open>betree/src/cow_bytes.rs\<close>: reference-counted byte strings and slices of them.
  \<^verbatim>\<open>CowBytes\<close> clones its buffer before a write to shared data, so it has the value
  semantics of a byte list. \<^verbatim>\<open>SlicedCowBytes\<close> is a byte source with a position and a
  length; a raw source stands for the memory region its pointer designates.
\<close>

subsection \<open>CowBytes\<close>

type_synonym cow_bytes = bytes

definition cow_size :: "cow_bytes \<Rightarrow> nat" where
  "cow_size b = 8 + length b"

definition push_slice :: "cow_bytes \<Rightarrow> bytes \<Rightarrow> cow_bytes" where
  "push_slice b v = b @ v"

definition fill_zeros_up_to :: "cow_bytes \<Rightarrow> nat \<Rightarrow> cow_bytes" where
  "fill_zeros_up_to b n = (if length b < n then b @ replicate (n - length b) 0 else b)"

subsection \<open>SlicedCowBytes\<close>

datatype byte_source = Cow cow_bytes | Raw bytes

record sliced_cow_bytes =
  scb_data :: byte_source
  scb_pos :: nat
  scb_len :: nat

fun source_bytes :: "byte_source \<Rightarrow> bytes" where
  "source_bytes (Cow b) = b"
| "source_bytes (Raw b) = b"

definition sliced_of_cow :: "cow_bytes \<Rightarrow> sliced_cow_bytes" where
  "sliced_of_cow b = \<lparr>scb_data = Cow b, scb_pos = 0, scb_len = length b mod 2 ^ 32\<rparr>"

definition sliced_deref :: "sliced_cow_bytes \<Rightarrow> bytes option" where
  "sliced_deref s = cut (source_bytes (scb_data s)) (scb_pos s) (scb_len s)"

definition sliced_size :: "sliced_cow_bytes \<Rightarrow> nat" where
  "sliced_size s = 8 + scb_len s"

definition sliced_cache_size :: "sliced_cow_bytes \<Rightarrow> nat" where
  "sliced_cache_size s = (case scb_data s of Cow b \<Rightarrow> cow_size b | Raw _ \<Rightarrow> 8 + 8)"

definition subslice :: "sliced_cow_bytes \<Rightarrow> nat \<Rightarrow> nat \<Rightarrow> sliced_cow_bytes option" where
  "subslice s pos len = do {
     last \<leftarrow> add_u32 pos len;
     assert_that (last \<le> scb_len s);
     pos' \<leftarrow> add_u32 (scb_pos s) pos;
     Some (s\<lparr>scb_pos := pos', scb_len := len\<rparr>) }"

definition slice_from :: "sliced_cow_bytes \<Rightarrow> nat \<Rightarrow> sliced_cow_bytes option" where
  "slice_from s pos = do {
     assert_that (pos \<le> scb_len s);
     pos' \<leftarrow> add_u32 (scb_pos s) pos;
     Some (s\<lparr>scb_pos := pos', scb_len := scb_len s - pos\<rparr>) }"

definition cow_slice :: "cow_bytes \<Rightarrow> nat \<Rightarrow> nat \<Rightarrow> sliced_cow_bytes option" where
  "cow_slice b pos len = subslice (sliced_of_cow b) pos len"

definition cow_slice_from :: "cow_bytes \<Rightarrow> nat \<Rightarrow> sliced_cow_bytes option" where
  "cow_slice_from b pos = do {
     len \<leftarrow> checked_sub (length b mod 2 ^ 32) pos;
     cow_slice b pos len }"

definition from_raw :: "bytes \<Rightarrow> sliced_cow_bytes option" where
  "from_raw region = do {
     assert_that (length region < 2 ^ 32);
     Some \<lparr>scb_data = Raw region, scb_pos = 0, scb_len = length region\<rparr> }"

text \<open>\<open>into_cow_bytes\<close> hands out the underlying buffer when the slice starts at 0;
  \<open>Inr\<close> returns the slice itself, as the error of the Rust result does.\<close>

definition into_cow_bytes :: "sliced_cow_bytes \<Rightarrow> cow_bytes + sliced_cow_bytes" where
  "into_cow_bytes s = (case scb_data s of
     Cow b \<Rightarrow> (if scb_pos s = 0 then Inl b else Inr s)
   | Raw _ \<Rightarrow> Inr s)"

subsection \<open>Well-formed slices\<close>

definition sliced_wf :: "sliced_cow_bytes \<Rightarrow> bool" where
  "sliced_wf s \<longleftrightarrow> scb_pos s + scb_len s \<le> length (source_bytes (scb_data s))
     \<and> scb_pos s + scb_len s < 2 ^ 32"

definition sliced_bytes :: "sliced_cow_bytes \<Rightarrow> bytes" where
  "sliced_bytes s = take (scb_len s) (drop (scb_pos s) (source_bytes (scb_data s)))"

lemma sliced_deref_wf: "sliced_wf s \<Longrightarrow> sliced_deref s = Some (sliced_bytes s)"
  by (simp add: sliced_wf_def sliced_deref_def sliced_bytes_def cut_def)

lemma length_sliced_bytes: "sliced_wf s \<Longrightarrow> length (sliced_bytes s) = scb_len s"
  by (auto simp: sliced_wf_def sliced_bytes_def)

lemma sliced_of_cow_wf: "length b < 2 ^ 32 \<Longrightarrow> sliced_wf (sliced_of_cow b)"
  by (simp add: sliced_wf_def sliced_of_cow_def)

lemma sliced_of_cow_bytes: "length b < 2 ^ 32 \<Longrightarrow> sliced_bytes (sliced_of_cow b) = b"
  by (simp add: sliced_bytes_def sliced_of_cow_def)

lemma subslice_wf:
  assumes "sliced_wf s" "pos + len \<le> scb_len s"
  obtains s' where "subslice s pos len = Some s'" "sliced_wf s'"
    "sliced_bytes s' = take len (drop pos (sliced_bytes s))"
proof
  show "subslice s pos len = Some (s\<lparr>scb_pos := scb_pos s + pos, scb_len := len\<rparr>)"
    using assms by (auto simp: subslice_def sliced_wf_def add_u32_def)
  show "sliced_wf (s\<lparr>scb_pos := scb_pos s + pos, scb_len := len\<rparr>)"
    using assms by (auto simp: sliced_wf_def)
  have "take len (drop pos (take (scb_len s) xs)) = take len (drop pos xs)" for xs :: bytes
    using assms by (simp add: drop_take min_def)
  then show "sliced_bytes (s\<lparr>scb_pos := scb_pos s + pos, scb_len := len\<rparr>)
      = take len (drop pos (sliced_bytes s))"
    by (simp add: sliced_bytes_def add.commute)
qed

lemma slice_from_wf:
  assumes "sliced_wf s" "pos \<le> scb_len s"
  obtains s' where "slice_from s pos = Some s'" "sliced_wf s'"
    "sliced_bytes s' = drop pos (sliced_bytes s)"
proof
  show "slice_from s pos = Some (s\<lparr>scb_pos := scb_pos s + pos, scb_len := scb_len s - pos\<rparr>)"
    using assms by (auto simp: slice_from_def sliced_wf_def add_u32_def)
  show "sliced_wf (s\<lparr>scb_pos := scb_pos s + pos, scb_len := scb_len s - pos\<rparr>)"
    using assms by (auto simp: sliced_wf_def)
  show "sliced_bytes (s\<lparr>scb_pos := scb_pos s + pos, scb_len := scb_len s - pos\<rparr>)
      = drop pos (sliced_bytes s)"
    by (simp add: sliced_bytes_def drop_take add.commute)
qed

lemma slice_from_too_far: "scb_len s < pos \<Longrightarrow> slice_from s pos = None"
  by (simp add: slice_from_def)

lemma into_cow_bytes_whole:
  "scb_len s = length (source_bytes (scb_data s)) \<Longrightarrow> into_cow_bytes s = Inl b
   \<Longrightarrow> b = sliced_bytes s"
  by (auto simp: into_cow_bytes_def sliced_bytes_def split: byte_source.splits if_splits)

lemma length_fill_zeros [simp]: "length (fill_zeros_up_to b n) = max (length b) n"
  by (simp add: fill_zeros_up_to_def)

lemma nth_fill_zeros:
  "i < max (length b) n \<Longrightarrow> fill_zeros_up_to b n ! i = (if i < length b then b ! i else 0)"
  by (auto simp: fill_zeros_up_to_def nth_append)

text \<open>A slice of a slice is what slicing the bytes gives: for a well-formed
  \<^verbatim>\<open>SlicedCowBytes\<close> and a range inside it, \<^verbatim>\<open>subslice(pos, len)\<close> does not panic, keeps
  the slice well-formed, and dereferences to \<^verbatim>\<open>self[pos..pos + len]\<close>.\<close>

theorem subslice_deref:
  assumes "sliced_wf s" "pos + len \<le> scb_len s"
  shows "\<exists>s'. subslice s pos len = Some s' \<and> sliced_wf s'
     \<and> sliced_deref s' = Some (take len (drop pos (sliced_bytes s)))"
  using subslice_wf [OF assms] sliced_deref_wf by metis

theorem subslice_deref_witness:
  "\<exists>s'. subslice (sliced_of_cow [1, 2, 3, 4]) 1 2 = Some s' \<and> sliced_wf s'
     \<and> sliced_deref s' = Some [2, 3]"
  using subslice_deref [of "sliced_of_cow [1, 2, 3, 4]" 1 2]
  by (simp add: sliced_of_cow_def sliced_wf_def sliced_bytes_def)

text \<open>\<^verbatim>\<open>into_cow_bytes\<close> ignores the length of the slice: applied to a proper prefix of
  a copy-on-write buffer it returns the whole buffer, not the bytes the slice
  dereferences to.\<close>

theorem into_cow_bytes_prefix:
  assumes "n < length b" "length b < 2 ^ 32"
  shows "\<exists>s. cow_slice b 0 n = Some s \<and> sliced_deref s = Some (take n b)
     \<and> into_cow_bytes s = Inl b \<and> take n b \<noteq> b"
proof -
  have "cow_slice b 0 n = Some \<lparr>scb_data = Cow b, scb_pos = 0, scb_len = n\<rparr>"
    using assms by (simp add: cow_slice_def subslice_def sliced_of_cow_def add_u32_def)
  moreover have "sliced_deref \<lparr>scb_data = Cow b, scb_pos = 0, scb_len = n\<rparr> = Some (take n b)"
    using assms by (simp add: sliced_deref_def cut_def)
  moreover have "length (take n b) \<noteq> length b" using assms by simp
  ultimately show ?thesis by (auto simp: into_cow_bytes_def)
qed

theorem into_cow_bytes_prefix_witness:
  "\<exists>s. cow_slice [1, 2, 3] 0 2 = Some s \<and> sliced_deref s = Some (take 2 [1, 2, 3])
     \<and> into_cow_bytes s = Inl [1, 2, 3] \<and> take 2 [1, 2, 3] \<noteq> ([1, 2, 3] :: bytes)"
  using into_cow_bytes_prefix [of 2 "[1, 2, 3]"] by simp

end
