(* ===== verification/DefaultMessageAction.thy ===== *)
theory DefaultMessageAction
  imports CowBytes
begin

text \<open>
  \<^verbatim>\<open>betree/src/tree/message_action.rs\<close> and \<^verbatim>\<open>betree/src/tree/default_message_action.rs\<close>:
  what a message does to the value of a key, and how two messages for one key are merged.
  The contract of the trait is a locale; the default action (delete, insert, byte and bit
  upserts) is modelled on \<^verbatim>\<open>SlicedCowBytes\<close> as the code has it, shown to refine a version on
  plain byte strings, and the latter interprets the locale. \<open>None\<close> is a panic.
\<close>

subsection \<open>The contract of a message action\<close>

record msg_action =
  ma_apply :: "bytes \<Rightarrow> bytes \<Rightarrow> bytes option \<Rightarrow> bytes option option"
  ma_merge :: "bytes \<Rightarrow> bytes \<Rightarrow> bytes \<Rightarrow> bytes option"

primrec apply_all ::
  "msg_action \<Rightarrow> bytes \<Rightarrow> bytes list \<Rightarrow> bytes option \<Rightarrow> bytes option option" where
  "apply_all ma k [] d = Some d"
| "apply_all ma k (m # ms) d = ma_apply ma k m d \<bind> apply_all ma k ms"

text \<open>
  \<open>valid\<close> says which messages the action understands. Merging an upper (newer) message
  with a lower one must act like the lower followed by the upper.
\<close>

locale message_action =
  fixes ma :: msg_action and valid :: "bytes \<Rightarrow> bytes \<Rightarrow> bool"
  assumes apply_total: "valid k m \<Longrightarrow> \<exists>d'. ma_apply ma k m d = Some d'"
    and merge_acts: "valid k u \<Longrightarrow> valid k l \<Longrightarrow>
      \<exists>m. ma_merge ma k u l = Some m \<and> valid k m
        \<and> (\<forall>d. ma_apply ma k m d = ma_apply ma k l d \<bind> ma_apply ma k u)"
begin

lemma merge_valid: "valid k u \<Longrightarrow> valid k l \<Longrightarrow> ma_merge ma k u l = Some m \<Longrightarrow> valid k m"
  using merge_acts by fastforce

lemma merge_apply:
  "valid k u \<Longrightarrow> valid k l \<Longrightarrow> ma_merge ma k u l = Some m
    \<Longrightarrow> ma_apply ma k m d = ma_apply ma k l d \<bind> ma_apply ma k u"
  using merge_acts by fastforce

lemma merge_defined: "valid k u \<Longrightarrow> valid k l \<Longrightarrow> \<exists>m. ma_merge ma k u l = Some m"
  using merge_acts by blast

lemma apply_all_total:
  "\<forall>m \<in> set ms. valid k m \<Longrightarrow> \<exists>d'. apply_all ma k ms d = Some d'"
proof (induction ms arbitrary: d)
  case (Cons m ms)
  then obtain d1 where "ma_apply ma k m d = Some d1" using apply_total by fastforce
  with Cons show ?case by simp
qed simp

text \<open>Merging associates as far as the effect is concerned.\<close>

lemma merge_assoc_effect:
  assumes "valid k a" "valid k b" "valid k c"
    "ma_merge ma k a b = Some ab" "ma_merge ma k ab c = Some m"
    "ma_merge ma k b c = Some bc" "ma_merge ma k a bc = Some m'"
  shows "ma_apply ma k m d = ma_apply ma k m' d"
proof -
  have "ma_apply ma k m d = ma_apply ma k c d \<bind> ma_apply ma k ab"
    using assms merge_apply [of k ab c] merge_valid by blast
  also have "\<dots> = ma_apply ma k c d \<bind> (\<lambda>d. ma_apply ma k b d \<bind> ma_apply ma k a)"
    using assms merge_apply [of k a b] by (metis (no_types, lifting) Option.bind_cong)
  also have "\<dots> = ma_apply ma k bc d \<bind> ma_apply ma k a"
    using assms merge_apply [of k b c] by simp
  also have "\<dots> = ma_apply ma k m' d"
    using assms merge_apply [of k a bc] merge_valid by metis
  finally show ?thesis .
qed

end

lemma apply_all_append:
  "apply_all ma k (ms @ ms') d = apply_all ma k ms d \<bind> apply_all ma k ms'"
  by (induction ms arbitrary: d) (auto simp: Option.bind_assoc intro!: Option.bind_cong)

subsection \<open>Message and upsert types\<close>

datatype msg_type = OverwriteNone | OverwriteSome | UpsertMsg

definition msg_type_from :: "byte \<Rightarrow> msg_type option" where
  "msg_type_from d = (if d = 0 then Some OverwriteNone else if d = 1 then Some OverwriteSome
     else if d = 2 then Some UpsertMsg else None)"

definition first_type :: "bytes \<Rightarrow> msg_type option" where
  "first_type b = nth_opt b 0 \<bind> msg_type_from"

datatype upsert_type = BytesU | BitsFalse | BitsTrue

definition upsert_type_from :: "nat \<Rightarrow> upsert_type option" where
  "upsert_type_from d = (if d = 0 then Some BytesU else if d = 2 then Some BitsFalse
     else if d = 3 then Some BitsTrue else None)"

datatype upsert =
    UBytes (offset_bytes: nat) (udata: bytes)
  | UBits (offset_bits: nat) (amount_bits: nat) (uvalue: bool)

fun estimate_size :: "upsert \<Rightarrow> nat" where
  "estimate_size (UBytes off d) = 4 + 4 + length d"
| "estimate_size (UBits off n v) = 4 + 4"

definition as_overwrite :: "sliced_cow_bytes \<Rightarrow> sliced_cow_bytes option option option" where
  "as_overwrite b = (if scb_len b = 0 then Some None else do {
     bs \<leftarrow> sliced_deref b;
     t \<leftarrow> first_type bs;
     case t of
       OverwriteNone \<Rightarrow> Some (Some None)
     | OverwriteSome \<Rightarrow> do { d \<leftarrow> slice_from b 1; Some (Some (Some d)) }
     | UpsertMsg \<Rightarrow> Some None })"

text \<open>
  The iterator closure of \<^verbatim>\<open>iter_upserts\<close>: one upsert and the bytes after it, or the end.
  The high bits of the mode word are \<open>0\<close> for bytes; the reserved mode \<open>1\<close> is unreachable code.
\<close>

definition next_upsert :: "bytes \<Rightarrow> (upsert \<times> bytes) option option" where
  "next_upsert b =
     (if length b < 8 then Some None
      else let mode = from_le (take 4 b); len = from_le (take 4 (drop 4 b)); rest = drop 8 b;
               offset = mode mod 2 ^ 30
        in do {
          t \<leftarrow> upsert_type_from (mode div 2 ^ 30);
          case t of
            BytesU \<Rightarrow> Some (if len > length rest then None
                             else Some (UBytes offset (take len rest), drop len rest))
          | BitsFalse \<Rightarrow> Some (Some (UBits offset len False, rest))
          | BitsTrue \<Rightarrow> Some (Some (UBits offset len True, rest)) })"

lemma next_upsert_shrinks:
  "next_upsert b = Some (Some (u, rest)) \<Longrightarrow> length rest < length b"
  by (cases "upsert_type_from (from_le (take 4 b) div 2 ^ 30)")
    (auto simp: next_upsert_def Let_def split: if_splits upsert_type.splits)

function parse_upserts :: "bytes \<Rightarrow> upsert list option" where
  "parse_upserts b = (case next_upsert b of
     None \<Rightarrow> None
   | Some None \<Rightarrow> Some []
   | Some (Some (u, rest)) \<Rightarrow> map_option ((#) u) (parse_upserts rest))"
  by pat_completeness auto
termination
  by (relation "measure length") (auto dest: next_upsert_shrinks)

declare parse_upserts.simps [simp del]

definition iter_upserts :: "bytes \<Rightarrow> upsert list option option" where
  "iter_upserts b = (if nth_opt b 0 \<noteq> Some 2 then None else Some (parse_upserts (drop 1 b)))"

fun append_upsert :: "bytes \<Rightarrow> upsert \<Rightarrow> bytes" where
  "append_upsert v (UBytes off d) = v @ to_le 4 off @ to_le 4 (length d) @ d"
| "append_upsert v (UBits off n val) =
     v @ to_le 4 (or (push_bit 30 (if val then 3 else 2)) off) @ to_le 4 n"

subsection \<open>Applying upserts\<close>

definition fill_bits :: "bytes \<Rightarrow> nat \<Rightarrow> nat \<Rightarrow> bool \<Rightarrow> bytes" where
  "fill_bits d lo hi v = fold (\<lambda>i d. d[i div 8 :=
     (if v then set_bit (i mod 8) (d ! (i div 8)) else unset_bit (i mod 8) (d ! (i div 8)))]) [lo..<hi] d"

fun apply_upsert :: "upsert \<Rightarrow> cow_bytes \<Rightarrow> cow_bytes option" where
  "apply_upsert (UBytes off new_data) d =
     (let end_offset = off + length new_data in
      if length d \<le> off then Some (push_slice (fill_zeros_up_to d off) new_data)
      else let d' = fill_zeros_up_to d end_offset
           in Some (take off d' @ new_data @ drop end_offset d'))"
| "apply_upsert (UBits off amount val) d = do {
     end_bit \<leftarrow> add_u32 off amount;
     let end_byte = end_bit div 8 + (if end_bit mod 8 = 0 then 0 else 1);
     let d' = (if end_byte \<ge> length d then fill_zeros_up_to d end_byte else d);
     Some (fill_bits d' off end_bit val) }"

primrec fold_upserts :: "upsert list \<Rightarrow> cow_bytes \<Rightarrow> cow_bytes option" where
  "fold_upserts [] d = Some d"
| "fold_upserts (u # us) d = apply_upsert u d \<bind> fold_upserts us"

definition take_data :: "sliced_cow_bytes option \<Rightarrow> cow_bytes option" where
  "take_data d = (case d of None \<Rightarrow> Some []
     | Some b \<Rightarrow> (case into_cow_bytes b of Inl c \<Rightarrow> Some c | Inr b' \<Rightarrow> sliced_deref b'))"

definition apply_upserts ::
  "upsert list \<Rightarrow> sliced_cow_bytes option \<Rightarrow> sliced_cow_bytes option option" where
  "apply_upserts us msg_data = do {
     d \<leftarrow> take_data msg_data;
     d' \<leftarrow> fold_upserts us d;
     Some (Some (sliced_of_cow d')) }"

subsection \<open>Building messages\<close>

definition build_overwrite_msg :: "bytes option \<Rightarrow> sliced_cow_bytes" where
  "build_overwrite_msg d = sliced_of_cow (case d of None \<Rightarrow> [0] | Some b \<Rightarrow> 1 # b)"

definition build_upsert_msg :: "upsert list \<Rightarrow> sliced_cow_bytes option" where
  "build_upsert_msg us = (let v = foldl append_upsert [2] us in do {
     assert_that (1 + sum_list (map estimate_size us) = length v);
     Some (sliced_of_cow v) })"

definition insert_msg :: "bytes \<Rightarrow> sliced_cow_bytes" where
  "insert_msg d = build_overwrite_msg (Some d)"

definition delete_msg :: sliced_cow_bytes where
  "delete_msg = build_overwrite_msg None"

definition upsert_msg :: "nat \<Rightarrow> bytes \<Rightarrow> sliced_cow_bytes option" where
  "upsert_msg off d = build_upsert_msg [UBytes off d]"

definition upsert_bits_msg :: "nat \<Rightarrow> nat \<Rightarrow> bool \<Rightarrow> sliced_cow_bytes option" where
  "upsert_bits_msg off n v = build_upsert_msg [UBits off n v]"

subsection \<open>Apply and merge\<close>

definition default_apply ::
  "sliced_cow_bytes \<Rightarrow> sliced_cow_bytes option \<Rightarrow> sliced_cow_bytes option option" where
  "default_apply msg d = do {
     bs \<leftarrow> sliced_deref msg;
     t \<leftarrow> first_type bs;
     case t of
       UpsertMsg \<Rightarrow> do { it \<leftarrow> iter_upserts bs; us \<leftarrow> it; apply_upserts us d }
     | _ \<Rightarrow> do { ow \<leftarrow> as_overwrite msg; new_data \<leftarrow> ow; Some new_data } }"

definition default_merge ::
  "sliced_cow_bytes \<Rightarrow> sliced_cow_bytes \<Rightarrow> sliced_cow_bytes option" where
  "default_merge upper lower = do {
     ub \<leftarrow> sliced_deref upper;
     lb \<leftarrow> sliced_deref lower;
     ut \<leftarrow> first_type ub;
     lt \<leftarrow> first_type lb;
     case ut of
       OverwriteNone \<Rightarrow> Some upper
     | OverwriteSome \<Rightarrow> Some upper
     | UpsertMsg \<Rightarrow>
         if length ub \<le> 1 then Some lower
         else do {
           it \<leftarrow> iter_upserts ub;
           case lt of
             UpsertMsg \<Rightarrow> Some (sliced_of_cow (lb @ drop 1 ub))
           | _ \<Rightarrow> do {
               ow \<leftarrow> as_overwrite lower;
               d \<leftarrow> ow;
               us \<leftarrow> it;
               d' \<leftarrow> apply_upserts us d;
               d'' \<leftarrow> (case d' of None \<Rightarrow> Some None | Some s \<Rightarrow> map_option Some (sliced_deref s));
               Some (build_overwrite_msg d'') } } }"

subsection \<open>The same action on byte strings\<close>

definition apply_bytes :: "bytes \<Rightarrow> bytes \<Rightarrow> bytes option \<Rightarrow> bytes option option" where
  "apply_bytes k msg d = do {
     t \<leftarrow> first_type msg;
     case t of
       OverwriteNone \<Rightarrow> Some None
     | OverwriteSome \<Rightarrow> Some (Some (drop 1 msg))
     | UpsertMsg \<Rightarrow> do {
         us \<leftarrow> parse_upserts (drop 1 msg);
         map_option Some (fold_upserts us (case d of None \<Rightarrow> [] | Some b \<Rightarrow> b)) } }"

definition merge_bytes :: "bytes \<Rightarrow> bytes \<Rightarrow> bytes \<Rightarrow> bytes option" where
  "merge_bytes k upper lower = do {
     ut \<leftarrow> first_type upper;
     lt \<leftarrow> first_type lower;
     if ut = UpsertMsg \<and> length upper \<le> 1 then Some lower
     else if ut = UpsertMsg then
       (if lt = UpsertMsg then Some (lower @ drop 1 upper)
        else do {
          d \<leftarrow> apply_bytes k lower None;
          us \<leftarrow> parse_upserts (drop 1 upper);
          d' \<leftarrow> fold_upserts us (case d of None \<Rightarrow> [] | Some b \<Rightarrow> b);
          Some (1 # d') })
     else Some upper }"

definition default_message_action :: msg_action where
  "default_message_action = \<lparr>ma_apply = apply_bytes, ma_merge = merge_bytes\<rparr>"

subsection \<open>Well-formed messages\<close>

fun wf_upsert :: "upsert \<Rightarrow> bool" where
  "wf_upsert (UBytes off d) \<longleftrightarrow> off < 2 ^ 30 \<and> length d < 2 ^ 32"
| "wf_upsert (UBits off n v) \<longleftrightarrow> off < 2 ^ 30 \<and> off + n < 2 ^ 32"

definition encode_upserts :: "upsert list \<Rightarrow> bytes" where
  "encode_upserts us = concat (map (append_upsert []) us)"

definition valid_msg :: "bytes \<Rightarrow> bytes \<Rightarrow> bool" where
  "valid_msg k m \<longleftrightarrow> m = [0] \<or> (\<exists>d. m = 1 # d)
     \<or> (\<exists>us. us \<noteq> [] \<and> list_all wf_upsert us \<and> m = 2 # encode_upserts us)"

lemma append_upsert_append: "append_upsert v u = v @ append_upsert [] u"
  by (cases u) auto

lemma foldl_append_upsert: "foldl append_upsert v us = v @ encode_upserts us"
proof (induction us arbitrary: v)
  case (Cons u us)
  then show ?case by (simp add: encode_upserts_def append_upsert_append [of v u])
qed (simp add: encode_upserts_def)

lemma length_append_upsert: "length (append_upsert v u) = length v + estimate_size u"
  by (cases u) auto

lemma length_encode_upserts: "length (encode_upserts us) = sum_list (map estimate_size us)"
  by (induction us) (auto simp: encode_upserts_def length_append_upsert)

lemma or_high_bits:
  fixes off :: nat
  assumes "off < 2 ^ 30"
  shows "or (push_bit 30 t) off = t * 2 ^ 30 + off"
proof -
  have low: "n < 30" if "bit off n" for n
    using assms that by (metis bit_take_bit_iff take_bit_nat_eq_self)
  have "and (push_bit 30 t) off = 0"
    by (intro bit_eqI) (auto simp: bit_simps dest!: low)
  then have "push_bit 30 t + off = or (push_bit 30 t) off"
    by (rule disjunctive_add_eq_or)
  then show ?thesis by (simp add: push_bit_eq_mult)
qed

lemma high_low_split:
  fixes off :: nat
  assumes "off < c"
  shows "(t * c + off) div c = t" "(t * c + off) mod c = off"
  using assms by auto

lemma next_upsert_append:
  assumes "wf_upsert u"
  shows "next_upsert (append_upsert [] u @ rest) = Some (Some (u, rest))"
proof (cases u)
  case (UBytes off d)
  with assms show ?thesis
    by (simp add: next_upsert_def Let_def from_le_to_le upsert_type_from_def)
next
  case (UBits off n v)
  with assms show ?thesis
    using or_high_bits [of off 3] or_high_bits [of off 2]
      high_low_split [of off "2 ^ 30" 3] high_low_split [of off "2 ^ 30" 2]
    by (cases v) (simp_all add: next_upsert_def Let_def from_le_to_le upsert_type_from_def)
qed

lemma parse_encode_upserts: "list_all wf_upsert us \<Longrightarrow> parse_upserts (encode_upserts us) = Some us"
proof (induction us)
  case Nil
  then show ?case
    by (simp add: encode_upserts_def parse_upserts.simps [of "[]"] next_upsert_def)
next
  case (Cons u us)
  then show ?case
    by (simp add: encode_upserts_def parse_upserts.simps [of "append_upsert [] u @ _"] next_upsert_append)
qed

lemma msg_type_from_simps [simp]:
  "msg_type_from 0 = Some OverwriteNone" "msg_type_from 1 = Some OverwriteSome"
  "msg_type_from 2 = Some UpsertMsg"
  by (simp_all add: msg_type_from_def)

lemma nth_opt_Cons_0 [simp]: "nth_opt (x # xs) 0 = Some x"
  by (simp add: nth_opt_def)

lemma first_type_Cons [simp]: "first_type (x # xs) = msg_type_from x"
  by (simp add: first_type_def)

lemma first_type_Upsert: "first_type b = Some UpsertMsg \<longleftrightarrow> nth_opt b 0 = Some 2"
  by (auto simp: first_type_def bind_eq_Some_conv msg_type_from_def split: if_splits)

lemma apply_bytes_simps:
  "apply_bytes k (0 # d) x = Some None"
  "apply_bytes k (1 # d) x = Some (Some d)"
  "list_all wf_upsert us \<Longrightarrow> apply_bytes k (2 # encode_upserts us) x =
     map_option Some (fold_upserts us (case x of None \<Rightarrow> [] | Some b \<Rightarrow> b))"
  by (simp_all add: apply_bytes_def parse_encode_upserts)

lemma apply_upsert_total: "wf_upsert u \<Longrightarrow> \<exists>d'. apply_upsert u d = Some d'"
  by (cases u) (auto simp: Let_def add_u32_def)

lemma fold_upserts_total: "list_all wf_upsert us \<Longrightarrow> \<exists>d'. fold_upserts us d = Some d'"
proof (induction us arbitrary: d)
  case (Cons u us)
  then obtain d1 where "apply_upsert u d = Some d1" using apply_upsert_total by fastforce
  with Cons show ?case by simp
qed simp

lemma fold_upserts_append:
  "fold_upserts (us @ us') d = fold_upserts us d \<bind> fold_upserts us'"
  by (induction us arbitrary: d) (auto simp: Option.bind_assoc intro!: Option.bind_cong)

lemma encode_upserts_append: "encode_upserts (us @ us') = encode_upserts us @ encode_upserts us'"
  by (simp add: encode_upserts_def)

lemma encode_upserts_nonempty: "us \<noteq> [] \<Longrightarrow> 0 < length (encode_upserts us)"
  by (cases us) (auto simp: length_encode_upserts, metis estimate_size.elims zero_less_Suc add_Suc add_gr_0 zero_less_numeral)

lemma merge_bytes_overwrite:
  "merge_bytes k (0 # d) l = (first_type l) \<bind> (\<lambda>_. Some (0 # d))"
  "merge_bytes k (1 # d) l = (first_type l) \<bind> (\<lambda>_. Some (1 # d))"
  by (simp_all add: merge_bytes_def)

lemma valid_msg_first: "valid_msg k m \<Longrightarrow> \<exists>t. (first_type m) = Some t"
  by (auto simp: valid_msg_def)

lemma merge_bytes_acts:
  assumes u: "valid_msg k u" and l: "valid_msg k l"
  shows "\<exists>m. merge_bytes k u l = Some m \<and> valid_msg k m
    \<and> (\<forall>d. apply_bytes k m d = apply_bytes k l d \<bind> apply_bytes k u)"
proof -
  have total: "\<exists>d'. apply_bytes k l d = Some d'" for d
    using l fold_upserts_total by (fastforce simp: valid_msg_def apply_bytes_simps)
  consider (ow) "u = [0] \<or> (\<exists>d. u = 1 # d)"
    | (up) us where "us \<noteq> []" "list_all wf_upsert us" "u = 2 # encode_upserts us"
    using u by (auto simp: valid_msg_def)
  then show ?thesis
  proof cases
    case ow
    have "apply_bytes k u d = apply_bytes k l d \<bind> apply_bytes k u" for d
      using ow total [of d] by (auto simp: apply_bytes_simps)
    with ow u valid_msg_first [OF l] show ?thesis by (auto simp: merge_bytes_overwrite)
  next
    case up
    consider (low_ow) d where "\<And>x. apply_bytes k l x = Some d" "first_type l \<noteq> Some UpsertMsg"
      | (low_up) us' where "us' \<noteq> []" "list_all wf_upsert us'" "l = 2 # encode_upserts us'"
      using l by (auto simp: valid_msg_def apply_bytes_simps)
    then show ?thesis
    proof cases
      case low_ow
      obtain d' where d': "fold_upserts us (case d of None \<Rightarrow> [] | Some b \<Rightarrow> b) = Some d'"
        using fold_upserts_total [OF up(2)] by blast
      have "merge_bytes k u l = Some (1 # d')"
        using up low_ow d' valid_msg_first [OF l] encode_upserts_nonempty [OF up(1)]
        by (auto simp: merge_bytes_def parse_encode_upserts bind_eq_Some_conv)
      with up low_ow d' show ?thesis by (auto simp: apply_bytes_simps valid_msg_def)
    next
      case low_up
      have "merge_bytes k u l = Some (2 # encode_upserts (us' @ us))"
        using up low_up encode_upserts_nonempty [OF up(1)]
        by (auto simp: merge_bytes_def encode_upserts_append)
      moreover have "apply_bytes k (2 # encode_upserts (us' @ us)) d = apply_bytes k l d \<bind> apply_bytes k u" for d
        using up low_up by (auto simp: apply_bytes_simps fold_upserts_append map_option_bind bind_map_option comp_def)
      moreover have "valid_msg k (2 # encode_upserts (us' @ us))"
        using up low_up by (auto simp: valid_msg_def intro!: exI [of _ "us' @ us"])
      ultimately show ?thesis by blast
    qed
  qed
qed

interpretation dma: message_action default_message_action valid_msg
proof
  fix k m d u l
  show "\<exists>d'. ma_apply default_message_action k m d = Some d'" if "valid_msg k m"
    using that fold_upserts_total
    by (fastforce simp: default_message_action_def valid_msg_def apply_bytes_simps)
  show "\<exists>m. ma_merge default_message_action k u l = Some m \<and> valid_msg k m
      \<and> (\<forall>d. ma_apply default_message_action k m d =
        ma_apply default_message_action k l d \<bind> ma_apply default_message_action k u)"
    if "valid_msg k u" "valid_msg k l"
    using merge_bytes_acts [OF that] by (simp add: default_message_action_def)
qed

subsection \<open>What an upsert writes\<close>

lemma length_fill_bits [simp]: "length (fill_bits d lo hi v) = length d"
proof -
  have "length (fold (\<lambda>i d. d[i div 8 := f i d]) is d) = length d" for "is" and f :: "nat \<Rightarrow> bytes \<Rightarrow> byte"
    by (induction "is" arbitrary: d) auto
  then show ?thesis by (simp add: fill_bits_def)
qed

lemma fill_bits_extend:
  "lo \<le> hi \<Longrightarrow> fill_bits d lo (Suc hi) v = (fill_bits d lo hi v)[hi div 8 :=
     (if v then set_bit (hi mod 8) (fill_bits d lo hi v ! (hi div 8))
      else unset_bit (hi mod 8) (fill_bits d lo hi v ! (hi div 8)))]"
  by (simp add: fill_bits_def)

lemma bit_fill_bits:
  assumes "j < length d" "k < 8"
  shows "bit (fill_bits d lo hi v ! j) k \<longleftrightarrow> (if lo \<le> 8 * j + k \<and> 8 * j + k < hi then v else bit (d ! j) k)"
proof (induction hi)
  case 0
  then show ?case by (simp add: fill_bits_def)
next
  case (Suc hi)
  show ?case
  proof (cases "lo \<le> hi")
    case True
    have split: "hi = 8 * j + k \<longleftrightarrow> hi div 8 = j \<and> hi mod 8 = k" using assms(2) by auto
    have "bit (fill_bits d lo (Suc hi) v ! j) k = (if hi = 8 * j + k then v else bit (fill_bits d lo hi v ! j) k)"
    proof (cases "hi div 8 = j")
      case True
      then show ?thesis
        using assms \<open>lo \<le> hi\<close> split by (cases v) (auto simp: fill_bits_extend bit_simps)
    next
      case False
      then show ?thesis using \<open>lo \<le> hi\<close> split by (simp add: fill_bits_extend)
    qed
    with Suc True show ?thesis by (auto simp: less_Suc_eq)
  next
    case False
    then show ?thesis by (auto simp: fill_bits_def)
  qed
qed

subsection \<open>The code refines the action on byte strings\<close>

text \<open>
  \<open>owned\<close> excludes the slices that \<^verbatim>\<open>into_cow_bytes\<close> gets wrong: if it hands out the
  underlying buffer, the slice is all of it.
\<close>

definition owned :: "sliced_cow_bytes option \<Rightarrow> bool" where
  "owned d \<longleftrightarrow> (case d of None \<Rightarrow> True
     | Some s \<Rightarrow> sliced_wf s \<and> (case into_cow_bytes s of Inl c \<Rightarrow> c = sliced_bytes s | Inr _ \<Rightarrow> True))"

lemma into_cow_bytes_Inr: "into_cow_bytes s = Inr s' \<Longrightarrow> s' = s"
  by (auto simp: into_cow_bytes_def split: byte_source.splits if_splits)

lemma take_data_owned:
  "owned d \<Longrightarrow> take_data d = Some (case map_option sliced_bytes d of None \<Rightarrow> [] | Some b \<Rightarrow> b)"
  by (auto simp: owned_def take_data_def sliced_deref_wf dest!: into_cow_bytes_Inr split: option.splits sum.splits)

lemma owned_sliced_of_cow: "length b < 2 ^ 32 \<Longrightarrow> owned (Some (sliced_of_cow b))"
  using sliced_of_cow_wf [of b] sliced_of_cow_bytes [of b]
  by (simp add: owned_def) (simp add: into_cow_bytes_def sliced_of_cow_def)

lemma slice_from_1_owned:
  assumes "sliced_wf s" "0 < scb_len s"
  obtains s' where "slice_from s 1 = Some s'" "owned (Some s')" "sliced_bytes s' = drop 1 (sliced_bytes s)"
proof -
  obtain s' where s': "slice_from s 1 = Some s'" "sliced_wf s'" "sliced_bytes s' = drop 1 (sliced_bytes s)"
    using slice_from_wf [OF assms(1), of 1] assms(2) by (metis One_nat_def Suc_leI)
  have "scb_pos s' = scb_pos s + 1"
    using s'(1) by (auto simp: slice_from_def add_u32_Some bind_eq_Some_conv split: if_splits)
  with s' that show thesis
    by (auto simp: owned_def into_cow_bytes_def split: byte_source.splits)
qed

lemma nth_opt_sliced: "sliced_wf s \<Longrightarrow> nth_opt (sliced_bytes s) 0 = Some b \<Longrightarrow> 0 < scb_len s"
  by (metis gr0I length_sliced_bytes less_nat_zero_code nth_opt_Some)

lemma apply_upserts_refines:
  assumes "owned d" "fold_upserts us (case map_option sliced_bytes d of None \<Rightarrow> [] | Some b \<Rightarrow> b) = Some r"
    "length r < 2 ^ 32"
  shows "apply_upserts us d = Some (Some (sliced_of_cow r))"
  using assms by (simp add: apply_upserts_def take_data_owned)

lemma as_overwrite_refines:
  assumes "sliced_wf m" "first_type (sliced_bytes m) = Some t" "t \<noteq> UpsertMsg"
  shows "\<exists>d. as_overwrite m = Some (Some d) \<and> owned d
    \<and> apply_bytes k (sliced_bytes m) x = Some (map_option sliced_bytes d)"
proof -
  note b = assms(2)
  then have len: "0 < scb_len m"
    using nth_opt_sliced [OF assms(1)] by (auto simp: first_type_def bind_eq_Some_conv)
  obtain s' where s': "slice_from m 1 = Some s'" "owned (Some s')" "sliced_bytes s' = drop 1 (sliced_bytes m)"
    using slice_from_1_owned [OF assms(1) len] by blast
  show ?thesis
  proof (cases t)
    case OverwriteNone
    with b len show ?thesis
      by (simp add: as_overwrite_def sliced_deref_wf assms(1) apply_bytes_def owned_def)
  next
    case OverwriteSome
    with b len s' show ?thesis
      by (simp add: as_overwrite_def sliced_deref_wf assms(1) apply_bytes_def)
  qed (use assms(3) in simp)
qed

text \<open>
  Applying a message to a value, as the code does on slices, is the action on byte
  strings: for a well-formed message and an owned value, whenever the byte-level action
  gives a result shorter than 4 GiB the code gives an owned value with these bytes.
\<close>

theorem default_apply_refines:
  assumes "sliced_wf msg" "owned d"
    "apply_bytes k (sliced_bytes msg) (map_option sliced_bytes d) = Some r"
    "case r of None \<Rightarrow> True | Some b \<Rightarrow> length b < 2 ^ 32"
  shows "\<exists>r'. default_apply msg d = Some r' \<and> owned r' \<and> map_option sliced_bytes r' = r"
proof -
  obtain t where t: "first_type (sliced_bytes msg) = Some t"
    using assms(3) by (auto simp: apply_bytes_def bind_eq_Some_conv)
  show ?thesis
  proof (cases "t = UpsertMsg")
    case True
    with t have two: "nth_opt (sliced_bytes msg) 0 = Some 2" "first_type (sliced_bytes msg) = Some UpsertMsg"
      by (simp_all add: first_type_Upsert)
    with assms(3) obtain us b where us: "parse_upserts (drop 1 (sliced_bytes msg)) = Some us"
      "fold_upserts us (case map_option sliced_bytes d of None \<Rightarrow> [] | Some b \<Rightarrow> b) = Some b" "r = Some b"
      by (auto simp: apply_bytes_def bind_eq_Some_conv)
    with assms(2,4) have "apply_upserts us d = Some (Some (sliced_of_cow b))"
      by (intro apply_upserts_refines) auto
    with us two assms(1,4) show ?thesis
      by (simp add: default_apply_def sliced_deref_wf iter_upserts_def owned_sliced_of_cow sliced_of_cow_bytes)
  next
    case False
    obtain d' where "as_overwrite msg = Some (Some d')" "owned d'"
      "apply_bytes k (sliced_bytes msg) (map_option sliced_bytes d) = Some (map_option sliced_bytes d')"
      using as_overwrite_refines [OF assms(1) t False] by blast
    with False t assms(1,3) show ?thesis
      by (cases t) (auto simp: default_apply_def sliced_deref_wf bind_eq_Some_conv)
  qed
qed

text \<open>
  Merging two messages, as the code does on slices, is the merge on byte strings
  whenever that gives a message shorter than 4 GiB.
\<close>

theorem default_merge_refines:
  assumes "sliced_wf u" "sliced_wf l"
    "merge_bytes k (sliced_bytes u) (sliced_bytes l) = Some m" "length m < 2 ^ 32"
  shows "\<exists>m'. default_merge u l = Some m' \<and> sliced_wf m' \<and> sliced_bytes m' = m"
proof -
  obtain ut lt where t: "first_type (sliced_bytes u) = Some ut"
      "first_type (sliced_bytes l) = Some lt"
    using assms(3) by (auto simp: merge_bytes_def bind_eq_Some_conv)
  note deref = sliced_deref_wf [OF assms(1)] sliced_deref_wf [OF assms(2)]
  consider (ow) "ut \<noteq> UpsertMsg" | (none) "ut = UpsertMsg" "length (sliced_bytes u) \<le> 1"
    | (up) "ut = UpsertMsg" "\<not> length (sliced_bytes u) \<le> 1" by blast
  then show ?thesis
  proof cases
    case ow
    with assms t show ?thesis
      by (cases ut) (auto simp: default_merge_def merge_bytes_def deref)
  next
    case none
    with assms t show ?thesis by (simp add: default_merge_def merge_bytes_def deref)
  next
    case up
    with t(1) have it: "iter_upserts (sliced_bytes u) = Some (parse_upserts (drop 1 (sliced_bytes u)))"
      by (simp add: iter_upserts_def first_type_Upsert)
    show ?thesis
    proof (cases "lt = UpsertMsg")
      case True
      with up t it assms show ?thesis
        by (simp add: default_merge_def merge_bytes_def deref sliced_of_cow_bytes sliced_of_cow_wf)
    next
      case False
      obtain d where d: "as_overwrite l = Some (Some d)" "owned d"
        "apply_bytes k (sliced_bytes l) None = Some (map_option sliced_bytes d)"
        using as_overwrite_refines [OF assms(2) t(2) False] by blast
      then obtain us b where us: "parse_upserts (drop 1 (sliced_bytes u)) = Some us" "m = 1 # b"
        "fold_upserts us (case map_option sliced_bytes d of None \<Rightarrow> [] | Some b \<Rightarrow> b) = Some b"
        using assms(3) up t False by (auto simp: merge_bytes_def bind_eq_Some_conv)
      have b: "length b < 2 ^ 32" using us(2) assms(4) by simp
      have "default_merge u l = Some (build_overwrite_msg (Some b))"
        using up t it False us d apply_upserts_refines [OF d(2) us(3) b] b
        by (cases lt) (simp_all add: default_merge_def deref sliced_deref_wf sliced_of_cow_wf sliced_of_cow_bytes)
      with us(2) assms(4) show ?thesis
        by (simp add: build_overwrite_msg_def sliced_of_cow_wf sliced_of_cow_bytes)
    qed
  qed
qed

theorem default_apply_refines_witness:
  "\<exists>r'. default_apply (insert_msg [7, 8]) (Some (insert_msg [9])) = Some r' \<and> owned r'
     \<and> map_option sliced_bytes r' = Some [7, 8]"
  using default_apply_refines [of "insert_msg [7, 8]" "Some (insert_msg [9])" "[]" "Some [7, 8]"]
  by (simp add: insert_msg_def build_overwrite_msg_def sliced_of_cow_wf sliced_of_cow_bytes
      owned_sliced_of_cow apply_bytes_simps)

theorem default_merge_refines_witness:
  "\<exists>m'. default_merge delete_msg (insert_msg [9]) = Some m' \<and> sliced_wf m' \<and> sliced_bytes m' = [0]"
  using default_merge_refines [of delete_msg "insert_msg [9]" "[]" "[0]"]
  by (simp add: insert_msg_def delete_msg_def build_overwrite_msg_def sliced_of_cow_wf sliced_of_cow_bytes
      merge_bytes_overwrite)

text \<open>
  C14. Merging is compatible with applying: for messages built by the default action,
  applying the merge of an upper and a lower message to any value is applying the lower
  and then the upper message, and the merge is again such a message.
\<close>

theorem merge_then_apply:
  assumes "valid_msg k u" "valid_msg k l"
  shows "\<exists>m. merge_bytes k u l = Some m \<and> valid_msg k m
    \<and> (\<forall>d. apply_bytes k m d = apply_bytes k l d \<bind> apply_bytes k u)"
  using dma.merge_acts [OF assms] by (simp add: default_message_action_def)

theorem merge_then_apply_witness:
  "\<exists>m. merge_bytes [] (2 # encode_upserts [UBytes 1 [5]]) (1 # [8, 8]) = Some m \<and> valid_msg [] m
    \<and> apply_bytes [] m None = Some (Some [8, 5])"
proof -
  have v: "valid_msg [] (2 # encode_upserts [UBytes 1 [5]])" "valid_msg [] (1 # [8, 8])"
    by (auto simp: valid_msg_def intro!: exI [of _ "[UBytes 1 [5]]"])
  have "apply_bytes [] (1 # [8, 8]) None \<bind> apply_bytes [] (2 # encode_upserts [UBytes 1 [5]]) = Some (Some [8, 5])"
    by (simp add: apply_bytes_simps fill_zeros_up_to_def)
  with merge_then_apply [OF v] show ?thesis by auto
qed

text \<open>
  Messages built from upserts decode to these upserts: the bytes the builder writes
  are read back by the upsert iterator, for byte upserts with an offset below \<open>2 ^ 30\<close>
  and bit upserts whose end fits 32 bits.
\<close>

theorem upsert_msg_roundtrip:
  assumes "list_all wf_upsert us" "1 + sum_list (map estimate_size us) < 2 ^ 32"
  shows "\<exists>m bs. build_upsert_msg us = Some m \<and> sliced_deref m = Some bs
    \<and> iter_upserts bs = Some (Some us)"
proof -
  have "length (2 # encode_upserts us) < 2 ^ 32" using assms(2) by (simp add: length_encode_upserts)
  then have "sliced_deref (sliced_of_cow (2 # encode_upserts us)) = Some (2 # encode_upserts us)"
    by (simp only: sliced_deref_wf sliced_of_cow_wf sliced_of_cow_bytes)
  then show ?thesis
    using assms(1)
    by (simp add: build_upsert_msg_def foldl_append_upsert length_encode_upserts iter_upserts_def parse_encode_upserts)
qed

theorem upsert_msg_roundtrip_witness:
  "\<exists>m bs. build_upsert_msg [UBytes 3 [1, 2], UBits 9 4 True] = Some m \<and> sliced_deref m = Some bs
    \<and> iter_upserts bs = Some (Some [UBytes 3 [1, 2], UBits 9 4 True])"
  using upsert_msg_roundtrip [of "[UBytes 3 [1, 2], UBits 9 4 True]"] by simp

text \<open>
  A byte upsert writes exactly its range: the value grows to hold it, with zeros
  before the range where there was no value, and every other byte is kept.
\<close>

theorem byte_upsert_effect:
  "apply_upsert (UBytes off new) d = Some (map (\<lambda>i. if off \<le> i \<and> i < off + length new then new ! (i - off)
     else if i < length d then d ! i else 0) [0..<max (length d) (off + length new)])"
  by (auto simp: Let_def push_slice_def max_def nth_append nth_fill_zeros intro!: nth_equalityI)

text \<open>
  A bit upsert sets exactly the bits of its range: the value grows to hold the last
  bit, every bit of the range gets the new value, every other old bit is kept and every
  other new bit is clear.
\<close>

lemma bit_upsert_effect:
  assumes "off + n < 2 ^ 32"
  shows "\<exists>d'. apply_upsert (UBits off n v) d = Some d' \<and> length d' = max (length d) ((off + n + 7) div 8)
    \<and> (\<forall>j < length d'. \<forall>k < 8. bit (d' ! j) k =
        (if off \<le> 8 * j + k \<and> 8 * j + k < off + n then v else j < length d \<and> bit (d ! j) k))"
proof -
  define e where "e = (off + n + 7) div 8"
  define d' where "d' = (if e \<ge> length d then fill_zeros_up_to d e else d)"
  have "(off + n) div 8 + (if (off + n) mod 8 = 0 then 0 else 1) = e"
    using ceiling_div [of 8 "off + n"] by (simp add: e_def)
  then have "apply_upsert (UBits off n v) d = Some (fill_bits d' off (off + n) v)"
    using assms by (simp add: add_u32_def Let_def d'_def)
  moreover have len: "length d' = max (length d) e" by (auto simp: d'_def)
  moreover have "bit (d' ! j) k = (j < length d \<and> bit (d ! j) k)" if "j < length d'" for j k
    using that by (auto simp: d'_def nth_fill_zeros split: if_splits)
  ultimately show ?thesis by (auto simp: bit_fill_bits e_def [symmetric])
qed

text \<open>
  An upsert with an empty list of upserts is a counterexample to the merge law: applied to
  an absent value it creates an empty one, while merging it into a deletion gives the
  deletion back.
\<close>

lemma empty_upsert_not_mergeable:
  "merge_bytes k [2] [0] = Some [0]" "apply_bytes k [0] None = Some None"
  "apply_bytes k [0] None \<bind> apply_bytes k [2] = Some (Some [])"
  by (simp_all add: merge_bytes_def apply_bytes_def parse_upserts.simps [of "[]"] next_upsert_def)

end
