(* ===== verification/PivotKey.thy ===== *)
theory PivotKey
  imports Prelude
begin

text \<open>
  \<^verbatim>\<open>betree/src/tree/pivot_key.rs\<close>: the name of a node by the pivot of its parent. A local
  pivot key lacks the dataset; \<open>to_global\<close> adds it. Dataset identifiers are 64-bit words.
\<close>

type_synonym dataset_id = "64 word"

datatype pivot_key = LeftOuter bytes dataset_id | Right bytes dataset_id | Root dataset_id

datatype local_pivot_key = LLeftOuter bytes | LRight bytes | LRoot

fun pk_d_id :: "pivot_key \<Rightarrow> dataset_id" where
  "pk_d_id (LeftOuter _ d) = d"
| "pk_d_id (Right _ d) = d"
| "pk_d_id (Root d) = d"

fun pk_bytes :: "pivot_key \<Rightarrow> bytes option" where
  "pk_bytes (LeftOuter p _) = Some p"
| "pk_bytes (Right p _) = Some p"
| "pk_bytes (Root _) = None"

definition pk_is_root :: "pivot_key \<Rightarrow> bool" where
  "pk_is_root k = (pk_bytes k = None)"

fun pk_is_left :: "pivot_key \<Rightarrow> bool" where
  "pk_is_left (LeftOuter _ _) = True"
| "pk_is_left _ = False"

fun pk_is_right :: "pivot_key \<Rightarrow> bool" where
  "pk_is_right (Right _ _) = True"
| "pk_is_right _ = False"

fun to_global :: "local_pivot_key \<Rightarrow> dataset_id \<Rightarrow> pivot_key" where
  "to_global (LLeftOuter p) d = LeftOuter p d"
| "to_global (LRight p) d = Right p d"
| "to_global LRoot d = Root d"

lemma to_global_inj: "to_global k d = to_global k' d' \<longleftrightarrow> k = k' \<and> d = d'"
  by (cases k; cases k') auto

lemma pk_is_root_to_global [simp]: "pk_is_root (to_global k d) \<longleftrightarrow> k = LRoot"
  by (cases k) (auto simp: pk_is_root_def)

lemma pk_d_id_to_global [simp]: "pk_d_id (to_global k d) = d"
  by (cases k) auto

end
