(* ===== verification/RootTreeMsg.thy ===== *)
theory RootTreeMsg
  imports DiskOffset PivotKey
begin

text \<open>
  \<^verbatim>\<open>betree/src/database/root_tree_msg.rs\<close> and the packed identifiers of \<^verbatim>\<open>database/mod.rs\<close>: the keys
  under which the root tree keeps the bitmaps of the segments, the datasets, the snapshots, the
  dead lists and the free space of the disks. All integers are big endian, so the order of the keys
  is the order of the numbers; the range queries of the code rest on that. \<open>None\<close> is a panic, the
  overflow of an increment.
\<close>

type_synonym generation_id = "64 word"

definition DATASET_ID_COUNTER :: byte where "DATASET_ID_COUNTER = 0"
definition SEGMENT :: byte where "SEGMENT = 0"
definition DATASET_NAME_TO_ID :: byte where "DATASET_NAME_TO_ID = 1"
definition DATASET_DATA :: byte where "DATASET_DATA = 2"
definition SNAPSHOT_DS_ID_AND_NAME_TO_ID :: byte where "SNAPSHOT_DS_ID_AND_NAME_TO_ID = 3"
definition SNAPSHOT_DATA :: byte where "SNAPSHOT_DATA = 4"
definition DEADLIST :: byte where "DEADLIST = 5"
definition DISK_SPACE :: byte where "DISK_SPACE = 9"

lemmas prefixes = DATASET_ID_COUNTER_def SEGMENT_def DATASET_NAME_TO_ID_def DATASET_DATA_def
  SNAPSHOT_DS_ID_AND_NAME_TO_ID_def SNAPSHOT_DATA_def DEADLIST_def DISK_SPACE_def

text \<open>\<open>pack\<close> and \<open>unpack\<close> of dataset identifiers and generations, and the checked increment.\<close>

definition id_pack :: "64 word \<Rightarrow> bytes" where
  "id_pack x = to_be 8 (unat x)"

definition id_unpack :: "bytes \<Rightarrow> 64 word option" where
  "id_unpack b = map_option (\<lambda>c. word_of_nat (from_be c)) (cut b 0 8)"

definition id_next :: "64 word \<Rightarrow> 64 word option" where
  "id_next x = (if x = -1 then None else Some (x + 1))"

definition dataset_id_counter :: bytes where
  "dataset_id_counter = [DATASET_ID_COUNTER]"

definition dataset_name_to_id :: "bytes \<Rightarrow> bytes" where
  "dataset_name_to_id name = DATASET_NAME_TO_ID # name"

definition dataset_data_key :: "dataset_id \<Rightarrow> bytes" where
  "dataset_data_key ds = DATASET_DATA # id_pack ds"

definition dataset_data_key_max :: bytes where
  "dataset_data_key_max = [DATASET_DATA + 1]"

definition id_to_key :: "segment_id \<Rightarrow> bytes" where
  "id_to_key s = SEGMENT # to_be 8 (unat s)"

definition snapshot_key :: "dataset_id \<Rightarrow> bytes \<Rightarrow> bytes" where
  "snapshot_key ds name = SNAPSHOT_DS_ID_AND_NAME_TO_ID # id_pack ds @ name"

definition snapshot_data_key :: "dataset_id \<Rightarrow> generation_id \<Rightarrow> bytes" where
  "snapshot_data_key ds ss = SNAPSHOT_DATA # id_pack ds @ id_pack ss"

definition snapshot_data_key_max :: "dataset_id \<Rightarrow> bytes option" where
  "snapshot_data_key_max ds = do { ds' \<leftarrow> id_next ds; Some (SNAPSHOT_DATA # id_pack ds') }"

definition deadlist_min_key :: "dataset_id \<Rightarrow> generation_id \<Rightarrow> bytes" where
  "deadlist_min_key ds ss = DEADLIST # id_pack ds @ id_pack ss"

definition deadlist_max_key :: "dataset_id \<Rightarrow> generation_id \<Rightarrow> bytes option" where
  "deadlist_max_key ds ss = do { ss' \<leftarrow> id_next ss; Some (deadlist_min_key ds ss') }"

definition deadlist_max_key_ds :: "dataset_id \<Rightarrow> bytes option" where
  "deadlist_max_key_ds ds = do { ds' \<leftarrow> id_next ds; Some (DEADLIST # id_pack ds') }"

definition deadlist_key :: "dataset_id \<Rightarrow> generation_id \<Rightarrow> disk_offset \<Rightarrow> bytes" where
  "deadlist_key ds cur_gen offset = DEADLIST # id_pack ds @ id_pack cur_gen @ to_be 8 (unat offset)"

definition deadlist_offset_from_key :: "bytes \<Rightarrow> disk_offset option" where
  "deadlist_offset_from_key key = map_option (\<lambda>c. word_of_nat (from_be c)) (cut key 17 8)"

definition space_accounting_key :: "16 word \<Rightarrow> bytes" where
  "space_accounting_key disk = DISK_SPACE # to_be 2 (unat disk)"

definition space_accounting_read_key :: "bytes \<Rightarrow> 16 word option" where
  "space_accounting_read_key buf = do {
     assert_that (length buf = 3);
     c \<leftarrow> cut buf 1 2;
     Some (word_of_nat (from_be c)) }"

definition space_accounting_min_key :: bytes where "space_accounting_min_key = [DISK_SPACE]"
definition space_accounting_max_key :: bytes where "space_accounting_max_key = [DISK_SPACE + 1]"

subsection \<open>Order of big-endian numbers\<close>

lemma unat_less_256_8: "unat (x :: 64 word) < 256 ^ 8"
  using unsigned_less [of x, where ?'a = nat] by simp

lemma to_be_Suc: "to_be (Suc w) n = to_be w (n div 256) @ [word_of_nat n]"
  by (simp add: to_be_def)

lemma append_less_iff:
  fixes xs ys us vs :: "'a::linorder list"
  assumes "length xs = length ys"
  shows "xs @ us < ys @ vs \<longleftrightarrow> xs < ys \<or> xs = ys \<and> us < vs"
  using assms by (induction xs ys rule: list_induct2) auto

lemma less_div_mod:
  fixes a b c :: nat
  shows "a < b \<longleftrightarrow> a div c < b div c \<or> a div c = b div c \<and> a mod c < b mod c"
proof -
  have "a < b" if "a div c < b div c" using that by (metis div_le_mono linorder_not_le)
  moreover have "b < a" if "b div c < a div c" using that by (metis div_le_mono linorder_not_le)
  moreover have "a < b \<longleftrightarrow> a mod c < b mod c" if "a div c = b div c"
    using div_mult_mod_eq [of a c] div_mult_mod_eq [of b c] that by (metis add_less_cancel_left)
  ultimately show ?thesis by (metis less_asym linorder_neqE_nat)
qed

lemma to_be_less_iff:
  assumes "a < 256 ^ w" "b < 256 ^ w"
  shows "to_be w a < to_be w b \<longleftrightarrow> a < b"
  using assms
proof (induction w arbitrary: a b)
  case 0
  then show ?case by (simp add: to_be_def)
next
  case (Suc w)
  have div: "a div 256 < 256 ^ w" "b div 256 < 256 ^ w" using Suc.prems by (simp_all add: div_less_iff_less_mult mult.commute)
  have eq: "to_be w (a div 256) = to_be w (b div 256) \<longleftrightarrow> a div 256 = b div 256" using from_be_to_be [OF div(1)] from_be_to_be [OF div(2)] by metis
  have last: "(word_of_nat a :: byte) < word_of_nat b \<longleftrightarrow> a mod 256 < b mod 256" by (simp add: word_less_nat_alt unat_byte_of_nat)
  have "a < b \<longleftrightarrow> a div 256 < b div 256 \<or> a div 256 = b div 256 \<and> a mod 256 < b mod 256"
    by (rule less_div_mod)
  then show ?case unfolding to_be_Suc by (simp add: append_less_iff Suc.IH [OF div] eq last)
qed

lemma id_pack_less_iff [simp]: "id_pack x < id_pack y \<longleftrightarrow> x < y"
  by (simp add: id_pack_def to_be_less_iff [OF unat_less_256_8 unat_less_256_8] word_less_nat_alt)

lemma length_id_pack [simp, codec]: "length (id_pack x) = 8"
  by (simp add: id_pack_def)

lemma id_pack_inj [simp]: "id_pack x = id_pack y \<longleftrightarrow> x = y"
  using id_pack_less_iff [of x y] id_pack_less_iff [of y x] by (metis less_irrefl neqE)

lemma append_le_8: "id_pack x \<le> id_pack y @ zs \<longleftrightarrow> x \<le> y" "us @ id_pack x \<le> us @ id_pack y @ zs \<longleftrightarrow> x \<le> y"
proof -
  show *: "id_pack x \<le> id_pack y @ zs \<longleftrightarrow> x \<le> y" for x y zs
    using append_less_iff [of "id_pack y" "id_pack x" zs "[]"] by (simp add: linorder_not_less [symmetric])
  show "us @ id_pack x \<le> us @ id_pack y @ zs \<longleftrightarrow> x \<le> y"
    using append_less_iff [of us us "id_pack y @ zs" "id_pack x"] * [of x y zs] by (simp add: linorder_not_less [symmetric])
qed

lemma from_be_8: "from_be (to_be 8 (unat (x :: 64 word))) = unat x"
  by (rule from_be_to_be [OF unat_less_256_8])

lemma id_pack_roundtrip: "id_unpack (id_pack x @ rest) = Some x"
  by (simp add: id_unpack_def cut_def id_pack_def from_be_8)

lemma id_next_less: "id_next x = Some y \<Longrightarrow> x < z \<longleftrightarrow> y \<le> z"
proof -
  assume "id_next x = Some y"
  then have "x \<noteq> -1" and y: "y = 1 + x" by (auto simp: id_next_def split: if_splits)
  then have "1 + x \<noteq> 0" by (metis add.commute add_eq_0_iff)
  then have "unat y = Suc (unat x)" unfolding y by (rule unatSuc)
  then show ?thesis by (auto simp: word_less_nat_alt word_le_nat_alt)
qed

text \<open>
  C33. The keys of the root tree keep its tables apart and their fields recoverable: the keys of two
  segments, datasets, snapshots, dead-list entries or disks are equal only if the identifiers are,
  the dataset counter is no segment key although they share a prefix, and the identifiers can be
  read back from a key.
\<close>

theorem root_keys_injective:
  "(id_to_key s = id_to_key s' \<longleftrightarrow> s = s') \<and> (dataset_data_key ds = dataset_data_key ds' \<longleftrightarrow> ds = ds')
   \<and> (snapshot_key ds n = snapshot_key ds' n' \<longleftrightarrow> ds = ds' \<and> n = n')
   \<and> (snapshot_data_key ds g = snapshot_data_key ds' g' \<longleftrightarrow> ds = ds' \<and> g = g')
   \<and> (deadlist_key ds g d = deadlist_key ds' g' d' \<longleftrightarrow> ds = ds' \<and> g = g' \<and> d = d')
   \<and> (space_accounting_key x = space_accounting_key x' \<longleftrightarrow> x = x') \<and> dataset_id_counter \<noteq> id_to_key s
   \<and> deadlist_offset_from_key (deadlist_key ds g d) = Some d \<and> space_accounting_read_key (space_accounting_key x) = Some x
   \<and> distinct (map hd [id_to_key s, dataset_name_to_id n, dataset_data_key ds, snapshot_key ds n, snapshot_data_key ds g,
       deadlist_key ds g d, space_accounting_key x])"
proof -
  have be: "to_be 8 (unat a) = to_be 8 (unat b) \<longleftrightarrow> a = b" for a b :: "64 word"
    using id_pack_inj [of a b] by (simp add: id_pack_def)
  have ne: "to_be 8 m \<noteq> []" for m using length_to_be [of 8 m] by fastforce
  have be2: "from_be (to_be 2 (unat (a :: 16 word))) = unat a" for a
    by (rule from_be_to_be) (use unsigned_less [of a, where ?'a = nat] in simp)
  then have inj2: "to_be 2 (unat a) = to_be 2 (unat b) \<longleftrightarrow> a = b" for a b :: "16 word" by (metis word_unat_eq_iff)
  show ?thesis
    by (auto simp: id_to_key_def dataset_data_key_def snapshot_key_def snapshot_data_key_def deadlist_key_def space_accounting_key_def
        dataset_id_counter_def dataset_name_to_id_def deadlist_offset_from_key_def space_accounting_read_key_def cut_def be inj2 be2
        from_be_8 prefixes ne ne [symmetric])
qed

text \<open>
  The range queries find exactly what they mean to: a dead-list key lies between
  \<^verbatim>\<open>min_key\<close> and \<^verbatim>\<open>max_key\<close> of a dataset and generation iff it belongs to them, and a snapshot lies
  below \<^verbatim>\<open>data_key_max\<close> of a dataset and above the dataset's first key iff it is one of the dataset.
\<close>

theorem deadlist_range:
  assumes "deadlist_max_key ds g = Some hi" "snapshot_data_key_max ds = Some shi"
  shows "(deadlist_min_key ds g \<le> deadlist_key ds' g' d \<and> deadlist_key ds' g' d < hi \<longleftrightarrow> ds' = ds \<and> g' = g)
    \<and> (snapshot_data_key ds 0 \<le> snapshot_data_key ds' g' \<and> snapshot_data_key ds' g' < shi \<longleftrightarrow> ds' = ds)"
proof -
  obtain g1 where g1: "id_next g = Some g1" "hi = deadlist_min_key ds g1" using assms(1) by (auto simp: deadlist_max_key_def split: bind_splits)
  obtain ds1 where ds1: "id_next ds = Some ds1" "shi = SNAPSHOT_DATA # id_pack ds1"
    using assms(2) by (auto simp: snapshot_data_key_max_def split: bind_splits)
  note n = id_next_less [OF g1(1)] id_next_less [OF ds1(1)]
  have dl: "deadlist_key ds' g' d < deadlist_min_key a b \<longleftrightarrow> ds' < a \<or> ds' = a \<and> g' < b" for a b
    by (simp add: deadlist_key_def deadlist_min_key_def append_less_iff)
       (metis append_less_iff append_Nil2 id_pack_less_iff length_id_pack not_less_Nil)
  have sn: "snapshot_data_key ds' g' < SNAPSHOT_DATA # id_pack a \<longleftrightarrow> ds' < a" for a
    using append_less_iff [of "id_pack ds'" "id_pack a" "id_pack g'" "[]"] by (simp add: snapshot_data_key_def)
  have s0: "snapshot_data_key ds' g' < snapshot_data_key ds 0 \<longleftrightarrow> ds' < ds"
    by (simp add: snapshot_data_key_def append_less_iff)
  show ?thesis unfolding g1(2) ds1(2) linorder_not_less [symmetric] dl sn s0
    using n(1) [of g'] n(2) [of ds'] by (auto simp: not_less)
qed

theorem deadlist_range_witness:
  "\<exists>hi. deadlist_max_key 3 7 = Some hi \<and> deadlist_key 3 7 99 < hi \<and> \<not> deadlist_key 3 8 0 < hi"
proof -
  obtain hi where hi: "deadlist_max_key 3 7 = Some hi" by (simp add: deadlist_max_key_def id_next_def)
  obtain shi where shi: "snapshot_data_key_max 3 = Some shi" by (simp add: snapshot_data_key_max_def id_next_def)
  have "deadlist_min_key 3 7 \<le> deadlist_key 3 8 0" by (simp add: deadlist_min_key_def deadlist_key_def append_le_8)
  then show ?thesis using hi deadlist_range [OF hi shi, of 3 7 99] deadlist_range [OF hi shi, of 3 8 0] by auto
qed

end
