(* ===== verification/BTreeMap.thy ===== *)
theory BTreeMap
  imports Prelude
begin

text \<open>
  The ordered map of Rust's standard library, \<^verbatim>\<open>std::collections::BTreeMap\<close>, as far as
  the tree nodes use it: a list of entries strictly sorted by key, in iteration order.
  The interface a client relies on (what a lookup returns after an insertion or a removal,
  and that the order is kept) is the locale \<open>ordered_map\<close>; bulk insertion
  (\<^verbatim>\<open>BTreeMap::append\<close>, \<^verbatim>\<open>BTreeMap::from_iter\<close>) is treated once, inside it.
\<close>

type_synonym ('k, 'v) btree_map = "('k \<times> 'v) list"

definition bt_get :: "('k, 'v) btree_map \<Rightarrow> 'k \<Rightarrow> 'v option" where
  "bt_get m k = map_of m k"

definition bt_contains_key :: "('k, 'v) btree_map \<Rightarrow> 'k \<Rightarrow> bool" where
  "bt_contains_key m k = (bt_get m k \<noteq> None)"

fun bt_insert :: "('k::linorder) \<Rightarrow> 'v \<Rightarrow> ('k, 'v) btree_map \<Rightarrow> ('k, 'v) btree_map" where
  "bt_insert k v [] = [(k, v)]"
| "bt_insert k v (e # m) =
     (if fst e < k then e # bt_insert k v m
      else if fst e = k then (k, v) # m
      else (k, v) # e # m)"

definition bt_remove :: "'k \<Rightarrow> ('k, 'v) btree_map \<Rightarrow> ('k, 'v) btree_map" where
  "bt_remove k m = filter (\<lambda>e. fst e \<noteq> k) m"

text \<open>\<open>split_off\<close> keeps the keys below \<open>k\<close> and returns the others.\<close>

definition bt_split_off ::
  "('k::linorder, 'v) btree_map \<Rightarrow> 'k \<Rightarrow> ('k, 'v) btree_map \<times> ('k, 'v) btree_map" where
  "bt_split_off m k = (filter (\<lambda>e. fst e < k) m, filter (\<lambda>e. k \<le> fst e) m)"

definition bt_insert_all ::
  "('k::linorder, 'v) btree_map \<Rightarrow> ('k \<times> 'v) list \<Rightarrow> ('k, 'v) btree_map" where
  "bt_insert_all m es = fold (\<lambda>e. bt_insert (fst e) (snd e)) es m"

text \<open>\<open>append\<close> moves every entry of the second map into the first; its values win.\<close>

definition bt_append ::
  "('k::linorder, 'v) btree_map \<Rightarrow> ('k, 'v) btree_map \<Rightarrow> ('k, 'v) btree_map" where
  "bt_append m m' = bt_insert_all m m'"

definition bt_from_iter :: "('k::linorder \<times> 'v) list \<Rightarrow> ('k, 'v) btree_map" where
  "bt_from_iter es = bt_insert_all [] es"

text \<open>The keys in \<^verbatim>\<open>start..end\<close>, the end excluded and absent for an unbounded range.\<close>

definition in_range :: "'k::linorder \<Rightarrow> 'k option \<Rightarrow> 'k \<Rightarrow> bool" where
  "in_range start end k \<longleftrightarrow> start \<le> k \<and> (case end of None \<Rightarrow> True | Some e \<Rightarrow> k < e)"

definition bt_range ::
  "('k::linorder, 'v) btree_map \<Rightarrow> 'k \<Rightarrow> 'k option \<Rightarrow> ('k, 'v) btree_map" where
  "bt_range m start end = filter (\<lambda>e. in_range start end (fst e)) m"

text \<open>A sum over the entries, such as the total of their sizes.\<close>

definition entry_sum :: "('k \<Rightarrow> 'v \<Rightarrow> nat) \<Rightarrow> ('k, 'v) btree_map \<Rightarrow> nat" where
  "entry_sum f m = (\<Sum>e\<leftarrow>m. f (fst e) (snd e))"

subsection \<open>The interface\<close>

locale ordered_map =
  fixes wf :: "'m \<Rightarrow> bool"
    and lookup :: "'m \<Rightarrow> 'k \<Rightarrow> 'v option"
    and empty :: 'm
    and ins :: "'k \<Rightarrow> 'v \<Rightarrow> 'm \<Rightarrow> 'm"
    and del :: "'k \<Rightarrow> 'm \<Rightarrow> 'm"
  assumes wf_empty: "wf empty"
    and wf_ins: "wf m \<Longrightarrow> wf (ins k v m)"
    and wf_del: "wf m \<Longrightarrow> wf (del k m)"
    and lookup_empty: "lookup empty = Map.empty"
    and lookup_ins: "wf m \<Longrightarrow> lookup (ins k v m) = (lookup m)(k \<mapsto> v)"
    and lookup_del: "wf m \<Longrightarrow> lookup (del k m) = (lookup m)(k := None)"
begin

lemma wf_ins_all: "wf m \<Longrightarrow> wf (fold (\<lambda>e. ins (fst e) (snd e)) es m)"
  by (induction es arbitrary: m) (auto simp: wf_ins)

lemma lookup_ins_all:
  "wf m \<Longrightarrow> lookup (fold (\<lambda>e. ins (fst e) (snd e)) es m) = lookup m ++ map_of (rev es)"
  by (induction es arbitrary: m) (auto simp: wf_ins lookup_ins fun_eq_iff map_add_def split: option.splits)

lemma ins_then_del:
  "wf m \<Longrightarrow> lookup m k = None \<Longrightarrow> lookup (del k (ins k v m)) = lookup m"
  by (auto simp: wf_ins lookup_del lookup_ins)

end

subsection \<open>Lookup and order of the list representation\<close>

lemma sorted_keys_Cons [simp]:
  "sorted_keys (e # m) \<longleftrightarrow> (\<forall>k \<in> fst ` set m. fst e < k) \<and> sorted_keys m"
  by auto

lemma bt_get_Nil [simp]: "bt_get [] k = None"
  by (simp add: bt_get_def)

lemma bt_get_Cons: "bt_get (e # m) k = (if fst e = k then Some (snd e) else bt_get m k)"
  by (cases e) (simp add: bt_get_def)

lemma bt_get_eq_None: "bt_get m k = None \<longleftrightarrow> k \<notin> fst ` set m"
  by (auto simp: bt_get_def map_of_eq_None_iff)

lemma bt_get_mem: "bt_get m k = Some v \<Longrightarrow> (k, v) \<in> set m"
  by (simp add: bt_get_def map_of_SomeD)

lemma sorted_keys_distinct: "sorted_keys m \<Longrightarrow> distinct (map fst m)"
  by (rule strict_sorted_iff [THEN iffD1, THEN conjunct2])

lemma bt_get_iff_mem: "sorted_keys m \<Longrightarrow> bt_get m k = Some v \<longleftrightarrow> (k, v) \<in> set m"
  by (simp add: bt_get_def sorted_keys_distinct)

lemma keys_bt_insert [simp]: "fst ` set (bt_insert k v m) = insert k (fst ` set m)"
  by (induction m) auto

lemma sorted_bt_insert: "sorted_keys m \<Longrightarrow> sorted_keys (bt_insert k v m)"
  by (induction m) (auto simp flip: image_image)

lemma bt_get_insert: "bt_get (bt_insert k v m) = (bt_get m)(k \<mapsto> v)"
  by (induction m) (auto simp: bt_get_Cons fun_eq_iff)

lemma sorted_keys_filter: "sorted_keys m \<Longrightarrow> sorted_keys (filter P m)"
  by (induction m) auto

lemma bt_get_filter: "bt_get (filter (\<lambda>e. P (fst e)) m) k = (if P k then bt_get m k else None)"
  by (induction m) (auto simp: bt_get_Cons)

lemma sorted_bt_remove: "sorted_keys m \<Longrightarrow> sorted_keys (bt_remove k m)"
  unfolding bt_remove_def by (rule sorted_keys_filter)

lemma bt_get_remove: "bt_get (bt_remove k m) = (bt_get m)(k := None)"
  by (auto simp: bt_remove_def bt_get_filter [where P = "\<lambda>k'. k' \<noteq> k"] fun_eq_iff)

interpretation btm: ordered_map sorted_keys bt_get "[]" bt_insert bt_remove
  by unfold_locales
    (auto simp: sorted_bt_insert sorted_bt_remove bt_get_insert bt_get_remove fun_eq_iff)

subsection \<open>Splitting and joining\<close>

lemma bt_split_off_get:
  "bt_split_off m k = (l, r) \<Longrightarrow> bt_get l j = (if j < k then bt_get m j else None)"
  "bt_split_off m k = (l, r) \<Longrightarrow> bt_get r j = (if k \<le> j then bt_get m j else None)"
  by (auto simp: bt_split_off_def
      bt_get_filter [where P = "\<lambda>i. i < k"] bt_get_filter [where P = "\<lambda>i. k \<le> i"])

lemma sorted_bt_split_off:
  "sorted_keys m \<Longrightarrow> bt_split_off m k = (l, r) \<Longrightarrow> sorted_keys l \<and> sorted_keys r"
  by (auto simp: bt_split_off_def sorted_keys_filter)

lemma bt_split_off_append:
  "sorted_keys m \<Longrightarrow> bt_split_off m k = (l, r) \<Longrightarrow> l @ r = m"
proof (induction m arbitrary: l r)
  case Nil
  then show ?case by (simp add: bt_split_off_def)
next
  case (Cons e m)
  show ?case
  proof (cases "fst e < k")
    case True
    with Cons show ?thesis by (auto simp: bt_split_off_def)
  next
    case False
    with Cons.prems have "\<forall>x \<in> set m. \<not> fst x < k" by force
    then have "filter (\<lambda>e. fst e < k) m = []" "filter (\<lambda>e. k \<le> fst e) m = m"
      by (auto simp: filter_empty_conv not_less intro: filter_True)
    with False Cons.prems show ?thesis by (auto simp: bt_split_off_def)
  qed
qed

lemma bt_insert_append:
  "\<forall>j \<in> fst ` set m. j < k \<Longrightarrow> bt_insert k v m = m @ [(k, v)]"
  by (induction m) auto

lemma bt_insert_all_sorted:
  assumes "sorted_keys m'" "\<forall>j \<in> fst ` set m. \<forall>k \<in> fst ` set m'. j < k"
  shows "bt_insert_all m m' = m @ m'"
  using assms
proof (induction m' arbitrary: m)
  case Nil
  then show ?case by (simp add: bt_insert_all_def)
next
  case (Cons e m')
  have "bt_insert_all m (e # m') = bt_insert_all (m @ [e]) m'"
    using Cons.prems by (cases e) (simp add: bt_insert_all_def bt_insert_append)
  also have "\<dots> = (m @ [e]) @ m'"
    using Cons.prems by (intro Cons.IH) auto
  finally show ?case by simp
qed

lemma bt_append_sorted:
  "sorted_keys m' \<Longrightarrow> \<forall>j \<in> fst ` set m. \<forall>k \<in> fst ` set m'. j < k \<Longrightarrow> bt_append m m' = m @ m'"
  unfolding bt_append_def by (rule bt_insert_all_sorted)

lemma bt_from_iter_sorted: "sorted_keys m \<Longrightarrow> bt_from_iter m = m"
  by (simp add: bt_from_iter_def bt_insert_all_sorted)

lemma sorted_bt_append: "sorted_keys m \<Longrightarrow> sorted_keys (bt_append m m')"
  by (simp add: bt_append_def bt_insert_all_def btm.wf_ins_all)

lemma map_of_rev_sorted: "sorted_keys m \<Longrightarrow> map_of (rev m) = bt_get m"
proof -
  assume "sorted_keys m"
  then have "distinct (map fst m)" by (rule sorted_keys_distinct)
  then have "map_of (rev m) = map_of m"
    using map_of_inject_set [of "rev m" m] by (simp add: rev_map [symmetric])
  then show "map_of (rev m) = bt_get m" by (auto simp: bt_get_def)
qed

lemma bt_get_append:
  "sorted_keys m \<Longrightarrow> sorted_keys m' \<Longrightarrow> bt_get (bt_append m m') = bt_get m ++ bt_get m'"
  by (simp add: bt_append_def bt_insert_all_def btm.lookup_ins_all map_of_rev_sorted)

lemma bt_get_concat: "bt_get (l @ r) k = (case bt_get l k of None \<Rightarrow> bt_get r k | Some v \<Rightarrow> Some v)"
  by (induction l) (auto simp: bt_get_Cons)

lemma entry_sum_simps [simp]:
  "entry_sum f [] = 0"
  "entry_sum f (e # m) = f (fst e) (snd e) + entry_sum f m"
  "entry_sum f (m @ m') = entry_sum f m + entry_sum f m'"
  by (auto simp: entry_sum_def)

lemma entry_sum_insert_fresh:
  "bt_get m k = None \<Longrightarrow> entry_sum f (bt_insert k v m) = f k v + entry_sum f m"
  by (induction m) (auto simp: bt_get_Cons split: if_splits)

lemma entry_sum_insert_present:
  "sorted_keys m \<Longrightarrow> bt_get m k = Some v \<Longrightarrow>
   entry_sum f (bt_insert k v' m) + f k v = f k v' + entry_sum f m"
proof (induction m)
  case (Cons e m)
  have "\<not> k < fst e" if "fst e \<noteq> k"
  proof -
    have "(k, v) \<in> set m" using Cons.prems(2) that by (simp add: bt_get_Cons bt_get_mem)
    then show ?thesis using Cons.prems(1) by fastforce
  qed
  with Cons show ?case by (auto simp: bt_get_Cons split: if_splits)
qed simp

lemma entry_sum_split_off:
  "sorted_keys m \<Longrightarrow> bt_split_off m k = (l, r) \<Longrightarrow> entry_sum f m = entry_sum f l + entry_sum f r"
  by (drule (1) bt_split_off_append) (auto simp flip: entry_sum_simps(3))

lemma entry_sum_member: "(k, v) \<in> set m \<Longrightarrow> f k v \<le> entry_sum f m"
  by (induction m) auto

lemma entry_sum_remove:
  "sorted_keys m \<Longrightarrow> bt_get m k = Some v \<Longrightarrow> entry_sum f (bt_remove k m) + f k v = entry_sum f m"
proof (induction m)
  case (Cons e m)
  have "bt_remove k m = m" if "fst e = k"
    using Cons.prems(1) that by (auto simp: bt_remove_def filter_id_conv)
  with Cons show ?case by (auto simp: bt_remove_def bt_get_Cons split: if_splits)
qed simp

end
