(* ===== verification/StoragePreference.thy ===== *)
theory StoragePreference
  imports Prelude
begin

text \<open>
  \<^verbatim>\<open>betree/src/storage_pool/storage_preference.rs\<close>: allocation preferences. A preference
  is one byte: 0 (fastest) to 3 (slowest), or 254 for "no preference"; an atomic preference
  uses 255 for "unknown". The atomics are modelled by the byte they hold, one operation at
  a time. \<open>from_u8\<close> carries the debug assertion of the code.
\<close>

type_synonym storage_preference = byte
type_synonym atomic_storage_preference = byte
type_synonym atomic_system_storage_preference = byte

definition NONE :: storage_preference where "NONE = 254"
definition FASTEST :: storage_preference where "FASTEST = 0"
definition FAST :: storage_preference where "FAST = 1"
definition SLOW :: storage_preference where "SLOW = 2"
definition SLOWEST :: storage_preference where "SLOWEST = 3"
definition UNKNOWN :: atomic_storage_preference where "UNKNOWN = 255"

definition pref_new :: "byte \<Rightarrow> storage_preference option" where
  "pref_new class = (if class \<le> 3 then Some class else None)"

definition pref_or :: "storage_preference \<Rightarrow> storage_preference \<Rightarrow> storage_preference" where
  "pref_or p q = (if p = NONE then q else p)"

definition choose_faster :: "storage_preference \<Rightarrow> storage_preference \<Rightarrow> storage_preference" where
  "choose_faster a b = min a b"

definition preferred_class :: "storage_preference \<Rightarrow> byte option" where
  "preferred_class p = (if p = NONE then None else Some p)"

definition pref_from_u8 :: "byte \<Rightarrow> storage_preference option" where
  "pref_from_u8 u = (if u = 254 \<or> u \<le> 3 then Some u else None)"

definition pref_upgrade :: "storage_preference \<Rightarrow> storage_preference \<Rightarrow> storage_preference" where
  "pref_upgrade self other = choose_faster self other"

definition pref_lift :: "storage_preference \<Rightarrow> storage_preference option" where
  "pref_lift p = (if p = NONE then None else Some (if p = 0 then 0 else p - 1))"

definition pref_lower :: "storage_preference \<Rightarrow> storage_preference option" where
  "pref_lower p = (if p = NONE then None else if p = SLOWEST then Some SLOWEST
     else Some (if p = 255 then 255 else p + 1))"

subsection \<open>Atomic preferences\<close>

definition atomic_known :: "storage_preference \<Rightarrow> atomic_storage_preference" where
  "atomic_known p = p"

definition atomic_unknown :: atomic_storage_preference where
  "atomic_unknown = UNKNOWN"

definition as_option :: "atomic_storage_preference \<Rightarrow> storage_preference option" where
  "as_option v = (if v = UNKNOWN then None else Some v)"

definition unwrap_or_none :: "atomic_storage_preference \<Rightarrow> storage_preference" where
  "unwrap_or_none v = (case as_option v of None \<Rightarrow> NONE | Some p \<Rightarrow> p)"

definition atomic_set :: "atomic_storage_preference \<Rightarrow> storage_preference \<Rightarrow> atomic_storage_preference" where
  "atomic_set v p = p"

definition atomic_invalidate :: "atomic_storage_preference \<Rightarrow> atomic_storage_preference" where
  "atomic_invalidate v = UNKNOWN"

definition atomic_upgrade ::
  "atomic_storage_preference \<Rightarrow> storage_preference \<Rightarrow> atomic_storage_preference" where
  "atomic_upgrade v other = (if v \<noteq> UNKNOWN then pref_upgrade v other else v)"

definition upgrade_atomic ::
  "atomic_storage_preference \<Rightarrow> atomic_storage_preference \<Rightarrow> atomic_storage_preference" where
  "upgrade_atomic v other =
     (if v \<noteq> UNKNOWN then (if other \<noteq> UNKNOWN then pref_upgrade v other else v) else v)"

subsection \<open>The system preference, an upper bound chosen by the migration policy\<close>

definition system_from :: "storage_preference \<Rightarrow> atomic_system_storage_preference" where
  "system_from p = p"

definition system_to_pref :: "atomic_system_storage_preference \<Rightarrow> storage_preference option" where
  "system_to_pref v = pref_from_u8 v"

definition system_set ::
  "atomic_system_storage_preference \<Rightarrow> storage_preference \<Rightarrow> atomic_system_storage_preference" where
  "system_set v p = p"

definition weak_bound ::
  "atomic_system_storage_preference \<Rightarrow> storage_preference \<Rightarrow> storage_preference option" where
  "weak_bound v p =
     (if v = NONE then Some p
      else if v \<le> 3 then (if p < v then Some p else pref_from_u8 v)
      else None)"

definition strong_bound ::
  "atomic_system_storage_preference \<Rightarrow> storage_preference \<Rightarrow> storage_preference option" where
  "strong_bound v p = system_to_pref v"

subsection \<open>Valid preferences\<close>

definition valid_pref :: "storage_preference \<Rightarrow> bool" where
  "valid_pref p \<longleftrightarrow> p \<le> 3 \<or> p = NONE"

text \<open>The preference a set of entries asks for: the fastest of them.\<close>

definition fastest_of :: "storage_preference list \<Rightarrow> storage_preference" where
  "fastest_of ps = fold (\<lambda>p acc. pref_upgrade acc p) ps NONE"

lemmas pref_consts = NONE_def FASTEST_def FAST_def SLOW_def SLOWEST_def UNKNOWN_def

lemma valid_pref_cases:
  assumes "valid_pref p"
  obtains "p = 0" | "p = 1" | "p = 2" | "p = 3" | "p = 254"
proof -
  have "p = 0 \<or> p = 1 \<or> p = 2 \<or> p = 3" if "p \<le> 3" for p :: byte
  proof -
    have "unat p \<le> 3" using that by (simp add: word_le_nat_alt)
    then have "unat p = unat (0 :: byte) \<or> unat p = unat (1 :: byte)
      \<or> unat p = unat (2 :: byte) \<or> unat p = unat (3 :: byte)" by auto
    then show ?thesis by (simp only: word_unat_eq_iff)
  qed
  with assms that show ?thesis by (auto simp: valid_pref_def NONE_def)
qed

lemma valid_pref_le_NONE: "valid_pref p \<Longrightarrow> p \<le> NONE"
  by (erule valid_pref_cases) (simp_all add: NONE_def)

lemma valid_pref_known: "valid_pref p \<Longrightarrow> p \<noteq> UNKNOWN"
  by (erule valid_pref_cases) (simp_all add: UNKNOWN_def)

lemma valid_NONE [simp]: "valid_pref NONE"
  by (simp add: valid_pref_def)

lemma choose_faster_valid: "valid_pref a \<Longrightarrow> valid_pref b \<Longrightarrow> valid_pref (choose_faster a b)"
  by (simp add: choose_faster_def min_def)

lemma choose_faster_NONE: "valid_pref a \<Longrightarrow> choose_faster a NONE = a \<and> choose_faster NONE a = a"
  by (auto simp: choose_faster_def min_def dest: valid_pref_le_NONE)

lemma pref_from_u8_valid: "pref_from_u8 u = Some p \<longleftrightarrow> p = u \<and> valid_pref u"
  by (auto simp: pref_from_u8_def valid_pref_def NONE_def)

interpretation faster: semilattice choose_faster
  by unfold_locales (simp_all add: choose_faster_def min.assoc min.commute min.left_commute)

lemma fastest_of_fold: "fold (\<lambda>p acc. pref_upgrade acc p) ps a = fold min ps a"
proof -
  have "(\<lambda>p acc. pref_upgrade acc p) = min"
    by (simp add: fun_eq_iff pref_upgrade_def choose_faster_def min.commute)
  then show ?thesis by simp
qed

lemma fold_min_le: "fold min ps (a :: byte) \<le> a"
  by (induction ps arbitrary: a) (auto intro: order_trans [OF _ min.cobounded2])

lemma fastest_of_le: "p \<in> set ps \<Longrightarrow> fastest_of ps \<le> p"
proof -
  have "p \<in> set ps \<Longrightarrow> fold min ps (a :: byte) \<le> p" for a
    by (induction ps arbitrary: a) (auto intro: order_trans [OF fold_min_le])
  then show "p \<in> set ps \<Longrightarrow> fastest_of ps \<le> p" by (simp add: fastest_of_def fastest_of_fold)
qed

lemma fastest_of_valid: "\<forall>p \<in> set ps. valid_pref p \<Longrightarrow> valid_pref (fastest_of ps)"
proof -
  have "\<forall>p \<in> set ps. valid_pref p \<Longrightarrow> valid_pref a \<Longrightarrow> valid_pref (fold min ps a)" for a
    by (induction ps arbitrary: a) (auto simp: min_def)
  then show "\<forall>p \<in> set ps. valid_pref p \<Longrightarrow> valid_pref (fastest_of ps)"
    by (simp add: fastest_of_def fastest_of_fold)
qed

text \<open>For valid values the weak bound of the migration policy is the faster of the
  system preference and the requested one: it never panics, never slows a request down,
  and "no system preference" leaves the request alone.\<close>

theorem weak_bound_choose_faster:
  assumes "valid_pref s" "valid_pref p"
  shows "weak_bound s p = Some (choose_faster s p)"
  using assms(1,2)
  by (elim valid_pref_cases)
    (simp_all add: weak_bound_def choose_faster_def pref_from_u8_def pref_consts)

theorem weak_bound_choose_faster_witness: "weak_bound SLOW NONE = Some SLOW \<and> valid_pref SLOW"
  using weak_bound_choose_faster [of SLOW NONE]
  by (simp add: valid_pref_def choose_faster_def pref_consts)

text \<open>Tracking preferences incrementally: upgrading a known atomic preference by every
  entry's preference in turn gives the fastest of them, it stays known, and an unknown one
  stays unknown until it is recomputed.\<close>

theorem atomic_upgrade_tracks:
  assumes "\<forall>p \<in> set ps. valid_pref p"
  shows "as_option (fold (\<lambda>p v. atomic_upgrade v p) ps (atomic_known NONE)) = Some (fastest_of ps)
     \<and> as_option (fold (\<lambda>p v. atomic_upgrade v p) ps atomic_unknown) = None"
proof -
  have known: "valid_pref v \<Longrightarrow> \<forall>p \<in> set ps. valid_pref p \<Longrightarrow>
      fold (\<lambda>p v. atomic_upgrade v p) ps v = fold (\<lambda>p acc. pref_upgrade acc p) ps v" for v
    by (induction ps arbitrary: v)
      (auto simp: atomic_upgrade_def pref_upgrade_def choose_faster_valid valid_pref_known)
  have "fold (\<lambda>p v. atomic_upgrade v p) ps UNKNOWN = UNKNOWN"
    by (induction ps) (auto simp: atomic_upgrade_def)
  moreover have "fastest_of ps \<noteq> UNKNOWN"
    using fastest_of_valid [OF assms] valid_pref_known by blast
  ultimately show ?thesis
    using assms by (simp add: known atomic_known_def atomic_unknown_def as_option_def fastest_of_def)
qed

theorem atomic_upgrade_tracks_witness:
  "as_option (fold (\<lambda>p v. atomic_upgrade v p) [SLOW, FAST] (atomic_known NONE)) = Some FAST"
  using atomic_upgrade_tracks [of "[SLOW, FAST]"]
  by (simp add: valid_pref_def fastest_of_def pref_upgrade_def choose_faster_def pref_consts)

end
