(* ===== verification/PackedChildBuffer.thy ===== *)
theory PackedChildBuffer
  imports BTreeMap StoragePreference DefaultMessageAction PivotKey
begin

text \<open>
  \<^verbatim>\<open>betree/src/tree/imp/internal/packed_child_buffer.rs\<close>: the buffer of messages for one
  child of an inner node, which is also the leaf of the tree (\<open>is_leaf\<close>). Its map is either a
  \<^verbatim>\<open>BTreeMap\<close> or the serialised bytes of one, searched in place. Keys and values are byte
  strings; a packed map keeps its \<^verbatim>\<open>SlicedCowBytes\<close>.

  The functions behind the checksums are a parameter \<open>lib\<close>. \<^verbatim>\<open>WithCacheSizeChange\<close> is a pair
  of a value and an integer. A result of \<open>None\<close> is a panic; a read past the packed bytes, which
  the code performs through a raw pointer, is \<open>None\<close> too.
\<close>

subsection \<open>Checksums and integrity modes\<close>

text \<open>
  The hash function (of the crate \<^verbatim>\<open>gxhash\<close>) and the encoding of a checksum (of the crate
  \<^verbatim>\<open>bincode\<close>) are parameters. \<open>csum_codec\<close> is what the code relies on: a checksum is encoded in
  the eight bytes of its \<^verbatim>\<open>static_size\<close> and decoded to itself.
\<close>

record csum_lib =
  cl_hash :: "bytes \<Rightarrow> 64 word"
  cl_ser :: "64 word \<Rightarrow> bytes"
  cl_de :: "bytes \<Rightarrow> 64 word"

definition CSUM_SIZE :: nat where "CSUM_SIZE = 8"

definition csum_codec :: "csum_lib \<Rightarrow> bool" where
  "csum_codec lib \<longleftrightarrow> (\<forall>c. length (cl_ser lib c) = CSUM_SIZE \<and> cl_de lib (cl_ser lib c) = c)"

definition csum_verify :: "csum_lib \<Rightarrow> 64 word \<Rightarrow> bytes \<Rightarrow> bool" where
  "csum_verify lib c d \<longleftrightarrow> c = 0 \<or> c = cl_hash lib d"

datatype integrity_mode = External | Internal (im_csum: "64 word") (im_len: nat)

fun im_checksum :: "integrity_mode \<Rightarrow> 64 word option" where
  "im_checksum (Internal c n) = Some c"
| "im_checksum External = None"

fun im_length :: "integrity_mode \<Rightarrow> nat option" where
  "im_length (Internal c n) = Some n"
| "im_length External = None"

subsection \<open>Data\<close>

record key_info =
  ki_pref :: storage_preference

definition key_info_size :: nat where "key_info_size = 1"

definition merge_with_upper :: "key_info \<Rightarrow> key_info \<Rightarrow> key_info" where
  "merge_with_upper self upper = \<lparr>ki_pref = choose_faster (ki_pref self) (ki_pref upper)\<rparr>"

definition HEADER :: nat where "HEADER = 1 + 4 + 4 + 1"
definition KEY_IDX_SIZE :: nat where "KEY_IDX_SIZE = 4 + 1 + 4"
definition PER_KEY_BYTES :: nat where "PER_KEY_BYTES = 16"
type_synonym entry = "bytes \<times> key_info \<times> bytes"
type_synonym entries = "(bytes, key_info \<times> bytes) btree_map"

datatype cb_map = Packed (entry_count: nat) (packed_data: sliced_cow_bytes) | Unpacked (btree: entries)

record packed_child_buffer =
  messages_preference :: atomic_storage_preference
  system_storage_preference :: atomic_system_storage_preference
  entries_size :: nat
  cb_buffer :: cb_map
  is_leaf :: bool

record key_idx =
  kx_pos :: nat
  kx_len :: nat
  kx_pref :: byte

definition key_idx_unpack :: "bytes \<Rightarrow> key_idx" where
  "key_idx_unpack b = \<lparr>kx_pos = from_le (take 4 b), kx_len = from_le (take 4 (drop 4 b)), kx_pref = b ! 8\<rparr>"

subsection \<open>Reading packed maps\<close>

definition read_key_idx :: "bytes \<Rightarrow> nat \<Rightarrow> key_idx option" where
  "read_key_idx bs idx = map_option key_idx_unpack (cut bs (HEADER + KEY_IDX_SIZE * idx) KEY_IDX_SIZE)"

text \<open>The position, length and checksum of a value, stored behind its key.\<close>

definition read_value_pos :: "csum_lib \<Rightarrow> bytes \<Rightarrow> nat \<Rightarrow> (nat \<times> nat \<times> 64 word) option" where
  "read_value_pos lib bs off = do {
     p \<leftarrow> cut bs off 4;
     l \<leftarrow> cut bs (off + 4) 4;
     c \<leftarrow> cut bs (off + 4 + 4) CSUM_SIZE;
     Some (from_le p, from_le l, cl_de lib c) }"

definition read_entry :: "csum_lib \<Rightarrow> bytes \<Rightarrow> nat \<Rightarrow> (entry \<times> int) option" where
  "read_entry lib bs idx = do {
     kidx \<leftarrow> read_key_idx bs idx;
     pref \<leftarrow> pref_from_u8 (kx_pref kidx);
     key \<leftarrow> cut bs (kx_pos kidx) (kx_len kidx);
     (val_pos, val_len, val_csum) \<leftarrow> read_value_pos lib bs (kx_pos kidx + kx_len kidx);
     last \<leftarrow> add_u32 val_pos val_len;
     buf \<leftarrow> cut bs val_pos (last - val_pos);
     assert_that (csum_verify lib val_csum buf);
     Some ((key, \<lparr>ki_pref = pref\<rparr>, buf), int key_info_size + int (kx_len kidx) + int val_len) }"

primrec option_all :: "('a \<Rightarrow> 'b option) \<Rightarrow> 'a list \<Rightarrow> 'b list option" where
  "option_all f [] = Some []"
| "option_all f (x # xs) = do { y \<leftarrow> f x; ys \<leftarrow> option_all f xs; Some (y # ys) }"

fun unpacked :: "csum_lib \<Rightarrow> cb_map \<Rightarrow> (entries \<times> int) option" where
  "unpacked lib (Packed n d) = do {
     bs \<leftarrow> sliced_deref d;
     es \<leftarrow> option_all (read_entry lib bs) [0..<n];
     Some (bt_from_iter (map fst es), -2 * 8 + sum_list (map snd es)) }"
| "unpacked lib (Unpacked m) = Some (m, 0)"

text \<open>The binary search of \<^verbatim>\<open>Map::find\<close>.\<close>

function find_loop :: "csum_lib \<Rightarrow> bytes \<Rightarrow> bytes \<Rightarrow> int \<Rightarrow> int \<Rightarrow> (byte \<times> nat \<times> nat \<times> 64 word) option option" where
  "find_loop lib bs key left right =
     (if left > right then Some None
      else let mid = (left + right) div 2 + (left + right) mod 2 in
        do {
        kidx \<leftarrow> read_key_idx bs (nat mid);
        k \<leftarrow> cut bs (kx_pos kidx) (kx_len kidx);
        if key < k then find_loop lib bs key left (mid - 1)
        else if key = k then do {
          (val_pos, val_len, val_csum) \<leftarrow> read_value_pos lib bs (kx_pos kidx + kx_len kidx);
          Some (Some (kx_pref kidx, val_pos, val_len, val_csum)) }
        else find_loop lib bs key (mid + 1) right })"
  by pat_completeness auto
termination
  by (relation "measure (\<lambda>(lib :: csum_lib, bs :: bytes, key :: bytes, left, right). nat (right - left + 1))") (auto, presburger+)

declare find_loop.simps [simp del]

fun map_find :: "csum_lib \<Rightarrow> cb_map \<Rightarrow> bytes \<Rightarrow> (byte \<times> nat \<times> nat \<times> 64 word) option option" where
  "map_find lib (Packed n d) key = do { bs \<leftarrow> sliced_deref d; find_loop lib bs key 0 (int n - 1) }"
| "map_find lib (Unpacked m) key = None"

fun map_is_empty :: "csum_lib \<Rightarrow> cb_map \<Rightarrow> bytes \<Rightarrow> bool option" where
  "map_is_empty lib (Packed n d) key = map_option (\<lambda>r. r = None) (map_find lib (Packed n d) key)"
| "map_is_empty lib (Unpacked m) key = Some (\<not> bt_contains_key m key)"

fun map_len :: "cb_map \<Rightarrow> nat" where
  "map_len (Packed n d) = n"
| "map_len (Unpacked m) = length m"

fun is_unpacked :: "cb_map \<Rightarrow> bool" where
  "is_unpacked (Packed n d) = False"
| "is_unpacked (Unpacked m) = True"

fun map_get :: "csum_lib \<Rightarrow> cb_map \<Rightarrow> bytes \<Rightarrow> (key_info \<times> bytes) option option" where
  "map_get lib (Packed n d) key = do {
     bs \<leftarrow> sliced_deref d;
     r \<leftarrow> map_find lib (Packed n d) key;
     case r of None \<Rightarrow> Some None
     | Some (pref, pos, len, csum) \<Rightarrow> do {
         buf \<leftarrow> cut bs pos len;
         assert_that (csum_verify lib csum buf);
         p \<leftarrow> pref_from_u8 pref;
         Some (Some (\<lparr>ki_pref = p\<rparr>, buf)) } }"
| "map_get lib (Unpacked m) key = Some (bt_get m key)"

fun len_bytes_contained_in_checksum :: "cb_map \<Rightarrow> nat option" where
  "len_bytes_contained_in_checksum (Packed n d) =
     (if n < 1 then Some HEADER
      else do {
        bs \<leftarrow> sliced_deref d;
        kidx \<leftarrow> read_key_idx bs (n - 1);
        Some (kx_pos kidx + kx_len kidx + 4 + 4 + CSUM_SIZE) })"
| "len_bytes_contained_in_checksum (Unpacked m) = None"

subsection \<open>Preferences and sizes\<close>

definition pcb_current_preference :: "packed_child_buffer \<Rightarrow> storage_preference option option" where
  "pcb_current_preference self = (case as_option (messages_preference self) of
     None \<Rightarrow> Some None
   | Some p \<Rightarrow> map_option Some (weak_bound (system_storage_preference self) p))"

definition pcb_recalculate :: "packed_child_buffer \<Rightarrow> (storage_preference \<times> packed_child_buffer) option" where
  "pcb_recalculate self = (case cb_buffer self of
     Packed _ _ \<Rightarrow> None
   | Unpacked m \<Rightarrow>
       (let pref = fold (\<lambda>(k, info, v) acc. pref_upgrade acc (ki_pref info)) m NONE
        in Some (choose_faster pref NONE,
             self\<lparr>messages_preference := atomic_set (messages_preference self) pref\<rparr>)))"

definition pcb_size :: "packed_child_buffer \<Rightarrow> nat" where
  "pcb_size self = HEADER + entries_size self"

definition pcb_cache_size :: "packed_child_buffer \<Rightarrow> nat" where
  "pcb_cache_size self = (case cb_buffer self of
     Packed _ d \<Rightarrow> HEADER + 8 * 2 + sliced_cache_size d
   | Unpacked _ \<Rightarrow> pcb_size self)"

definition value_size :: "bytes \<Rightarrow> nat" where
  "value_size v = 8 + length v"

definition pcb_new :: "bool \<Rightarrow> packed_child_buffer" where
  "pcb_new leaf = \<lparr>messages_preference = atomic_known NONE, system_storage_preference = system_from NONE,
     entries_size = 0, cb_buffer = Unpacked [], is_leaf = leaf\<rparr>"

subsection \<open>Operations\<close>

definition pcb_get :: "csum_lib \<Rightarrow> packed_child_buffer \<Rightarrow> bytes \<Rightarrow> (key_info \<times> bytes) option option" where
  "pcb_get lib self key = map_get lib (cb_buffer self) key"

definition pcb_is_empty :: "csum_lib \<Rightarrow> packed_child_buffer \<Rightarrow> bytes \<Rightarrow> bool option" where
  "pcb_is_empty lib self key = map_is_empty lib (cb_buffer self) key"

definition pcb_unpack_data :: "csum_lib \<Rightarrow> packed_child_buffer \<Rightarrow> (packed_child_buffer \<times> int) option" where
  "pcb_unpack_data lib self = do {
     (m, size_delta) \<leftarrow> unpacked lib (cb_buffer self);
     Some (self\<lparr>cb_buffer := Unpacked m\<rparr>, size_delta) }"

definition pcb_apply_with_info ::
  "csum_lib \<Rightarrow> packed_child_buffer \<Rightarrow> bytes \<Rightarrow> storage_preference
    \<Rightarrow> (packed_child_buffer \<times> key_info option \<times> int) option" where
  "pcb_apply_with_info lib self key pref = do {
     (m, size_delta) \<leftarrow> unpacked lib (cb_buffer self);
     let self' = self\<lparr>messages_preference := atomic_invalidate (messages_preference self)\<rparr>;
     case bt_get m key of
       None \<Rightarrow> Some (self'\<lparr>cb_buffer := Unpacked m\<rparr>, None, size_delta)
     | Some (info, v) \<Rightarrow>
         (let info' = info\<lparr>ki_pref := pref\<rparr>
          in Some (self'\<lparr>cb_buffer := Unpacked (bt_insert key (info', v) m)\<rparr>, Some info', size_delta)) }"

text \<open>The loop of \<^verbatim>\<open>split\<close> over the entries from the last one: the size and the preference of
  the right sibling and its first key.\<close>

fun split_scan :: "nat \<Rightarrow> entry list \<Rightarrow> nat \<Rightarrow> storage_preference \<Rightarrow> nat \<times> storage_preference \<times> bytes option" where
  "split_scan min_size [] sz pref = (sz, pref, None)"
| "split_scan min_size ((k, info, v) # es) sz pref =
     (let sz' = sz + length k + length v + PER_KEY_BYTES + key_info_size;
          pref' = pref_upgrade pref (ki_pref info)
      in if sz' \<ge> min_size then (sz', pref', Some k) else split_scan min_size es sz' pref')"

definition pcb_split ::
  "csum_lib \<Rightarrow> packed_child_buffer \<Rightarrow> nat \<Rightarrow> nat
    \<Rightarrow> (packed_child_buffer \<times> (packed_child_buffer \<times> bytes \<times> local_pivot_key) \<times> int) option" where
  "pcb_split lib self min_size max_size = do {
     assert_that (pcb_size self > max_size);
     assert_that (map_len (cb_buffer self) > 2);
     (m, size_delta) \<leftarrow> unpacked lib (cb_buffer self);
     let (sibling_size, sibling_pref, found) = split_scan min_size (rev m) 0 NONE;
     split_key \<leftarrow> found;
     let (left, right) = bt_split_off m split_key;
     entries_size' \<leftarrow> checked_sub (entries_size self) sibling_size;
     assert_that (left \<noteq> []);
     let pivot_key = fst (last left);
     let right_sibling = (pcb_new (is_leaf self))\<lparr>cb_buffer := Unpacked right, entries_size := sibling_size,
       messages_preference := atomic_set (atomic_known NONE) sibling_pref\<rparr>;
     Some (self\<lparr>cb_buffer := Unpacked left, entries_size := entries_size',
             messages_preference := atomic_invalidate (messages_preference self)\<rparr>,
           (right_sibling, pivot_key, LRight pivot_key), size_delta - int sibling_size) }"

text \<open>The removal of a leaf entry computes its size change with the placeholder (of length 0)
  that replaced the value.\<close>

definition pcb_insert ::
  "csum_lib \<Rightarrow> msg_action \<Rightarrow> bytes \<Rightarrow> key_info \<Rightarrow> bytes \<Rightarrow> packed_child_buffer
    \<Rightarrow> (packed_child_buffer \<times> int) option" where
  "pcb_insert lib ma key keyinfo msg self = do {
     let key_size = cow_size key;
     let self' = self\<lparr>messages_preference := atomic_upgrade (messages_preference self) (ki_pref keyinfo)\<rparr>;
     (m, size_change) \<leftarrow> unpacked lib (cb_buffer self);
     case bt_get m key of
       None \<Rightarrow> do {
         (m', size_delta) \<leftarrow>
           (if is_leaf self then do {
              d \<leftarrow> ma_apply ma key msg None;
              case d of
                Some b \<Rightarrow> Some (bt_insert key (keyinfo, b) m, key_info_size + value_size b + key_size + CSUM_SIZE)
              | None \<Rightarrow> Some (m, 0) }
            else Some (bt_insert key (keyinfo, msg) m, key_size + value_size msg + key_info_size + CSUM_SIZE));
         Some (self'\<lparr>cb_buffer := Unpacked m', entries_size := entries_size self + size_delta\<rparr>,
           size_change + int size_delta) }
     | Some (info, lower) \<Rightarrow> do {
         new \<leftarrow> (if is_leaf self then ma_apply ma key msg (Some lower)
                 else map_option Some (ma_merge ma key msg lower));
         case new of
           None \<Rightarrow> Some (self'\<lparr>cb_buffer := Unpacked (bt_remove key m)\<rparr>,
             size_change - (int key_size + int (value_size []) + int PER_KEY_BYTES))
         | Some merged \<Rightarrow> do {
             entries_size' \<leftarrow> checked_sub (entries_size self + value_size merged) (value_size lower);
             Some (self'\<lparr>cb_buffer := Unpacked (bt_insert key (info, merged) m), entries_size := entries_size'\<rparr>,
               size_change + (int (value_size merged) - int (value_size lower))) } } }"

primrec pcb_insert_msg_buffer ::
  "csum_lib \<Rightarrow> msg_action \<Rightarrow> entry list \<Rightarrow> packed_child_buffer \<Rightarrow> (packed_child_buffer \<times> int) option" where
  "pcb_insert_msg_buffer lib ma [] self = Some (self, 0)"
| "pcb_insert_msg_buffer lib ma (e # es) self = do {
     (self', d) \<leftarrow> pcb_insert lib ma (fst e) (fst (snd e)) (snd (snd e)) self;
     (self'', d') \<leftarrow> pcb_insert_msg_buffer lib ma es self';
     Some (self'', d + d') }"

definition pcb_take :: "csum_lib \<Rightarrow> packed_child_buffer \<Rightarrow> (packed_child_buffer \<times> entries \<times> nat) option" where
  "pcb_take lib self = do {
     (m, _) \<leftarrow> unpacked lib (cb_buffer self);
     Some (self\<lparr>messages_preference := atomic_invalidate (messages_preference self),
                cb_buffer := Unpacked [], entries_size := 0\<rparr>, m, entries_size self) }"

definition pcb_append ::
  "csum_lib \<Rightarrow> packed_child_buffer \<Rightarrow> packed_child_buffer
    \<Rightarrow> (packed_child_buffer \<times> packed_child_buffer \<times> int) option" where
  "pcb_append lib self other = do {
     (m, size_delta) \<leftarrow> unpacked lib (cb_buffer self);
     (m', _) \<leftarrow> unpacked lib (cb_buffer other);
     Some (self\<lparr>cb_buffer := Unpacked (bt_append m m'), entries_size := entries_size self + entries_size other,
              messages_preference := upgrade_atomic (messages_preference self) (messages_preference other)\<rparr>,
           other\<lparr>cb_buffer := Unpacked []\<rparr>, size_delta + int (entries_size other)) }"

definition entry_size :: "bytes \<Rightarrow> key_info \<times> bytes \<Rightarrow> nat" where
  "entry_size key value = cow_size key + value_size (snd value) + key_info_size + CSUM_SIZE"

definition pcb_split_off :: "packed_child_buffer \<Rightarrow> bytes \<Rightarrow> (packed_child_buffer \<times> entries \<times> nat) option" where
  "pcb_split_off self pivot = (case cb_buffer self of
     Packed _ _ \<Rightarrow> None
   | Unpacked m \<Rightarrow> do {
       let (left, right_buffer) = bt_split_off m (pivot @ [0]);
       let right_entry_size = entry_sum entry_size right_buffer;
       entries_size' \<leftarrow> checked_sub (entries_size self) right_entry_size;
       Some (self\<lparr>cb_buffer := Unpacked left, entries_size := entries_size',
               messages_preference := atomic_invalidate (messages_preference self)\<rparr>,
             right_buffer, right_entry_size) })"

definition pcb_split_at :: "packed_child_buffer \<Rightarrow> bytes \<Rightarrow> (packed_child_buffer \<times> packed_child_buffer) option" where
  "pcb_split_at self pivot = do {
     (self', buffer, buffer_entries_size) \<leftarrow> pcb_split_off self pivot;
     Some (self', \<lparr>messages_preference = atomic_unknown, system_storage_preference = system_from NONE,
       entries_size = buffer_entries_size, cb_buffer = Unpacked buffer, is_leaf = is_leaf self\<rparr>) }"

definition pcb_rebalance ::
  "csum_lib \<Rightarrow> packed_child_buffer \<Rightarrow> packed_child_buffer \<Rightarrow> bytes
    \<Rightarrow> (packed_child_buffer \<times> packed_child_buffer) option" where
  "pcb_rebalance lib self right_sibling new_pivot_key = do {
     (self', right', _) \<leftarrow> pcb_append lib self right_sibling;
     (self'', buffer, buffer_entries_size) \<leftarrow> pcb_split_off self' new_pivot_key;
     Some (self'', right'\<lparr>cb_buffer := Unpacked buffer, entries_size := buffer_entries_size\<rparr>) }"

datatype fill_up_result = Rebalanced bytes int | Merged int

definition pcb_rebalance_size ::
  "csum_lib \<Rightarrow> packed_child_buffer \<Rightarrow> packed_child_buffer \<Rightarrow> nat \<Rightarrow> nat
    \<Rightarrow> (packed_child_buffer \<times> packed_child_buffer \<times> fill_up_result) option" where
  "pcb_rebalance_size lib self right_sibling min_size max_size = do {
     (self', right', cache_change) \<leftarrow> pcb_append lib self right_sibling;
     if pcb_size self' \<le> max_size then Some (self', right', Merged cache_change)
     else do {
       (self'', (sibling, pivot_key, _), split_delta) \<leftarrow> pcb_split lib self' min_size max_size;
       Some (self'', sibling, Rebalanced pivot_key (cache_change + split_delta)) } }"

definition pcb_range_delete ::
  "csum_lib \<Rightarrow> packed_child_buffer \<Rightarrow> bytes \<Rightarrow> bytes option \<Rightarrow> (packed_child_buffer \<times> int) option" where
  "pcb_range_delete lib self start end' = do {
     (m, unpack_delta) \<leftarrow> unpacked lib (cb_buffer self);
     let range = bt_range m start end';
     let size_delta = entry_sum (\<lambda>key msg. cow_size key + value_size (snd msg)) range;
     let m' = fold bt_remove (map fst range) m;
     entries_size' \<leftarrow> checked_sub (entries_size self) size_delta;
     Some (self\<lparr>cb_buffer := Unpacked m', entries_size := entries_size',
             messages_preference := atomic_invalidate (messages_preference self)\<rparr>,
           unpack_delta - int size_delta) }"

subsection \<open>Iterating over the messages\<close>

text \<open>One step of \<^verbatim>\<open>PackedBufferIterator\<close>; unlike \<open>map_get\<close> it does not verify checksums.\<close>

definition packed_iter_next :: "sliced_cow_bytes \<Rightarrow> key_idx \<Rightarrow> entry option" where
  "packed_iter_next d kpos = do {
     bs \<leftarrow> sliced_deref d;
     vpos_off \<leftarrow> add_u32 (kx_pos kpos) (kx_len kpos);
     vpos \<leftarrow> cut bs vpos_off 4;
     vlen \<leftarrow> cut bs (vpos_off + 4) 4;
     val \<leftarrow> subslice d (from_le vpos) (from_le vlen);
     k \<leftarrow> cut bs (kx_pos kpos) (kx_len kpos);
     pref \<leftarrow> pref_from_u8 (kx_pref kpos);
     v \<leftarrow> sliced_deref val;
     Some (k, \<lparr>ki_pref = pref\<rparr>, v) }"

definition get_all_messages :: "packed_child_buffer \<Rightarrow> entry list option" where
  "get_all_messages self = (case cb_buffer self of
     Packed n d \<Rightarrow> do {
       bs \<leftarrow> sliced_deref d;
       keys \<leftarrow> option_all (read_key_idx bs) [0..<n];
       option_all (packed_iter_next d) keys }
   | Unpacked m \<Rightarrow> Some m)"

subsection \<open>Serialisation\<close>

text \<open>The loops over the entries write the index, then the keys with the position, length and
  checksum of their values; both move \<open>free_after\<close> on.\<close>

fun pack_index :: "nat \<Rightarrow> entry list \<Rightarrow> bytes \<times> nat" where
  "pack_index free_after [] = ([], free_after)"
| "pack_index free_after ((key, info, _) # es) =
     (let (rest, after) = pack_index (free_after + (length key + 4 + 4 + CSUM_SIZE)) es
      in (to_le 4 free_after @ to_le 4 (length key) @ [ki_pref info] @ rest, after))"

fun pack_keys :: "csum_lib \<Rightarrow> nat \<Rightarrow> entry list \<Rightarrow> bytes" where
  "pack_keys lib free_after [] = []"
| "pack_keys lib free_after ((key, _, val) # es) =
     key @ to_le 4 free_after @ to_le 4 (length val) @ cl_ser lib (cl_hash lib val)
       @ pack_keys lib (free_after + length val) es"

definition pack_head :: "csum_lib \<Rightarrow> bool \<Rightarrow> nat \<Rightarrow> storage_preference \<Rightarrow> entry list \<Rightarrow> bytes" where
  "pack_head lib leaf es_size pref es =
     (let (index, free_after) = pack_index (HEADER + length es * KEY_IDX_SIZE) es
      in [if leaf then 1 else 0] @ to_le 4 (length es) @ to_le 4 es_size @ [pref] @ index
           @ pack_keys lib free_after es)"

definition pcb_pack ::
  "csum_lib \<Rightarrow> packed_child_buffer \<Rightarrow> (bytes \<times> integrity_mode) option" where
  "pcb_pack lib self = (case cb_buffer self of
     Packed n d \<Rightarrow> do {
       bs \<leftarrow> sliced_deref d;
       out \<leftarrow> cut bs 0 (pcb_size self);
       len \<leftarrow> len_bytes_contained_in_checksum (cb_buffer self);
       head \<leftarrow> cut bs 0 len;
       Some (out, Internal (cl_hash lib head) (len mod 2 ^ 32)) }
   | Unpacked m \<Rightarrow> do {
       pref \<leftarrow> strong_bound (system_storage_preference self) NONE;
       let tmp = pack_head lib (is_leaf self) (entries_size self) pref m;
       Some (tmp @ concat (map (\<lambda>e. snd (snd e)) m),
             Internal (cl_hash lib tmp) (length tmp mod 2 ^ 32)) })"

text \<open>\<open>Some None\<close> is the I/O error of a failed checksum.\<close>

definition pcb_unpack ::
  "csum_lib \<Rightarrow> sliced_cow_bytes \<Rightarrow> integrity_mode \<Rightarrow> packed_child_buffer option option" where
  "pcb_unpack lib buf csum = do {
     bs \<leftarrow> sliced_deref buf;
     b0 \<leftarrow> nth_opt bs 0;
     entry_count \<leftarrow> cut bs 1 4;
     es_size \<leftarrow> cut bs 5 4;
     pref \<leftarrow> nth_opt bs 9;
     c \<leftarrow> im_checksum csum;
     len \<leftarrow> im_length csum;
     head \<leftarrow> cut bs 0 len;
     if csum_verify lib c head then do {
       p \<leftarrow> pref_from_u8 pref;
       Some (Some \<lparr>messages_preference = atomic_known p, system_storage_preference = system_from p,
         entries_size = from_le es_size, cb_buffer = Packed (from_le entry_count) buf, is_leaf = (b0 \<noteq> 0)\<rparr>) }
     else Some None }"

subsection \<open>What a buffer means\<close>

text \<open>
  \<open>contents\<close> are the entries of a buffer however they are stored. In a leaf they are the values
  of the keys (\<open>leaf_value\<close>); elsewhere they are pending messages and change a value that comes
  from below (\<open>buffer_effect\<close>). \<open>size_exact\<close> says that the maintained \<open>entries_size\<close> is the sum over
  the entries, \<open>size_covers\<close> that it is at least the sum; \<open>size_floor\<close> allows it to fall short by eight
  bytes per entry, as it does for a leaf after \<open>split\<close>.
\<close>

definition contents :: "csum_lib \<Rightarrow> packed_child_buffer \<Rightarrow> entries option" where
  "contents lib self = map_option fst (unpacked lib (cb_buffer self))"

definition leaf_value :: "entries \<Rightarrow> bytes \<Rightarrow> bytes option" where
  "leaf_value m k = map_option snd (bt_get m k)"

definition buffer_effect :: "msg_action \<Rightarrow> entries \<Rightarrow> bytes \<Rightarrow> bytes option \<Rightarrow> bytes option option" where
  "buffer_effect ma m k d = (case bt_get m k of None \<Rightarrow> Some d | Some (_, msg) \<Rightarrow> ma_apply ma k msg d)"

definition size_exact :: "packed_child_buffer \<Rightarrow> entries \<Rightarrow> bool" where
  "size_exact self m \<longleftrightarrow> entries_size self = entry_sum entry_size m"

definition size_covers :: "packed_child_buffer \<Rightarrow> entries \<Rightarrow> bool" where
  "size_covers self m \<longleftrightarrow> entry_sum entry_size m \<le> entries_size self"

definition size_floor :: "packed_child_buffer \<Rightarrow> entries \<Rightarrow> bool" where
  "size_floor self m \<longleftrightarrow> entry_sum entry_size m \<le> entries_size self + 8 * length m"

lemma contents_unpacked_map [simp]: "contents lib (b\<lparr>cb_buffer := Unpacked m\<rparr>) = Some m"
  by (simp add: contents_def)

lemma contents_cases:
  assumes "contents lib b = Some m"
  obtains d where "unpacked lib (cb_buffer b) = Some (m, d)"
  using assms by (auto simp: contents_def)

lemma leaf_value_insert: "leaf_value (bt_insert k (i, v) m) = (leaf_value m)(k \<mapsto> v)"
  by (auto simp: leaf_value_def bt_get_insert fun_eq_iff)

lemma leaf_value_remove: "leaf_value (bt_remove k m) = (leaf_value m)(k := None)"
  by (auto simp: leaf_value_def bt_get_remove fun_eq_iff)

lemma buffer_effect_insert:
  "buffer_effect ma (bt_insert k (i, msg) m) k' d = (if k' = k then ma_apply ma k msg d else buffer_effect ma m k' d)"
  by (simp add: buffer_effect_def bt_get_insert)

lemma value_size_le_entry_size: "value_size (snd v) \<le> entry_size k v"
  by (simp add: entry_size_def)

lemma entry_size_change: "entry_size k (i, v) + value_size v' = entry_size k (i', v') + value_size v"
  by (simp add: entry_size_def)

lemma entry_sum_replace_value:
  assumes "sorted_keys m" "bt_get m k = Some (i, v)"
  shows "entry_sum entry_size (bt_insert k (i, v') m) + value_size v = value_size v' + entry_sum entry_size m"
  using entry_sum_insert_present [OF assms, of entry_size "(i, v')"] entry_size_change [of k i v v' i]
  by simp

lemma value_size_le_sum: "bt_get m k = Some (i, v) \<Longrightarrow> value_size v \<le> entry_sum entry_size m"
  using entry_sum_member [OF bt_get_mem, of m k "(i, v)" entry_size] value_size_le_entry_size [of "(i, v)" k]
  by simp

text \<open>The result of an insertion as a map and a size, without the accounting of the cache.\<close>

definition excess :: "packed_child_buffer \<Rightarrow> entries \<Rightarrow> int" where
  "excess b m = int (entries_size b) - int (entry_sum entry_size m)"

lemma size_exact_excess: "size_exact b m \<longleftrightarrow> excess b m = 0"
  by (auto simp: size_exact_def excess_def)

lemma size_covers_excess: "size_covers b m \<longleftrightarrow> 0 \<le> excess b m"
  by (auto simp: size_covers_def excess_def)

lemma size_floor_excess: "size_floor b m \<longleftrightarrow> - 8 * int (length m) \<le> excess b m"
  by (auto simp: size_floor_def excess_def)

lemma size_covers_floor: "size_covers b m \<Longrightarrow> size_floor b m"
  by (simp add: size_covers_def size_floor_def)

lemma length_entry_sum: "length m = entry_sum (\<lambda>_ _. 1) m"
  by (induction m) auto

lemma value_size_le_floor:
  assumes "bt_get m k = Some (i, v)" "size_floor b m"
  shows "value_size v \<le> entries_size b"
proof -
  have "entry_sum entry_size m = entry_sum (\<lambda>k v. entry_size k v - 8) m + 8 * length m"
    by (induction m) (auto simp: entry_size_def cow_size_def)
  moreover have "entry_size k (i, v) - 8 \<le> entry_sum (\<lambda>k v. entry_size k v - 8) m"
    by (rule entry_sum_member [OF bt_get_mem [OF assms(1)], of "\<lambda>k v. entry_size k v - 8"])
  moreover have "value_size v \<le> entry_size k (i, v) - 8" by (simp add: entry_size_def cow_size_def)
  ultimately show ?thesis using assms(2) by (simp add: size_floor_def)
qed

lemma keys_bt_remove: "fst ` set (bt_remove k m) = fst ` set m - {k}"
  by (auto simp: bt_remove_def)

lemma pcb_insert_leaf:
  assumes b: "contents lib b = Some m" "sorted_keys m" "size_floor b m" "is_leaf b"
    and r: "ma_apply ma key msg (leaf_value m key) = Some r"
  shows "\<exists>b' delta m'. pcb_insert lib ma key info msg b = Some (b', delta) \<and> contents lib b' = Some m'
    \<and> sorted_keys m' \<and> is_leaf b' \<and> leaf_value m' = (leaf_value m)(key := r) \<and> size_floor b' m'
    \<and> cb_buffer b' = Unpacked m' \<and> fst ` set m' \<subseteq> insert key (fst ` set m)
    \<and> excess b' m' = excess b m + (if r = None then (case bt_get m key of None \<Rightarrow> 0 | Some v \<Rightarrow> int (entry_size key v)) else 0)"
proof -
  obtain d where d: "unpacked lib (cb_buffer b) = Some (m, d)" using b(1) by (rule contents_cases)
  show ?thesis
  proof (cases "bt_get m key")
    case None
    have "leaf_value m key = None" using None by (simp add: leaf_value_def)
    moreover from this have "(leaf_value m)(key := None) = leaf_value m" by auto
    ultimately show ?thesis
      using None d b r
      by (cases r) (auto simp: pcb_insert_def Let_def contents_def excess_def leaf_value_insert sorted_bt_insert
          size_floor_def length_entry_sum entry_sum_insert_fresh entry_size_def)
  next
    case (Some v)
    obtain i lower where v: "v = (i, lower)" by fastforce
    have lower: "leaf_value m key = Some lower" using Some v by (simp add: leaf_value_def)
    have le: "value_size lower \<le> entries_size b" using value_size_le_floor Some v b(3) by blast
    show ?thesis
    proof (cases r)
      case None
      have "8 \<le> entry_size key v" by (simp add: entry_size_def cow_size_def)
      with None Some v d b r lower entry_sum_remove [OF b(2) Some, of entry_size] entry_sum_remove [OF b(2) Some, of "\<lambda>_ _. 1"]
      show ?thesis
        by (auto simp: pcb_insert_def Let_def contents_def excess_def leaf_value_remove sorted_bt_remove size_floor_def
            length_entry_sum keys_bt_remove)
    next
      case (Some new)
      with \<open>bt_get m key = Some v\<close> v d b r lower le entry_sum_replace_value [OF b(2), of key i lower new]
        entry_sum_insert_present [OF b(2), of key v "\<lambda>_ _. 1" "(i, new)"]
      show ?thesis
        by (auto simp: pcb_insert_def Let_def contents_def excess_def leaf_value_insert sorted_bt_insert checked_sub_def
            size_floor_def length_entry_sum)
    qed
  qed
qed

definition valid_entries :: "(bytes \<Rightarrow> bytes \<Rightarrow> bool) \<Rightarrow> entries \<Rightarrow> bool" where
  "valid_entries valid m \<longleftrightarrow> (\<forall>(k, i, msg) \<in> set m. valid k msg)"

context message_action
begin

lemma valid_entries_get: "valid_entries valid m \<Longrightarrow> bt_get m k = Some (i, msg) \<Longrightarrow> valid k msg"
  by (fastforce simp: valid_entries_def dest: bt_get_mem)

lemma valid_entries_insert:
  "valid_entries valid m \<Longrightarrow> valid k msg \<Longrightarrow> valid_entries valid (bt_insert k (i, msg) m)"
proof (induction m)
  case (Cons e m)
  then show ?case by (auto simp: valid_entries_def)
qed (simp add: valid_entries_def)

lemma buffer_effect_total: "valid_entries valid m \<Longrightarrow> \<exists>d'. buffer_effect ma m k d = Some d'"
  using apply_total valid_entries_get by (fastforce simp: buffer_effect_def split: option.splits)

lemma pcb_insert_buffer:
  assumes b: "contents lib b = Some m" "sorted_keys m" "size_covers b m" "\<not> is_leaf b"
    and v: "valid_entries valid m" "valid key msg"
  shows "\<exists>b' delta m'. pcb_insert lib ma key info msg b = Some (b', delta) \<and> contents lib b' = Some m'
    \<and> sorted_keys m' \<and> \<not> is_leaf b' \<and> valid_entries valid m' \<and> excess b' m' = excess b m
    \<and> fst ` set m' = insert key (fst ` set m)
    \<and> (\<forall>k d. buffer_effect ma m' k d =
        (if k = key then buffer_effect ma m k d \<bind> ma_apply ma k msg else buffer_effect ma m k d))"
proof -
  obtain d where d: "unpacked lib (cb_buffer b) = Some (m, d)" using b(1) by (rule contents_cases)
  show ?thesis
  proof (cases "bt_get m key")
    case None
    then have "buffer_effect ma m key x = Some x" for x by (simp add: buffer_effect_def)
    with None d b v show ?thesis
      by (auto simp: pcb_insert_def Let_def contents_def excess_def sorted_bt_insert valid_entries_insert
          entry_sum_insert_fresh entry_size_def buffer_effect_insert)
  next
    case (Some v')
    obtain i lower where v': "v' = (i, lower)" by fastforce
    have lower: "valid key lower" using Some v' v valid_entries_get by blast
    obtain merged where mg: "ma_merge ma key msg lower = Some merged" "valid key merged"
      "\<And>d. ma_apply ma key merged d = ma_apply ma key lower d \<bind> ma_apply ma key msg"
      using merge_acts [OF v(2) lower] by blast
    have eff: "buffer_effect ma m key x = ma_apply ma key lower x" for x
      using Some v' by (simp add: buffer_effect_def)
    have le: "value_size lower \<le> entries_size b"
      using value_size_le_sum [of m key i lower] Some v' b(3) by (simp add: size_covers_def)
    from Some v' d b v mg eff le entry_sum_replace_value [OF b(2), of key i lower merged] show ?thesis
      by (auto simp: pcb_insert_def Let_def contents_def excess_def sorted_bt_insert valid_entries_insert
          buffer_effect_insert checked_sub_def)
  qed
qed

text \<open>Inserting a batch of messages, as a flush does.\<close>

lemma buffer_effect_Cons_same: "buffer_effect ma (e # es) (fst e) = ma_apply ma (fst e) (snd (snd e))"
  by (cases "snd e") (auto simp: buffer_effect_def bt_get_Cons fun_eq_iff)

lemma buffer_effect_Cons_other: "k \<noteq> fst e \<Longrightarrow> buffer_effect ma (e # es) k = buffer_effect ma es k"
  by (auto simp: buffer_effect_def bt_get_Cons fun_eq_iff)

lemma buffer_effect_absent: "k \<notin> fst ` set es \<Longrightarrow> buffer_effect ma es k = Some"
  by (simp add: buffer_effect_def bt_get_eq_None [THEN iffD2] fun_eq_iff)

lemma pcb_insert_msgs_buffer:
  assumes "sorted_keys es" "valid_entries valid es" "contents lib b = Some m" "sorted_keys m" "size_covers b m"
    "\<not> is_leaf b" "valid_entries valid m"
  shows "\<exists>b' delta m'. pcb_insert_msg_buffer lib ma es b = Some (b', delta) \<and> contents lib b' = Some m'
    \<and> sorted_keys m' \<and> \<not> is_leaf b' \<and> valid_entries valid m' \<and> excess b' m' = excess b m
    \<and> fst ` set m' = fst ` set es \<union> fst ` set m
    \<and> (\<forall>k d. buffer_effect ma m' k d = buffer_effect ma m k d \<bind> buffer_effect ma es k)"
  using assms
proof (induction es arbitrary: b m)
  case Nil
  then show ?case by (auto simp: buffer_effect_absent intro!: exI [of _ b] exI [of _ m])
next
  case (Cons e es)
  have e: "valid (fst e) (snd (snd e))" "valid_entries valid es"
    using Cons.prems(2) by (auto simp: valid_entries_def)
  obtain b1 d1 m1 where 1: "pcb_insert lib ma (fst e) (fst (snd e)) (snd (snd e)) b = Some (b1, d1)"
    "contents lib b1 = Some m1" "sorted_keys m1" "\<not> is_leaf b1" "valid_entries valid m1" "excess b1 m1 = excess b m"
    "fst ` set m1 = insert (fst e) (fst ` set m)"
    "\<forall>k d. buffer_effect ma m1 k d = (if k = fst e
      then buffer_effect ma m k d \<bind> ma_apply ma k (snd (snd e)) else buffer_effect ma m k d)"
    using pcb_insert_buffer [OF Cons.prems(3-7) e(1), of "fst (snd e)"] by (elim exE conjE)
  have es: "sorted_keys es" using Cons.prems(1) by simp
  have covers: "size_covers b1 m1" using Cons.prems(5) 1(6) by (simp add: size_covers_excess)
  obtain b2 d2 m2 where 2: "pcb_insert_msg_buffer lib ma es b1 = Some (b2, d2)"
    "contents lib b2 = Some m2" "sorted_keys m2" "\<not> is_leaf b2" "valid_entries valid m2" "excess b2 m2 = excess b1 m1"
    "fst ` set m2 = fst ` set es \<union> fst ` set m1"
    "\<forall>k d. buffer_effect ma m2 k d = buffer_effect ma m1 k d \<bind> buffer_effect ma es k"
    using Cons.IH [OF es e(2) 1(2,3) covers 1(4,5)] by (elim exE conjE)
  have "buffer_effect ma m2 k d = buffer_effect ma m k d \<bind> buffer_effect ma (e # es) k" for k d
  proof (cases "k = fst e")
    case True
    then have "k \<notin> fst ` set es" using Cons.prems(1) by auto
    then show ?thesis using True 1(8) 2(8) by (simp add: buffer_effect_absent buffer_effect_Cons_same)
  next
    case False
    then show ?thesis using 1(8) 2(8) by (simp add: buffer_effect_Cons_other)
  qed
  with 1 2 show ?case by auto
qed

lemma pcb_insert_msgs_leaf:
  assumes "sorted_keys es" "valid_entries valid es" "contents lib b = Some m" "sorted_keys m" "size_floor b m" "is_leaf b"
  shows "\<exists>b' delta m'. pcb_insert_msg_buffer lib ma es b = Some (b', delta) \<and> contents lib b' = Some m'
    \<and> sorted_keys m' \<and> is_leaf b' \<and> size_floor b' m'
    \<and> fst ` set m' \<subseteq> fst ` set es \<union> fst ` set m
    \<and> (\<forall>k. Some (leaf_value m' k) = buffer_effect ma es k (leaf_value m k))"
  using assms
proof (induction es arbitrary: b m)
  case Nil
  then show ?case by (auto simp: buffer_effect_absent intro!: exI [of _ b] exI [of _ m])
next
  case (Cons e es)
  have e: "valid (fst e) (snd (snd e))" "valid_entries valid es"
    using Cons.prems(2) by (auto simp: valid_entries_def)
  obtain r where r: "ma_apply ma (fst e) (snd (snd e)) (leaf_value m (fst e)) = Some r"
    using apply_total [OF e(1)] by blast
  obtain b1 d1 m1 where 1: "pcb_insert lib ma (fst e) (fst (snd e)) (snd (snd e)) b = Some (b1, d1)"
    "contents lib b1 = Some m1" "sorted_keys m1" "is_leaf b1" "leaf_value m1 = (leaf_value m)(fst e := r)"
    "size_floor b1 m1" "fst ` set m1 \<subseteq> insert (fst e) (fst ` set m)"
    using pcb_insert_leaf [OF Cons.prems(3-6) r, of "fst (snd e)"]
    by (elim exE conjE)
  obtain b2 d2 m2 where 2: "pcb_insert_msg_buffer lib ma es b1 = Some (b2, d2)"
    "contents lib b2 = Some m2" "sorted_keys m2" "is_leaf b2" "size_floor b2 m2"
    "\<And>k. Some (leaf_value m2 k) = buffer_effect ma es k (leaf_value m1 k)" "fst ` set m2 \<subseteq> fst ` set es \<union> fst ` set m1"
    using Cons.IH [OF _ e(2) 1(2,3,6,4)] Cons.prems(1) by auto
  have "Some (leaf_value m2 k) = buffer_effect ma (e # es) k (leaf_value m k)" for k
  proof (cases "k = fst e")
    case True
    then have "k \<notin> fst ` set es" using Cons.prems(1) by auto
    then show ?thesis using True r 1(5) 2(6) [of k] by (simp add: buffer_effect_absent buffer_effect_Cons_same)
  next
    case False
    then show ?thesis using 1(5) 2(6) [of k] by (simp add: buffer_effect_Cons_other)
  qed
  moreover have "fst ` set m2 \<subseteq> fst ` set (e # es) \<union> fst ` set m" using 1(7) 2(7) unfolding list.set image_insert by blast
  ultimately show ?case using 1(1) 2(1-5) by auto
qed

end

subsection \<open>Splitting, joining and deleting ranges\<close>

lemma less_pivot_zero: "k < p @ [0] \<longleftrightarrow> k \<le> p" for k p :: bytes
proof (induction p arbitrary: k)
  case Nil
  then show ?case by (cases k) auto
next
  case (Cons b p)
  then show ?case by (cases k) auto
qed

lemma pcb_append_contents:
  assumes "contents lib b = Some m" "contents lib other = Some m'" "sorted_keys m'"
    "\<forall>j \<in> fst ` set m. \<forall>k \<in> fst ` set m'. j < k"
  shows "\<exists>b' other' d. pcb_append lib b other = Some (b', other', d) \<and> cb_buffer b' = Unpacked (m @ m')
    \<and> contents lib other' = Some [] \<and> excess b' (m @ m') = excess b m + excess other m'
    \<and> is_leaf b' = is_leaf b \<and> entries_size b' = entries_size b + entries_size other"
proof -
  obtain d d' where "unpacked lib (cb_buffer b) = Some (m, d)" "unpacked lib (cb_buffer other) = Some (m', d')"
    using assms(1,2) by (auto elim!: contents_cases)
  with bt_append_sorted [OF assms(3,4)] show ?thesis
    by (simp add: pcb_append_def contents_def excess_def)
qed

lemma pcb_split_off_spec:
  assumes "cb_buffer b = Unpacked m" "sorted_keys m" "size_covers b m"
  shows "\<exists>b'. pcb_split_off b pivot = Some (b', filter (\<lambda>e. pivot < fst e) m,
        entry_sum entry_size (filter (\<lambda>e. pivot < fst e) m))
    \<and> cb_buffer b' = Unpacked (filter (\<lambda>e. fst e \<le> pivot) m) \<and> is_leaf b' = is_leaf b
    \<and> excess b' (filter (\<lambda>e. fst e \<le> pivot) m) = excess b m"
proof -
  let ?l = "filter (\<lambda>e. fst e \<le> pivot) m" and ?r = "filter (\<lambda>e. pivot < fst e) m"
  have split: "bt_split_off m (pivot @ [0]) = (?l, ?r)"
    by (simp add: bt_split_off_def less_pivot_zero flip: not_less)
  have sum: "entry_sum entry_size m = entry_sum entry_size ?l + entry_sum entry_size ?r"
    by (rule entry_sum_split_off [OF assms(2) split])
  with assms(3) have "entry_sum entry_size ?r \<le> entries_size b" by (simp add: size_covers_def)
  with assms(1) split sum show ?thesis
    by (simp add: pcb_split_off_def checked_sub_def excess_def of_nat_diff Let_def)
qed

text \<open>The scan of \<open>split\<close> collects a suffix of the entries.\<close>

definition scan_size :: "entry list \<Rightarrow> nat" where
  "scan_size es = sum_list (map (\<lambda>(k, i, v). length k + length v + PER_KEY_BYTES + key_info_size) es)"

lemma split_scan_spec:
  "split_scan min_size es sz pref = (sz', pref', Some k) \<Longrightarrow>
    \<exists>n < length es. fst (es ! n) = k \<and> sz' = sz + scan_size (take (Suc n) es) \<and> min_size \<le> sz'"
proof (induction es arbitrary: sz pref)
  case (Cons e es)
  obtain k0 info v where e: "e = (k0, info, v)" by (cases e)
  let ?sz = "sz + length k0 + length v + PER_KEY_BYTES + key_info_size"
  show ?case
  proof (cases "min_size \<le> ?sz")
    case True
    with Cons.prems e show ?thesis by (intro exI [of _ 0]) (auto simp: Let_def scan_size_def)
  next
    case False
    with Cons.prems e have "split_scan min_size es ?sz (pref_upgrade pref (ki_pref info)) = (sz', pref', Some k)"
      by (simp add: Let_def)
    from Cons.IH [OF this] obtain n where "n < length es" "fst (es ! n) = k"
      "sz' = ?sz + scan_size (take (Suc n) es)" "min_size \<le> sz'" by blast
    with e show ?thesis by (intro exI [of _ "Suc n"]) (simp add: scan_size_def)
  qed
qed simp

lemma scan_size_entry_sum: "scan_size es + 8 * length es = entry_sum entry_size es"
  by (induction es)
    (auto simp: scan_size_def entry_size_def cow_size_def value_size_def key_info_size_def CSUM_SIZE_def PER_KEY_BYTES_def)

lemma scan_size_rev: "scan_size (rev es) = scan_size es"
  by (simp only: scan_size_def rev_map [symmetric] sum_list_rev)

lemma bt_split_off_middle:
  assumes "sorted_keys (L @ x # R)"
  shows "bt_split_off (L @ x # R) (fst x) = (L, x # R)"
proof -
  have L: "fst e < fst x" if "e \<in> set L" for e using assms that by (auto simp: sorted_wrt_append)
  have R: "fst x < fst e" if "e \<in> set R" for e using assms that by (auto simp: sorted_wrt_append)
  have "filter (\<lambda>e. fst e < fst x) L = L" "filter (\<lambda>e. fst x \<le> fst e) L = []"
    using L by (simp_all add: filter_id_conv filter_empty_conv not_le)
  moreover have "filter (\<lambda>e. fst e < fst x) R = []" "filter (\<lambda>e. fst x \<le> fst e) R = R"
    using R by (simp_all add: filter_id_conv filter_empty_conv not_less less_imp_le)
  ultimately show ?thesis by (simp add: bt_split_off_def)
qed

lemma pcb_split_spec:
  assumes m: "contents lib b = Some m" "sorted_keys m"
    and split: "pcb_split lib b min_size max_size = Some (b', (r, pivot, lpk), d)"
  shows "\<exists>L R. m = L @ R \<and> L \<noteq> [] \<and> R \<noteq> [] \<and> cb_buffer b' = Unpacked L \<and> cb_buffer r = Unpacked R
    \<and> pivot = fst (last L) \<and> lpk = LRight pivot \<and> is_leaf b' = is_leaf b \<and> is_leaf r = is_leaf b
    \<and> min_size \<le> entries_size r \<and> entries_size b' + entries_size r = entries_size b
    \<and> entries_size r + 8 * length R = entry_sum entry_size R"
proof -
  obtain u where u: "unpacked lib (cb_buffer b) = Some (m, u)" using m(1) by (rule contents_cases)
  obtain sz pref found where scan0: "split_scan min_size (rev m) 0 NONE = (sz, pref, found)"
    by (cases "split_scan min_size (rev m) 0 NONE") auto
  have "found \<noteq> None"
    using split u scan0 by (cases found) (simp_all add: pcb_split_def Let_def split: if_splits)
  then obtain k where scan: "split_scan min_size (rev m) 0 NONE = (sz, pref, Some k)"
    using scan0 by auto
  then obtain n where n: "n < length m" "fst (rev m ! n) = k" "sz = scan_size (take (Suc n) (rev m))" "min_size \<le> sz"
    using split_scan_spec [OF scan] by auto
  let ?i = "length m - Suc n"
  let ?L = "take ?i m" and ?R = "drop ?i m"
  have k: "fst (m ! ?i) = k" using n by (simp add: rev_nth)
  have R: "?R = m ! ?i # drop (Suc ?i) m" using n by (intro Cons_nth_drop_Suc [symmetric]) simp
  have off: "bt_split_off m k = (?L, ?R)"
    using bt_split_off_middle [of ?L "m ! ?i" "drop (Suc ?i) m"] m(2) k
    by (simp only: R [symmetric] append_take_drop_id)
  have sz: "sz = scan_size ?R"
    using n by (simp add: take_rev scan_size_rev)
  have guards: "max_size < pcb_size b" "2 < map_len (cb_buffer b)" "sz \<le> entries_size b" "?L \<noteq> []"
    using split u scan off
    by (cases "sz \<le> entries_size b"; simp add: pcb_split_def Let_def checked_sub_def split: if_splits)+
  note le = guards(3) and L = guards(4)
  have "pcb_split lib b min_size max_size =
      Some (b\<lparr>cb_buffer := Unpacked ?L, entries_size := entries_size b - sz,
          messages_preference := atomic_invalidate (messages_preference b)\<rparr>,
        ((pcb_new (is_leaf b))\<lparr>cb_buffer := Unpacked ?R, entries_size := sz,
          messages_preference := atomic_set (atomic_known NONE) pref\<rparr>, fst (last ?L), LRight (fst (last ?L))),
        u - int sz)"
    using guards u scan off by (simp add: pcb_split_def checked_sub_def Let_def)
  then have b': "b' = b\<lparr>cb_buffer := Unpacked ?L, entries_size := entries_size b - sz,
        messages_preference := atomic_invalidate (messages_preference b)\<rparr>"
      "r = (pcb_new (is_leaf b))\<lparr>cb_buffer := Unpacked ?R, entries_size := sz,
        messages_preference := atomic_set (atomic_known NONE) pref\<rparr>"
      "pivot = fst (last ?L)" "lpk = LRight pivot"
    unfolding split by (simp_all only: option.inject prod.inject)
  have "?R \<noteq> []" using R by simp
  moreover have "cb_buffer b' = Unpacked ?L" "cb_buffer r = Unpacked ?R" "is_leaf b' = is_leaf b"
    "is_leaf r = is_leaf b" "entries_size b' + entries_size r = entries_size b" "entries_size r = sz"
    using b' le by (simp_all add: pcb_new_def)
  ultimately show ?thesis
    using L b'(3,4) n(4) sz scan_size_entry_sum [of ?R]
    by (intro exI [of _ ?L] exI [of _ ?R] conjI) simp_all
qed

subsection \<open>Correctness of the operations\<close>

text \<open>
  C9. Moving messages into a buffer composes their effects: inserting the messages of a
  flushed buffer into the buffer of a child never panics, and the pending effect of the
  result on any value is the old effect followed by that of the new messages. The
  maintained size changes exactly by the change of the entries.
\<close>

theorem flush_into_buffer:
  assumes "sorted_keys es" "valid_entries valid_msg es" "contents lib b = Some m" "sorted_keys m"
    "size_exact b m" "\<not> is_leaf b" "valid_entries valid_msg m"
  shows "\<exists>b' delta m'. pcb_insert_msg_buffer lib default_message_action es b = Some (b', delta)
    \<and> contents lib b' = Some m' \<and> sorted_keys m' \<and> size_exact b' m'
    \<and> (\<forall>k d. buffer_effect default_message_action m' k d =
        buffer_effect default_message_action m k d \<bind> buffer_effect default_message_action es k)"
proof -
  have "size_covers b m" using assms(5) by (simp add: size_exact_def size_covers_def)
  from dma.pcb_insert_msgs_buffer [OF assms(1-4) this assms(6,7)] assms(5) show ?thesis
    by (auto simp: size_exact_excess)
qed

text \<open>
  C8. Moving messages into a leaf resolves them: inserting the messages of a flushed
  buffer into a leaf never panics and every key of the leaf then has the value the
  messages make of its old value.
\<close>

theorem flush_into_leaf:
  assumes "sorted_keys es" "valid_entries valid_msg es" "contents lib b = Some m" "sorted_keys m"
    "size_floor b m" "is_leaf b"
  shows "\<exists>b' delta m'. pcb_insert_msg_buffer lib default_message_action es b = Some (b', delta)
    \<and> contents lib b' = Some m' \<and> sorted_keys m' \<and> size_floor b' m'
    \<and> (\<forall>k. Some (leaf_value m' k) = buffer_effect default_message_action es k (leaf_value m k))"
  using dma.pcb_insert_msgs_leaf [OF assms] by blast

text \<open>
  Deleting a key of a leaf forgets to shrink the maintained size: after a deletion
  message the entry is gone, but \<open>entries_size\<close> is what it was before.
\<close>

theorem leaf_delete_keeps_size:
  assumes "contents lib b = Some m" "sorted_keys m" "size_exact b m" "is_leaf b" "bt_get m key = Some v"
  shows "\<exists>b' delta m'. pcb_insert lib default_message_action key info [0] b = Some (b', delta)
    \<and> contents lib b' = Some m' \<and> bt_get m' key = None \<and> excess b' m' = int (entry_size key v)"
proof -
  have "ma_apply default_message_action key [0] (leaf_value m key) = Some None"
    by (simp add: default_message_action_def apply_bytes_simps)
  with pcb_insert_leaf [of lib b m default_message_action key "[0]" None info] assms
  obtain b' delta m' where "pcb_insert lib default_message_action key info [0] b = Some (b', delta)"
    "contents lib b' = Some m'" "leaf_value m' = (leaf_value m)(key := None)"
    "excess b' m' = int (entry_size key v)"
    by (auto simp: size_exact_def size_floor_def excess_def)
  moreover from this(3) have "bt_get m' key = None"
    by (metis fun_upd_same leaf_value_def option.map_disc_iff)
  ultimately show ?thesis by blast
qed

text \<open>
  Splitting a buffer at a pivot keeps the entries up to and including the pivot on the
  left, moves the others to the right, and divides the maintained size between the two.
\<close>

lemma split_at_partition:
  assumes "cb_buffer b = Unpacked m" "sorted_keys m" "size_exact b m"
  shows "\<exists>l r. pcb_split_at b pivot = Some (l, r)
    \<and> cb_buffer l = Unpacked (filter (\<lambda>e. fst e \<le> pivot) m) \<and> cb_buffer r = Unpacked (filter (\<lambda>e. pivot < fst e) m)
    \<and> size_exact l (filter (\<lambda>e. fst e \<le> pivot) m) \<and> size_exact r (filter (\<lambda>e. pivot < fst e) m)
    \<and> is_leaf l = is_leaf b \<and> is_leaf r = is_leaf b"
proof -
  have "size_covers b m" using assms(3) by (simp add: size_exact_def size_covers_def)
  from pcb_split_off_spec [OF assms(1,2) this, of pivot] assms(3) show ?thesis
    by (auto simp: pcb_split_at_def size_exact_excess) (simp_all add: excess_def)
qed

text \<open>
  Splitting and appending are inverse: appending the right part of a buffer split at
  any pivot to the left part restores its entries and its size.
\<close>

theorem split_at_append:
  assumes "cb_buffer b = Unpacked m" "sorted_keys m" "size_covers b m"
  shows "\<exists>l r b' r' d. pcb_split_at b pivot = Some (l, r) \<and> pcb_append lib l r = Some (b', r', d)
    \<and> cb_buffer b' = Unpacked m \<and> entries_size b' = entries_size b \<and> contents lib r' = Some []"
proof -
  let ?l = "filter (\<lambda>e. fst e \<le> pivot) m" and ?r = "filter (\<lambda>e. pivot < fst e) m"
  have lr: "?l @ ?r = m"
    using bt_split_off_append [OF assms(2), of "pivot @ [0]" ?l ?r]
    by (simp add: bt_split_off_def less_pivot_zero flip: not_less)
  obtain l r where s: "pcb_split_at b pivot = Some (l, r)" "cb_buffer l = Unpacked ?l" "cb_buffer r = Unpacked ?r"
    "excess l ?l = excess b m" "excess r ?r = 0"
    using pcb_split_off_spec [OF assms, of pivot] by (auto simp: pcb_split_at_def excess_def)
  have "sorted_keys ?r" "\<forall>j \<in> fst ` set ?l. \<forall>k \<in> fst ` set ?r. j < k"
    using assms(2) by (auto intro: sorted_keys_filter)
  then obtain b' r' d where "pcb_append lib l r = Some (b', r', d)" "cb_buffer b' = Unpacked (?l @ ?r)"
    "excess b' (?l @ ?r) = excess l ?l + excess r ?r" "contents lib r' = Some []"
    using pcb_append_contents [of lib l ?l r ?r] s by (auto simp: contents_def)
  with s lr show ?thesis by (auto simp: excess_def)
qed

text \<open>
  Splitting by size divides the entries at a key but not their sizes: the right part
  gets at least the minimal size by the count of the loop, which leaves out eight bytes per
  entry, so the maintained size of the right part is too small and that of the left part
  too large by eight bytes per moved entry.
\<close>

theorem split_size_drift:
  assumes "contents lib b = Some m" "sorted_keys m" "size_exact b m"
    "pcb_split lib b min_size max_size = Some (b', (r, pivot, lpk), d)"
  shows "\<exists>L R. m = L @ R \<and> cb_buffer b' = Unpacked L \<and> cb_buffer r = Unpacked R \<and> 0 < length R
    \<and> pivot = fst (last L) \<and> min_size \<le> entries_size r
    \<and> excess r R = - 8 * int (length R) \<and> excess b' L = 8 * int (length R)"
  using pcb_split_spec [OF assms(1,2,4)] assms(3) by (auto simp: size_exact_def excess_def)

text \<open>
  Deleting a range removes exactly the entries whose keys lie in it, but lowers the
  maintained size by nine bytes too little for each of them.
\<close>

theorem range_delete_entries:
  assumes "contents lib b = Some m" "sorted_keys m" "size_exact b m"
  shows "\<exists>b' d. pcb_range_delete lib b start end' = Some (b', d)
    \<and> cb_buffer b' = Unpacked (filter (\<lambda>e. \<not> in_range start end' (fst e)) m)
    \<and> excess b' (filter (\<lambda>e. \<not> in_range start end' (fst e)) m) =
        9 * int (length (filter (\<lambda>e. in_range start end' (fst e)) m))"
proof -
  let ?in = "filter (\<lambda>e. in_range start end' (fst e)) m" and ?out = "filter (\<lambda>e. \<not> in_range start end' (fst e)) m"
  obtain u where u: "unpacked lib (cb_buffer b) = Some (m, u)" using assms(1) by (rule contents_cases)
  have removes: "fold bt_remove ks x = filter (\<lambda>e. fst e \<notin> set ks) x" for ks and x :: entries
    by (induction ks arbitrary: x) (auto simp: bt_remove_def intro: filter_cong)
  have out: "fold bt_remove (map fst ?in) m = ?out"
    unfolding removes using assms(2)
    by (auto simp: sorted_keys_distinct intro!: filter_cong)
  let ?f = "\<lambda>key (msg :: key_info \<times> bytes). cow_size key + value_size (snd msg)"
  have part: "entry_sum f m = entry_sum f ?in + entry_sum f ?out" for f
    by (induction m) auto
  have nine: "entry_sum entry_size es = entry_sum ?f es + 9 * length es" for es
    by (induction es) (auto simp: entry_size_def key_info_size_def CSUM_SIZE_def)
  have "entry_sum ?f ?in \<le> entries_size b"
    using assms(3) part [of entry_size] nine [of ?in] by (simp add: size_exact_def)
  with u out assms(3) part [of entry_size] nine [of ?in] show ?thesis
    by (simp add: pcb_range_delete_def bt_range_def checked_sub_def excess_def size_exact_def Let_def)
qed

subsection \<open>Example buffers\<close>

definition sum_hash :: "bytes \<Rightarrow> 64 word" where
  "sum_hash v = word_of_nat (1 + sum_list (map unat v))"

definition example_lib :: csum_lib where
  "example_lib = \<lparr>cl_hash = sum_hash, cl_ser = (\<lambda>c. to_le 8 (unat c)), cl_de = (\<lambda>b. word_of_nat (from_le b))\<rparr>"

lemma example_lib_codec: "csum_codec example_lib"
proof -
  have "unat c < 256 ^ 8" for c :: "64 word" using unsigned_less [of c, where ?'a = nat] by simp
  then show ?thesis by (simp add: csum_codec_def example_lib_def CSUM_SIZE_def from_le_to_le)
qed

definition example_entries :: entries where
  "example_entries = [([1], \<lparr>ki_pref = 0\<rparr>, [1, 10]), ([2], \<lparr>ki_pref = 1\<rparr>, [1, 20]), ([4], \<lparr>ki_pref = 254\<rparr>, [1, 40])]"

definition example_buffer :: "bool \<Rightarrow> packed_child_buffer" where
  "example_buffer leaf = (pcb_new leaf)\<lparr>cb_buffer := Unpacked example_entries, entries_size := 84\<rparr>"

lemma example_buffer_facts:
  "cb_buffer (example_buffer leaf) = Unpacked example_entries" "is_leaf (example_buffer leaf) = leaf"
  "contents lib (example_buffer leaf) = Some example_entries" "sorted_keys example_entries"
  "size_exact (example_buffer leaf) example_entries" "valid_entries valid_msg example_entries"
  "size_covers (example_buffer leaf) example_entries" "entries_size (example_buffer leaf) = 84"
  by (simp_all add: example_buffer_def example_entries_def pcb_new_def size_exact_def size_covers_def entry_size_def
      cow_size_def value_size_def key_info_size_def CSUM_SIZE_def valid_entries_def valid_msg_def contents_def)

theorem flush_into_buffer_witness:
  "\<exists>b' delta m'. pcb_insert_msg_buffer example_lib default_message_action example_entries (example_buffer False) = Some (b', delta)
    \<and> contents example_lib b' = Some m' \<and> sorted_keys m' \<and> size_exact b' m'"
proof -
  have "\<not> is_leaf (example_buffer False)" by (simp add: example_buffer_facts)
  from flush_into_buffer [OF example_buffer_facts(4,6,3,4,5) this example_buffer_facts(6)] show ?thesis by blast
qed

theorem flush_into_leaf_witness:
  "\<exists>b' delta m'. pcb_insert_msg_buffer example_lib default_message_action example_entries (example_buffer True) = Some (b', delta)
    \<and> contents example_lib b' = Some m' \<and> leaf_value m' [1] = Some [10]"
proof -
  have "buffer_effect default_message_action example_entries [1] d = Some (Some [10])" for d
    by (simp add: buffer_effect_def bt_get_def example_entries_def default_message_action_def apply_bytes_simps)
  moreover have "is_leaf (example_buffer True)" by (simp add: example_buffer_facts)
  ultimately show ?thesis
    using flush_into_leaf [OF example_buffer_facts(4,6,3,4) size_covers_floor [OF example_buffer_facts(7)], of True example_lib] by (metis option.inject)
qed

theorem leaf_delete_keeps_size_witness:
  "\<exists>b' delta m'. pcb_insert example_lib default_message_action [2] \<lparr>ki_pref = 0\<rparr> [0] (example_buffer True) = Some (b', delta)
    \<and> contents example_lib b' = Some m' \<and> bt_get m' [2] = None \<and> excess b' m' = int (entry_size [2] (\<lparr>ki_pref = 1\<rparr>, [1, 20]))"
proof (rule leaf_delete_keeps_size [OF example_buffer_facts(3,4,5)])
  show "is_leaf (example_buffer True)" by (simp add: example_buffer_facts)
  show "bt_get example_entries [2] = Some (\<lparr>ki_pref = 1\<rparr>, [1, 20])" by (simp add: example_entries_def bt_get_def)
qed

theorem split_at_append_witness:
  "\<exists>l r b' r' d. pcb_split_at (example_buffer True) [3] = Some (l, r) \<and> pcb_append example_lib l r = Some (b', r', d)
    \<and> cb_buffer b' = Unpacked example_entries \<and> entries_size b' = 84"
  using split_at_append [OF example_buffer_facts(1,4,7), of True "[3]" example_lib]
  unfolding example_buffer_facts(8) by blast

theorem split_size_drift_witness:
  "\<exists>b' r pivot lpk d L R. pcb_split example_lib (example_buffer True) 20 20 = Some (b', (r, pivot, lpk), d)
    \<and> example_entries = L @ R \<and> cb_buffer r = Unpacked R \<and> excess r R = - 8 * int (length R)"
proof -
  have "\<exists>b' r pivot lpk d. pcb_split example_lib (example_buffer True) 20 20 = Some (b', (r, pivot, lpk), d)"
    by (simp add: pcb_split_def pcb_size_def example_buffer_def example_entries_def HEADER_def PER_KEY_BYTES_def
        key_info_size_def bt_split_off_def checked_sub_def Let_def)
  then obtain b' r pivot lpk d where
    "pcb_split example_lib (example_buffer True) 20 20 = Some (b', (r, pivot, lpk), d)" by blast
  with split_size_drift [OF example_buffer_facts(3,4,5) this] show ?thesis by blast
qed

theorem range_delete_entries_witness:
  "\<exists>b' d. pcb_range_delete example_lib (example_buffer True) [2] None = Some (b', d)
    \<and> cb_buffer b' = Unpacked (take 1 example_entries) \<and> excess b' (take 1 example_entries) = 18"
proof -
  have "filter (\<lambda>e. \<not> in_range [2] None (fst e)) example_entries = take 1 example_entries"
    "length (filter (\<lambda>e. in_range [2] None (fst e)) example_entries) = 2"
    by (simp_all add: example_entries_def in_range_def)
  with range_delete_entries [OF example_buffer_facts(3,4,5), of example_lib True "[2]" None] show ?thesis by simp
qed

end
