(* ===== verification/ObjectRef.thy ===== *)
theory ObjectRef
  imports PackedChildBuffer DiskOffset
begin

text \<open>
  \<^verbatim>\<open>betree/src/data_management/object_ptr.rs\<close> and \<^verbatim>\<open>impls.rs\<close>: the pointer to an object on disk
  and the reference a parent holds to a child, which names the object on disk, in the cache
  or in write-back, together with its pivot key. A reference read from disk is incomplete
  until the parent sets its index. \<open>None\<close> is a panic (\<^verbatim>\<open>unreachable!()\<close>).
\<close>

datatype decompression_tag = TagNone | TagLz4 | TagZstd

type_synonym generation = "64 word"

record object_pointer =
  op_decompression_tag :: decompression_tag
  op_checksum :: "64 word"
  op_offset :: disk_offset
  op_size :: "32 block"
  op_integrity_mode :: integrity_mode
  op_info :: dataset_id
  op_generation :: generation

definition object_pointer_static_size :: nat where
  "object_pointer_static_size = 1 + CSUM_SIZE + 8 + 8 + 8 + 4 + 8"

definition op_correct_preference :: "object_pointer \<Rightarrow> storage_preference option" where
  "op_correct_preference p = pref_new (storage_class (op_offset p))"

record modified_object_id =
  moid :: "64 word"
  mo_pref :: storage_preference

datatype object_key =
    KUnmodified disk_offset generation
  | KModified modified_object_id
  | KInWriteback modified_object_id

datatype obj_ref =
    Incomplete object_pointer
  | Unmodified object_pointer pivot_key
  | Modified modified_object_id pivot_key
  | InWriteback modified_object_id pivot_key

fun get_unmodified :: "obj_ref \<Rightarrow> object_pointer option" where
  "get_unmodified (Unmodified p _) = Some p"
| "get_unmodified (Incomplete p) = Some p"
| "get_unmodified _ = None"

fun set_index :: "obj_ref \<Rightarrow> pivot_key \<Rightarrow> obj_ref" where
  "set_index (Incomplete p) pk = Unmodified p pk"
| "set_index (Unmodified p _) pk = Unmodified p pk"
| "set_index (Modified mid _) pk = Modified mid pk"
| "set_index (InWriteback mid o_pk) pk = InWriteback mid o_pk"

fun or_index :: "obj_ref \<Rightarrow> pivot_key option" where
  "or_index (Incomplete _) = None"
| "or_index (Unmodified _ pk) = Some pk"
| "or_index (Modified _ pk) = Some pk"
| "or_index (InWriteback _ pk) = Some pk"

fun as_key :: "obj_ref \<Rightarrow> object_key option" where
  "as_key (Unmodified p _) = Some (KUnmodified (op_offset p) (op_generation p))"
| "as_key (Modified mid _) = Some (KModified mid)"
| "as_key (InWriteback mid _) = Some (KInWriteback mid)"
| "as_key (Incomplete _) = None"

definition root_ref_from_obj_ptr :: "object_pointer \<Rightarrow> obj_ref" where
  "root_ref_from_obj_ptr p = Unmodified p (Root (op_info p))"

fun or_correct_preference :: "obj_ref \<Rightarrow> storage_preference option" where
  "or_correct_preference (Unmodified p _) = op_correct_preference p"
| "or_correct_preference (Modified mid _) = Some (mo_pref mid)"
| "or_correct_preference (InWriteback mid _) = Some (mo_pref mid)"
| "or_correct_preference (Incomplete _) = None"

definition or_static_size :: nat where
  "or_static_size = object_pointer_static_size"

text \<open>Serialising writes the pointer of an unmodified object; reading gives an incomplete one.\<close>

fun or_serialize :: "obj_ref \<Rightarrow> object_pointer option" where
  "or_serialize (Unmodified p _) = Some p"
| "or_serialize _ = None"

definition or_deserialize :: "object_pointer \<Rightarrow> obj_ref" where
  "or_deserialize p = Incomplete p"

lemma set_index_key: "as_key r = Some k \<Longrightarrow> as_key (set_index r pk) = Some k"
  by (cases r) auto

lemma set_index_index: "or_index (set_index r pk) = Some pk \<or> (\<exists>mid o_pk. r = InWriteback mid o_pk)"
  by (cases r) auto

lemma or_serialize_roundtrip:
  "or_serialize r = Some p \<Longrightarrow> or_index r = Some pk \<Longrightarrow> set_index (or_deserialize p) pk = r"
  by (cases r) (auto simp: or_deserialize_def)

end
