(* ===== verification/Handler.thy ===== *)
theory Handler
  imports Allocator DefaultMessageAction RootTreeMsg ObjectRef
begin

text \<open>
  \<^verbatim>\<open>betree/src/database/handler.rs\<close> with \<^verbatim>\<open>storage_info.rs\<close>: the bookkeeping between the data management
  unit and the root tree. It caches the bitmaps of the segments, counts the free blocks, and
  queues the messages that bring the root tree up to date at the next sync. An object that is no
  longer needed is freed, or put on the dead list if a snapshot still contains it.

  The two root trees (the current one and the one of the last sync) appear as what a read of them
  returns. \<open>None\<close> is a panic. The serialised forms of the records of this module (\<^verbatim>\<open>bincode\<close>) are a
  parameter.
\<close>

subsection \<open>State\<close>

record storage_info =
  si_free :: "64 block"
  si_total :: "64 block"

datatype handler_error = TreeReadError

type_synonym tree_read = "bytes \<Rightarrow> handler_error + bytes option"

record handler =
  root_tree_inner :: "tree_read option"
  root_tree_snapshot :: "tree_read option"
  h_current_generation :: generation
  free_space :: "16 word \<rightharpoonup> storage_info"
  free_space_tier :: "storage_info list"
  delayed_messages :: "(bytes \<times> sliced_cow_bytes) list"
  last_snapshot_generation :: "dataset_id \<rightharpoonup> generation"
  allocators :: "segment_id \<rightharpoonup> segment_allocator"
  allocations :: "64 word"
  old_root_allocation :: "(disk_offset \<times> 32 block) option"

record db_codec =
  ser_storage_info :: "storage_info \<Rightarrow> bytes option"
  ser_dead_list_data :: "32 block \<Rightarrow> generation \<Rightarrow> bytes option"

datatype copy_on_write_event = Preserved | Removed

subsection \<open>Messages\<close>

definition update_allocation_bitmap_msg :: "disk_offset \<Rightarrow> 32 block \<Rightarrow> action \<Rightarrow> sliced_cow_bytes option" where
  "update_allocation_bitmap_msg offset sz act =
     (let segment_offset = segment_block_offset offset
      in upsert_bits_msg (unat segment_offset) (unat sz) (action_as_bool act))"

definition update_storage_info :: "db_codec \<Rightarrow> storage_info \<Rightarrow> sliced_cow_bytes option" where
  "update_storage_info cd info = do { b \<leftarrow> ser_storage_info cd info; upsert_msg 0 b }"

subsection \<open>Operations\<close>

definition bump_generation :: "handler \<Rightarrow> handler option" where
  "bump_generation h = do {
     g \<leftarrow> id_next (h_current_generation h);
     Some (h\<lparr>allocators := Map.empty, h_current_generation := g\<rparr>) }"

text \<open>The atomic counters of a disk and of its tier; they wrap.\<close>

definition count_free :: "action \<Rightarrow> 32 block \<Rightarrow> storage_info \<Rightarrow> storage_info" where
  "count_free act sz info = (case act of
     Deallocate \<Rightarrow> info\<lparr>si_free := si_free info + ucast sz\<rparr>
   | Allocate \<Rightarrow> info\<lparr>si_free := si_free info - ucast sz\<rparr>)"

definition account :: "action \<Rightarrow> disk_offset \<Rightarrow> 32 block \<Rightarrow> handler \<Rightarrow> handler option" where
  "account act offset sz h = do {
     info \<leftarrow> free_space h (class_disk_id offset);
     tier \<leftarrow> nth_opt (free_space_tier h) (unat (storage_class offset));
     Some (h\<lparr>free_space := (free_space h)(class_disk_id offset \<mapsto> count_free act sz info),
       free_space_tier := (free_space_tier h)[unat (storage_class offset) := count_free act sz tier]\<rparr>) }"

definition push_messages :: "db_codec \<Rightarrow> disk_offset \<Rightarrow> sliced_cow_bytes \<Rightarrow> handler \<Rightarrow> handler option" where
  "push_messages cd offset msg h = do {
     info \<leftarrow> free_space h (class_disk_id offset);
     info_msg \<leftarrow> update_storage_info cd info;
     Some (h\<lparr>delayed_messages := delayed_messages h
       @ [(id_to_key (segment_get offset), msg), (space_accounting_key (class_disk_id offset), info_msg)]\<rparr>) }"

definition update_allocation_bitmap :: "db_codec \<Rightarrow> disk_offset \<Rightarrow> 32 block \<Rightarrow> action \<Rightarrow> handler \<Rightarrow> handler option" where
  "update_allocation_bitmap cd offset sz act h = do {
     let h = h\<lparr>allocations := allocations h + 1\<rparr>;
     msg \<leftarrow> update_allocation_bitmap_msg offset sz act;
     h \<leftarrow> account act offset sz h;
     push_messages cd offset msg h }"

definition SEGMENT_SIZE_BYTES :: nat where "SEGMENT_SIZE_BYTES = SEGMENT_SIZE div 8"

text \<open>The bits of a byte string, least significant bit first; there is none beyond its end.\<close>

definition bits_of :: "bytes option \<Rightarrow> nat \<Rightarrow> bool" where
  "bits_of v i = (case v of None \<Rightarrow> False | Some d \<Rightarrow> i div 8 < length d \<and> bit (d ! (i div 8)) (i mod 8))"

definition get_allocation_bitmap :: "segment_id \<Rightarrow> handler \<Rightarrow> (handler_error + handler) option" where
  "get_allocation_bitmap sid h =
     (if allocators h sid \<noteq> None then Some (Inr h)
      else do {
        cur \<leftarrow> root_tree_inner h;
        let key = id_to_key sid;
        case cur key of
          Inl e \<Rightarrow> Some (Inl e)
        | Inr segment \<Rightarrow> do {
            assert_that (case segment of None \<Rightarrow> True | Some s \<Rightarrow> length s \<le> SEGMENT_SIZE_BYTES);
            case (case root_tree_snapshot h of None \<Rightarrow> Inr None | Some tree \<Rightarrow> tree key) of
              Inl e \<Rightarrow> Some (Inl e)
            | Inr old_segment \<Rightarrow> do {
                let allocator = segment_allocator_new (\<lambda>i. bits_of segment i \<or> bits_of old_segment i);
                allocator \<leftarrow> (case old_root_allocation h of
                    Some (offset, sz) \<Rightarrow>
                      if segment_get offset = sid
                      then map_option snd (allocate_at allocator (unat sz) (unat (segment_block_offset offset)))
                      else Some allocator
                  | None \<Rightarrow> Some allocator);
                Some (Inr (h\<lparr>allocators := (allocators h)(sid \<mapsto> allocator)\<rparr>)) } } })"

definition h_free_space_disk :: "handler \<Rightarrow> 16 word \<Rightarrow> storage_info option" where
  "h_free_space_disk h disk = free_space h disk"

definition h_free_space_tier :: "handler \<Rightarrow> 8 word \<Rightarrow> storage_info option" where
  "h_free_space_tier h class = nth_opt (free_space_tier h) (unat class)"

definition copy_on_write ::
  "db_codec \<Rightarrow> disk_offset \<Rightarrow> 32 block \<Rightarrow> generation \<Rightarrow> dataset_id \<Rightarrow> handler \<Rightarrow> (copy_on_write_event \<times> handler) option" where
  "copy_on_write cd offset sz generation ds h =
     (if (case last_snapshot_generation h ds of None \<Rightarrow> True | Some g \<Rightarrow> g < generation) then do {
        msg \<leftarrow> update_allocation_bitmap_msg offset sz Deallocate;
        h \<leftarrow> account Deallocate offset sz h;
        h \<leftarrow> push_messages cd offset msg h;
        Some (Removed, h) }
      else do {
        let key = deadlist_key ds (h_current_generation h) offset;
        d \<leftarrow> ser_dead_list_data cd sz generation;
        Some (Preserved, h\<lparr>delayed_messages := delayed_messages h @ [(key, insert_msg d)]\<rparr>) })"

subsection \<open>What is in use\<close>

text \<open>The bitmap of a segment in the two root trees, and what the queued messages make of the current one.\<close>

fun read_value :: "tree_read option \<Rightarrow> bytes \<Rightarrow> bytes option" where
  "read_value None key = None"
| "read_value (Some t) key = (case t key of Inl _ \<Rightarrow> None | Inr v \<Rightarrow> v)"

definition pending :: "handler \<Rightarrow> segment_id \<Rightarrow> bytes list" where
  "pending h sid = map (sliced_bytes \<circ> snd) (filter (\<lambda>m. fst m = id_to_key sid) (delayed_messages h))"

definition root_bits :: "handler \<Rightarrow> segment_id \<Rightarrow> nat \<Rightarrow> bool" where
  "root_bits h sid = bits_of (read_value (root_tree_inner h) (id_to_key sid))"

definition snapshot_bits :: "handler \<Rightarrow> segment_id \<Rightarrow> nat \<Rightarrow> bool" where
  "snapshot_bits h sid = bits_of (read_value (root_tree_snapshot h) (id_to_key sid))"

definition next_bits :: "handler \<Rightarrow> segment_id \<Rightarrow> nat \<Rightarrow> bool" where
  "next_bits h sid i = (case apply_all default_message_action (id_to_key sid) (pending h sid)
       (read_value (root_tree_inner h) (id_to_key sid)) of
     None \<Rightarrow> False | Some v \<Rightarrow> bits_of v i)"

definition old_root_bits :: "handler \<Rightarrow> segment_id \<Rightarrow> nat \<Rightarrow> bool" where
  "old_root_bits h sid i = (case old_root_allocation h of None \<Rightarrow> False
     | Some (offset, sz) \<Rightarrow> segment_get offset = sid \<and> unat (segment_block_offset offset) \<le> i
         \<and> i < unat (segment_block_offset offset) + unat sz)"

definition in_use :: "handler \<Rightarrow> segment_id \<Rightarrow> nat \<Rightarrow> bool" where
  "in_use h sid i \<longleftrightarrow> root_bits h sid i \<or> snapshot_bits h sid i \<or> next_bits h sid i"

text \<open>
  The invariant: the queued messages for a segment are bit updates inside it; a cached allocator
  covers the blocks in use; a segment without a cached allocator has no allocation queued
  besides the root node of the last sync, whose blocks the bitmaps contain all or none.
\<close>

definition bits_message :: "bytes \<Rightarrow> bool" where
  "bits_message m \<longleftrightarrow> (\<exists>off n v. off + n \<le> SEGMENT_SIZE \<and> m = 2 # encode_upserts [UBits off n v])"

definition old_root_ok :: "handler \<Rightarrow> bool" where
  "old_root_ok h \<longleftrightarrow> (case old_root_allocation h of None \<Rightarrow> True
     | Some (offset, sz) \<Rightarrow> 0 < unat sz \<and> unat (segment_block_offset offset) + unat sz \<le> SEGMENT_SIZE
         \<and> ((\<forall>i. old_root_bits h (segment_get offset) i \<longrightarrow> root_bits h (segment_get offset) i \<or> snapshot_bits h (segment_get offset) i)
            \<or> (\<forall>i. old_root_bits h (segment_get offset) i \<longrightarrow> \<not> root_bits h (segment_get offset) i \<and> \<not> snapshot_bits h (segment_get offset) i)))"

definition handler_inv :: "handler \<Rightarrow> bool" where
  "handler_inv h \<longleftrightarrow> (\<forall>sid. \<forall>m \<in> set (pending h sid). bits_message m)
     \<and> (\<forall>sid a. allocators h sid = Some a \<longrightarrow> allocator_inv a \<and> (\<forall>i < SEGMENT_SIZE. in_use h sid i \<longrightarrow> sa_data a i))
     \<and> (\<forall>sid i. allocators h sid = None \<longrightarrow> next_bits h sid i \<longrightarrow> root_bits h sid i \<or> snapshot_bits h sid i \<or> old_root_bits h sid i)
     \<and> old_root_ok h"

lemma handler_invD:
  assumes "handler_inv h"
  shows "m \<in> set (pending h sid) \<Longrightarrow> bits_message m" "allocators h sid = Some a \<Longrightarrow> allocator_inv a"
    "allocators h sid = Some a \<Longrightarrow> i < SEGMENT_SIZE \<Longrightarrow> in_use h sid i \<Longrightarrow> sa_data a i"
    "allocators h sid = None \<Longrightarrow> next_bits h sid i \<Longrightarrow> root_bits h sid i \<or> snapshot_bits h sid i \<or> old_root_bits h sid i"
    "old_root_ok h"
  using assms unfolding handler_inv_def by blast+

lemma id_to_key_inj [simp]: "id_to_key s = id_to_key s' \<longleftrightarrow> s = s'"
  using id_pack_inj [of s s'] by (simp add: id_to_key_def id_pack_def)

lemma bits_upsert:
  assumes "off + n < 2 ^ 30"
  shows "\<exists>d'. apply_bytes k (2 # encode_upserts [UBits off n v]) d = Some (Some d')
    \<and> (\<forall>i. bits_of (Some d') i = (if off \<le> i \<and> i < off + n then v else bits_of d i))"
proof -
  define d0 where "d0 = (case d of None \<Rightarrow> [] | Some b \<Rightarrow> b)"
  have small: "off + n < 2 ^ 32" using assms by simp
  obtain d' where d': "apply_upsert (UBits off n v) d0 = Some d'" "length d' = max (length d0) ((off + n + 7) div 8)"
    "\<forall>j < length d'. \<forall>k < 8. bit (d' ! j) k = (if off \<le> 8 * j + k \<and> 8 * j + k < off + n then v else j < length d0 \<and> bit (d0 ! j) k)"
    using bit_upsert_effect [OF small, of v d0] by blast
  have "apply_bytes k (2 # encode_upserts [UBits off n v]) d = Some (Some d')"
    using assms d'(1) small unfolding d0_def by (subst apply_bytes_simps(3)) simp_all
  moreover have "bits_of (Some d') i = (if off \<le> i \<and> i < off + n then v else bits_of d i)" for i
  proof (cases "i div 8 < length d'")
    case True
    have i: "8 * (i div 8) + i mod 8 = i" by simp
    have "bit (d' ! (i div 8)) (i mod 8) = (if off \<le> 8 * (i div 8) + i mod 8 \<and> 8 * (i div 8) + i mod 8 < off + n then v
        else i div 8 < length d0 \<and> bit (d0 ! (i div 8)) (i mod 8))"
      using d'(3) True by (metis mod_less_divisor zero_less_numeral)
    then show ?thesis unfolding i using True by (auto simp: bits_of_def d0_def split: option.splits)
  next
    case False
    then have "(off + n + 7) div 8 \<le> i div 8" "length d0 \<le> i div 8" using d'(2) by auto
    then have "off + n \<le> i" by linarith
    then show ?thesis using False \<open>length d0 \<le> i div 8\<close> by (auto simp: bits_of_def d0_def split: option.splits)
  qed
  ultimately show ?thesis by blast
qed

lemma SEGMENT_SIZE_30: "SEGMENT_SIZE < 2 ^ 30"
  by (simp add: SEGMENT_SIZE_def SEGMENT_SIZE_LOG_2_def)

lemma bits_messages_total:
  assumes "\<forall>m \<in> set ms. bits_message m"
  shows "\<exists>d'. apply_all default_message_action k ms d = Some d'"
  using assms
proof (induction ms arbitrary: d)
  case (Cons m ms)
  obtain off n v where m: "off + n \<le> SEGMENT_SIZE" "m = 2 # encode_upserts [UBits off n v]" using Cons.prems by (auto simp: bits_message_def)
  then obtain d' where "apply_bytes k m d = Some (Some d')" using bits_upsert [of off n k v d] SEGMENT_SIZE_30 by auto
  then show ?case using Cons by (simp add: default_message_action_def)
qed simp

text \<open>Queueing one more bit update.\<close>

lemma next_bits_push:
  assumes "\<forall>m \<in> set (pending h sid). bits_message m" "off + n \<le> SEGMENT_SIZE" "root_tree_inner h' = root_tree_inner h"
    "pending h' sid = pending h sid @ [2 # encode_upserts [UBits off n v]]"
  shows "next_bits h' sid i = (if off \<le> i \<and> i < off + n then v else next_bits h sid i)"
proof -
  obtain d where d: "apply_all default_message_action (id_to_key sid) (pending h sid) (read_value (root_tree_inner h) (id_to_key sid)) = Some d"
    using bits_messages_total [OF assms(1)] by blast
  obtain d' where "apply_bytes (id_to_key sid) (2 # encode_upserts [UBits off n v]) d = Some (Some d')"
    "\<forall>i. bits_of (Some d') i = (if off \<le> i \<and> i < off + n then v else bits_of d i)"
    using bits_upsert [of off n] assms(2) SEGMENT_SIZE_30 by (metis le_less_trans)
  then show ?thesis using d by (simp add: next_bits_def assms(3,4) apply_all_append default_message_action_def)
qed

lemma update_allocation_bitmap_msg_bytes:
  assumes "update_allocation_bitmap_msg offset sz act = Some msg"
  shows "sliced_bytes msg = 2 # encode_upserts [UBits (unat (segment_block_offset offset)) (unat sz) (action_as_bool act)]"
proof -
  let ?us = "[UBits (unat (segment_block_offset offset)) (unat sz) (action_as_bool act)]"
  have "msg = sliced_of_cow (2 # encode_upserts ?us)"
    using assms unfolding update_allocation_bitmap_msg_def upsert_bits_msg_def build_upsert_msg_def foldl_append_upsert Let_def
    by (simp split: if_splits)
  moreover have "length (2 # encode_upserts ?us) < 2 ^ 32" by (simp add: length_encode_upserts)
  ultimately show ?thesis by (simp only: sliced_of_cow_bytes)
qed

lemma space_key_no_segment [simp]: "space_accounting_key x \<noteq> id_to_key s" "deadlist_key ds g d \<noteq> id_to_key s"
  by (simp_all add: space_accounting_key_def deadlist_key_def id_to_key_def prefixes)

lemma account_facts:
  assumes "account act offset sz h = Some h'"
  shows "delayed_messages h' = delayed_messages h" "allocators h' = allocators h" "root_tree_inner h' = root_tree_inner h"
    "root_tree_snapshot h' = root_tree_snapshot h" "old_root_allocation h' = old_root_allocation h" "h_current_generation h' = h_current_generation h"
    "last_snapshot_generation h' = last_snapshot_generation h"
    "free_space h' (class_disk_id offset) = map_option (count_free act sz) (free_space h (class_disk_id offset))"
  using assms by (auto simp: account_def split: bind_splits)

lemma push_messages_facts:
  assumes "push_messages cd offset msg h = Some h'"
  shows "h' = h\<lparr>delayed_messages := delayed_messages h'\<rparr>"
    "pending h' sid = pending h sid @ (if sid = segment_get offset then [sliced_bytes msg] else [])"
  using assms by (auto simp: push_messages_def pending_def split: bind_splits)

lemma same_bits:
  assumes "root_tree_inner h' = root_tree_inner h" "root_tree_snapshot h' = root_tree_snapshot h" "old_root_allocation h' = old_root_allocation h"
  shows "root_bits h' = root_bits h" "snapshot_bits h' = snapshot_bits h" "old_root_bits h' = old_root_bits h" "old_root_ok h' = old_root_ok h"
proof -
  show eqs: "root_bits h' = root_bits h" "snapshot_bits h' = snapshot_bits h" "old_root_bits h' = old_root_bits h"
    using assms by (simp_all add: root_bits_def snapshot_bits_def old_root_bits_def fun_eq_iff)
  show "old_root_ok h' = old_root_ok h" unfolding old_root_ok_def eqs assms(3) ..
qed

lemma next_bits_same:
  "root_tree_inner h' = root_tree_inner h \<Longrightarrow> pending h' sid = pending h sid \<Longrightarrow> next_bits h' sid = next_bits h sid"
  by (simp add: next_bits_def fun_eq_iff)

text \<open>
  A bit update is queued: the other segments are as before, and the invariant holds again if the
  cached allocator of the segment covers the blocks that came into use.
\<close>

lemma queue_bits:
  assumes inv: "handler_inv h" and len: "unat (segment_block_offset offset) + unat sz \<le> SEGMENT_SIZE"
    and msg: "update_allocation_bitmap_msg offset sz act = Some msg"
    and h1: "account act offset sz (h\<lparr>allocations := x\<rparr>) = Some h1" and h2: "push_messages cd offset msg h1 = Some h2"
  shows "allocators h2 = allocators h"
    "next_bits h2 sid i = (if sid = segment_get offset \<and> unat (segment_block_offset offset) \<le> i
        \<and> i < unat (segment_block_offset offset) + unat sz then action_as_bool act else next_bits h sid i)"
    "root_bits h2 = root_bits h" "snapshot_bits h2 = snapshot_bits h" "old_root_bits h2 = old_root_bits h" "old_root_ok h2 = old_root_ok h"
    "m \<in> set (pending h2 sid) \<Longrightarrow> bits_message m"
proof -
  note a = account_facts [OF h1]
  note p1 = push_messages_facts(1) [OF h2]
  have p: "pending h2 sid = pending h sid @ (if sid = segment_get offset then [sliced_bytes msg] else [])" for sid
    using push_messages_facts(2) [OF h2, of sid] a(1) by (simp add: pending_def)
  show "allocators h2 = allocators h" by (subst p1) (simp add: a)
  have same: "root_tree_inner h2 = root_tree_inner h" "root_tree_snapshot h2 = root_tree_snapshot h" "old_root_allocation h2 = old_root_allocation h"
    by (subst p1, simp add: a)+
  show "root_bits h2 = root_bits h" "snapshot_bits h2 = snapshot_bits h" "old_root_bits h2 = old_root_bits h" "old_root_ok h2 = old_root_ok h"
    by (rule same_bits [OF same])+
  note bytes = update_allocation_bitmap_msg_bytes [OF msg]
  show "next_bits h2 sid i = (if sid = segment_get offset \<and> unat (segment_block_offset offset) \<le> i
        \<and> i < unat (segment_block_offset offset) + unat sz then action_as_bool act else next_bits h sid i)"
  proof (cases "sid = segment_get offset")
    case True
    then have "pending h2 sid = pending h sid @ [2 # encode_upserts [UBits (unat (segment_block_offset offset)) (unat sz) (action_as_bool act)]]"
      using p [of sid] bytes by simp
    from next_bits_push [OF _ len same(1) this] handler_invD(1) [OF inv] True show ?thesis by simp
  qed (use p [of sid] next_bits_same [OF same(1)] in simp)
  show "m \<in> set (pending h2 sid) \<Longrightarrow> bits_message m"
    using p [of sid] handler_invD(1) [OF inv] bytes len by (auto simp: bits_message_def split: if_splits)
qed

text \<open>Freeing never touches the cached allocators, so the blocks stay out of reach until the next sync.\<close>

lemma queue_deallocate:
  assumes inv: "handler_inv h" and len: "unat (segment_block_offset offset) + unat sz \<le> SEGMENT_SIZE"
    and msg: "update_allocation_bitmap_msg offset sz Deallocate = Some msg"
    and h1: "account Deallocate offset sz (h\<lparr>allocations := x\<rparr>) = Some h1" and h2: "push_messages cd offset msg h1 = Some h2"
  shows "handler_inv h2"
proof -
  note q = queue_bits [OF assms]
  have "next_bits h2 sid i \<Longrightarrow> next_bits h sid i" for sid i using q(2) [of sid i] by (auto split: if_splits)
  then show ?thesis using inv unfolding handler_inv_def in_use_def q(1,3,4,5,6) using q(7) by blast
qed

lemma queue_allocate:
  assumes inv: "handler_inv h" and len: "unat (segment_block_offset offset) + unat sz \<le> SEGMENT_SIZE"
    and a: "allocators h (segment_get offset) = Some a"
      "\<forall>i. unat (segment_block_offset offset) \<le> i \<and> i < unat (segment_block_offset offset) + unat sz \<longrightarrow> sa_data a i"
    and upd: "update_allocation_bitmap cd offset sz Allocate h = Some h'"
  shows "handler_inv h'" "allocators h' = allocators h"
    "in_use h' sid i \<longleftrightarrow> in_use h sid i \<or> sid = segment_get offset \<and> unat (segment_block_offset offset) \<le> i
       \<and> i < unat (segment_block_offset offset) + unat sz"
proof -
  obtain msg h1 where m: "update_allocation_bitmap_msg offset sz Allocate = Some msg"
    "account Allocate offset sz (h\<lparr>allocations := allocations h + 1\<rparr>) = Some h1" "push_messages cd offset msg h1 = Some h'"
    using upd by (auto simp: update_allocation_bitmap_def Let_def split: bind_splits)
  note q = queue_bits [OF inv len m]
  show "allocators h' = allocators h" by (rule q(1))
  show use: "in_use h' sid i \<longleftrightarrow> in_use h sid i \<or> sid = segment_get offset \<and> unat (segment_block_offset offset) \<le> i
       \<and> i < unat (segment_block_offset offset) + unat sz" for sid i
    unfolding in_use_def q(3,4) using q(2) [of sid i] by auto
  have "allocators h' sid = None \<Longrightarrow> next_bits h' sid i = next_bits h sid i" for sid i
    using q(1,2) a(1) by (metis option.distinct(1))
  then show "handler_inv h'" using handler_invD [OF inv] a q(7) unfolding handler_inv_def q(6) use unfolding q(1,3,4,5) by auto
qed

subsection \<open>Loading a bitmap\<close>

lemma read_value_simps: "root_tree_inner h = Some t \<Longrightarrow> t (id_to_key sid) = Inr v \<Longrightarrow> root_bits h sid = bits_of v"
  "(case root_tree_snapshot h of None \<Rightarrow> Inr None | Some tree \<Rightarrow> tree (id_to_key sid)) = (Inr w :: handler_error + bytes option)
     \<Longrightarrow> snapshot_bits h sid = bits_of w"
  by (auto simp: root_bits_def snapshot_bits_def split: option.splits)

lemma bits_of_None [simp]: "bits_of None = (\<lambda>i. False)"
  by (simp add: bits_of_def fun_eq_iff)

text \<open>The allocator of a segment covers what is in use: both bitmaps and the root node of the last sync.\<close>

lemma load_allocator:
  assumes inv: "handler_inv h" and none: "allocators h sid = None"
    and a: "(case old_root_allocation h of
        Some (offset, sz) \<Rightarrow> if segment_get offset = sid
          then map_option snd (allocate_at (segment_allocator_new bits) (unat sz) (unat (segment_block_offset offset)))
          else Some (segment_allocator_new bits)
      | None \<Rightarrow> Some (segment_allocator_new bits)) = Some a"
    and bits: "\<And>i. bits i \<longleftrightarrow> root_bits h sid i \<or> snapshot_bits h sid i"
  shows "allocator_inv a \<and> (\<forall>i < SEGMENT_SIZE. in_use h sid i \<longrightarrow> sa_data a i)"
proof -
  have new: "allocator_inv (segment_allocator_new bits)" "sa_data (segment_allocator_new bits) = bits"
    by (rule allocator_new_spec) (simp add: segment_allocator_new_def initialize_free_segments_def)
  have use: "in_use h sid i \<longleftrightarrow> bits i \<or> next_bits h sid i" for i by (auto simp: in_use_def bits)
  show ?thesis
  proof (cases "\<exists>offset sz. old_root_allocation h = Some (offset, sz) \<and> segment_get offset = sid")
    case True
    then obtain offset sz where old: "old_root_allocation h = Some (offset, sz)" "segment_get offset = sid" by blast
    let ?o = "unat (segment_block_offset offset)"
    have ok: "0 < unat sz" "?o + unat sz \<le> SEGMENT_SIZE" "(\<forall>i. old_root_bits h sid i \<longrightarrow> bits i) \<or> (\<forall>i. old_root_bits h sid i \<longrightarrow> \<not> bits i)"
      using handler_invD(5) [OF inv] old by (auto simp: old_root_ok_def bits)
    have ob: "old_root_bits h sid i \<longleftrightarrow> ?o \<le> i \<and> i < ?o + unat sz" for i using old by (simp add: old_root_bits_def)
    have small: "?o + unat sz < 2 ^ 32" using ok(2) SEGMENT_SIZE_less by linarith
    obtain b where at: "allocate_at (segment_allocator_new bits) (unat sz) ?o = Some (b, a)" using a old by auto
    note k = sga.alloc_at_keeps [OF new(1) ok(1) small at]
    have "sa_data a i" if "old_root_bits h sid i" for i
    proof (cases b)
      case True
      then show ?thesis using k(3) that ob by blast
    next
      case False
      have spec: "case allocate_at (segment_allocator_new bits) (unat sz) ?o of None \<Rightarrow> False
          | Some (False, a') \<Rightarrow> a' = segment_allocator_new bits \<and> \<not> free_range (segment_allocator_new bits) ?o (unat sz)
          | Some (True, a') \<Rightarrow> free_range (segment_allocator_new bits) ?o (unat sz) \<and> allocator_inv a'
              \<and> sa_data a' = (\<lambda>i. sa_data (segment_allocator_new bits) i \<or> ?o \<le> i \<and> i < ?o + unat sz)"
        by (rule allocate_at_spec [OF new(1) ok(1) small])
      with False at have "a = segment_allocator_new bits" "\<not> free_range (segment_allocator_new bits) ?o (unat sz)" by simp_all
      then show ?thesis using ok(2,3) ob that new(2) by (auto simp: free_range_def)
    qed
    moreover have "sa_data a i" if "bits i" for i using k(2) that new(2) by simp
    ultimately show ?thesis using k(1) handler_invD(4) [OF inv none] unfolding use bits by blast
  next
    case False
    then have "a = segment_allocator_new bits" using a by (auto split: option.splits if_splits)
    moreover have "\<not> old_root_bits h sid i" for i using False by (auto simp: old_root_bits_def split: option.splits)
    ultimately show ?thesis using new handler_invD(4) [OF inv none] unfolding use bits by auto
  qed
qed

lemma get_allocation_bitmap_spec:
  assumes inv: "handler_inv h" and get: "get_allocation_bitmap sid h = Some (Inr h')"
  shows "handler_inv h'" "\<exists>a. allocators h' sid = Some a" "h' = h\<lparr>allocators := allocators h'\<rparr>"
    "in_use h' = in_use h"
proof -
  have "handler_inv h' \<and> (\<exists>a. allocators h' sid = Some a) \<and> h' = h\<lparr>allocators := allocators h'\<rparr>"
  proof (cases "allocators h sid")
    case (Some a)
    then have "h' = h" using get by (simp add: get_allocation_bitmap_def)
    then show ?thesis using inv Some by simp
  next
    case None
    obtain cur segment where cur: "root_tree_inner h = Some cur" "cur (id_to_key sid) = Inr segment"
      using get None by (auto simp: get_allocation_bitmap_def Let_def split: bind_splits sum.splits)
    obtain old_segment where old: "(case root_tree_snapshot h of None \<Rightarrow> Inr None | Some tree \<Rightarrow> tree (id_to_key sid)) = (Inr old_segment :: handler_error + bytes option)"
      using get None cur by (simp add: get_allocation_bitmap_def Let_def split: bind_splits sum.splits if_splits)
    define bits where "bits = (\<lambda>i. bits_of segment i \<or> bits_of old_segment i)"
    have bits: "bits i \<longleftrightarrow> root_bits h sid i \<or> snapshot_bits h sid i" for i
      using read_value_simps(1) [of h cur sid, OF cur] read_value_simps(2) [OF old] by (simp add: bits_def)
    obtain a where a: "(case old_root_allocation h of
        Some (offset, sz) \<Rightarrow> if segment_get offset = sid
          then map_option snd (allocate_at (segment_allocator_new bits) (unat sz) (unat (segment_block_offset offset)))
          else Some (segment_allocator_new bits)
      | None \<Rightarrow> Some (segment_allocator_new bits)) = Some a" "h' = h\<lparr>allocators := (allocators h)(sid \<mapsto> a)\<rparr>"
      using get None cur old
      by (simp add: get_allocation_bitmap_def Let_def bits_def [symmetric] split: if_splits) (simp only: bind_eq_Some_conv, elim exE conjE, simp)
    note load = load_allocator [OF inv None a(1) bits]
    have sb: "root_bits h' = root_bits h" "snapshot_bits h' = snapshot_bits h" "old_root_bits h' = old_root_bits h" "old_root_ok h' = old_root_ok h"
      by (rule same_bits; simp add: a(2))+
    have nb: "next_bits h' = next_bits h" "pending h' = pending h" by (auto simp: fun_eq_iff next_bits_def pending_def a(2))
    have "handler_inv h'" using handler_invD [OF inv] load unfolding handler_inv_def in_use_def sb nb by (auto simp: a(2) in_use_def)
    then show ?thesis by (simp add: a(2))
  qed
  then show inv': "handler_inv h'" "\<exists>a. allocators h' sid = Some a" and upd: "h' = h\<lparr>allocators := allocators h'\<rparr>" by blast+
  have "root_bits h' = root_bits h" "snapshot_bits h' = snapshot_bits h" "next_bits h' = next_bits h"
    by (subst upd, simp add: root_bits_def snapshot_bits_def next_bits_def pending_def fun_eq_iff)+
  then show "in_use h' = in_use h" by (simp add: in_use_def fun_eq_iff)
qed

subsection \<open>Snapshots\<close>

text \<open>
  C7. Copy on write keeps what a snapshot contains: an object born no later than the last snapshot
  of its dataset goes on the dead list, under a key with its offset, and no block leaves use. Any
  other object is removed: exactly its blocks are free after the next sync. In both cases the
  allocators in use are left alone, so no freed block is given out before that sync, and the
  invariant of the handler is kept.
\<close>

theorem copy_on_write_snapshots:
  assumes "handler_inv h" "unat (segment_block_offset offset) + unat sz \<le> SEGMENT_SIZE"
    "copy_on_write cd offset sz g ds h = Some (ev, h')"
  shows "handler_inv h' \<and> allocators h' = allocators h
    \<and> (if \<exists>s. last_snapshot_generation h ds = Some s \<and> g \<le> s
       then ev = Preserved \<and> next_bits h' = next_bits h \<and> free_space h' = free_space h
         \<and> (\<exists>d. delayed_messages h' = delayed_messages h @ [(deadlist_key ds (h_current_generation h) offset, insert_msg d)])
       else ev = Removed \<and> (\<forall>sid i. next_bits h' sid i \<longleftrightarrow> next_bits h sid i
         \<and> \<not> (sid = segment_get offset \<and> unat (segment_block_offset offset) \<le> i \<and> i < unat (segment_block_offset offset) + unat sz)))"
proof (cases "\<exists>s. last_snapshot_generation h ds = Some s \<and> g \<le> s")
  case True
  then have "\<not> (case last_snapshot_generation h ds of None \<Rightarrow> True | Some s \<Rightarrow> s < g)" by auto
  then obtain d where d: "ev = Preserved" "h' = h\<lparr>delayed_messages := delayed_messages h @ [(deadlist_key ds (h_current_generation h) offset, insert_msg d)]\<rparr>"
    using assms(3) by (auto simp: copy_on_write_def Let_def split: bind_splits)
  have sb: "root_bits h' = root_bits h" "snapshot_bits h' = snapshot_bits h" "old_root_bits h' = old_root_bits h" "old_root_ok h' = old_root_ok h"
    by (rule same_bits; simp add: d(2))+
  have pend: "pending h' = pending h" by (simp add: fun_eq_iff pending_def d(2))
  then have nb: "next_bits h' = next_bits h" by (simp add: fun_eq_iff next_bits_def d(2))
  have "handler_inv h'" using assms(1) unfolding handler_inv_def in_use_def sb pend nb by (simp add: d(2))
  with True d nb show ?thesis by auto
next
  case False
  then have "case last_snapshot_generation h ds of None \<Rightarrow> True | Some s \<Rightarrow> s < g" by (auto split: option.splits)
  then obtain msg h1 where m: "update_allocation_bitmap_msg offset sz Deallocate = Some msg"
    "account Deallocate offset sz (h\<lparr>allocations := allocations h\<rparr>) = Some h1" "push_messages cd offset msg h1 = Some h'" and ev: "ev = Removed"
    using assms(3) by (auto simp: copy_on_write_def Let_def split: bind_splits)
  note q = queue_bits [OF assms(1,2) m]
  show ?thesis using queue_deallocate [OF assms(1,2) m] q(1) q(2) ev False by auto
qed

definition example_codec :: db_codec where
  "example_codec = \<lparr>ser_storage_info = (\<lambda>_. Some [1]), ser_dead_list_data = (\<lambda>_ _. Some [2])\<rparr>"

text \<open>One disk with blocks 0 to 7 of its first segment in use; dataset 5 has a snapshot of generation 3.\<close>

definition example_handler :: handler where
  "example_handler = \<lparr>root_tree_inner = Some (\<lambda>k. Inr (if k = id_to_key 0 then Some [255] else None)), root_tree_snapshot = None,
     h_current_generation = 4, free_space = [0 \<mapsto> \<lparr>si_free = 100, si_total = 108\<rparr>], free_space_tier = [\<lparr>si_free = 100, si_total = 108\<rparr>],
     delayed_messages = [], last_snapshot_generation = [5 \<mapsto> 3], allocators = Map.empty, allocations = 0, old_root_allocation = None\<rparr>"

lemma example_handler_inv: "handler_inv example_handler"
  by (simp add: handler_inv_def example_handler_def pending_def next_bits_def root_bits_def old_root_ok_def)

lemma example_handler_bits: "next_bits example_handler 0 i \<longleftrightarrow> i < 8"
proof -
  have byte: "bit (255 :: byte) n \<longleftrightarrow> n < 8" for n
    using bit_mask_iff [of 8 n, where ?'a = "8 word"] bit_imp_le_length [of "255 :: byte" n] by (auto simp: mask_eq_exp_minus_1)
  have "next_bits example_handler 0 i \<longleftrightarrow> i div 8 < 1 \<and> bit ([255 :: byte] ! (i div 8)) (i mod 8)"
    by (simp add: next_bits_def example_handler_def pending_def bits_of_def)
  also have "\<dots> \<longleftrightarrow> i < 8"
  proof (cases "i < 8")
    case True
    then show ?thesis using byte [of i] by simp
  qed auto
  finally show ?thesis .
qed

theorem copy_on_write_snapshots_witness:
  "(\<exists>h'. copy_on_write example_codec 2 3 3 5 example_handler = Some (Preserved, h') \<and> next_bits h' 0 2)
   \<and> (\<exists>h'. copy_on_write example_codec 2 3 4 5 example_handler = Some (Removed, h') \<and> next_bits h' 0 1 \<and> \<not> next_bits h' 0 2 \<and> \<not> next_bits h' 0 4 \<and> next_bits h' 0 5)"
proof -
  have off: "segment_get 2 = 0" "segment_block_offset 2 = 2" "class_disk_id 2 = 0" "storage_class 2 = 0"
    by (simp_all add: segment_get_def segment_block_offset_def mask_eq_exp_minus_1 class_disk_id_def storage_class_def)
  have len: "unat (segment_block_offset 2) + unat (3 :: 32 word) \<le> SEGMENT_SIZE"
    by (simp add: off SEGMENT_SIZE_def SEGMENT_SIZE_LOG_2_def)
  have "copy_on_write example_codec 2 3 3 5 example_handler \<noteq> None" "copy_on_write example_codec 2 3 4 5 example_handler \<noteq> None"
    by (simp_all add: copy_on_write_def example_handler_def example_codec_def Let_def off update_allocation_bitmap_msg_def upsert_bits_msg_def
        build_upsert_msg_def account_def push_messages_def update_storage_info_def upsert_msg_def nth_opt_def)
  then obtain ev1 h1 ev2 h2 where r: "copy_on_write example_codec 2 3 3 5 example_handler = Some (ev1, h1)"
    "copy_on_write example_codec 2 3 4 5 example_handler = Some (ev2, h2)" by (metis not_Some_eq prod.exhaust)
  have snap: "last_snapshot_generation example_handler 5 = Some 3" by (simp add: example_handler_def)
  show ?thesis
    using copy_on_write_snapshots [OF example_handler_inv len r(1)] copy_on_write_snapshots [OF example_handler_inv len r(2)] r
    by (simp add: snap off example_handler_bits)
qed

end
