(* ===== verification/Clock.thy ===== *)
theory Clock
  imports Prelude
begin

text \<open>
  \<^verbatim>\<open>betree/src/cache/clock.rs\<close>: a circular singly linked list behind a pointer to its tail, with
  explicit allocation and release of its entries. The model has the heap the entries live in.
  An access to an entry that was not allocated or was released is undefined behaviour and is
  \<open>None\<close>; so is a loop that does not end. \<^verbatim>\<open>Box::new\<close> returns an address that is not in use, which
  is an argument of \<open>push_back\<close>. Every operation refines one on lists, never touches a released
  entry and leaves exactly the entries of the list allocated.
\<close>

type_synonym addr = nat

record 'a clock_entry =
  ce_value :: 'a
  ce_next :: addr

type_synonym 'a clock_heap = "addr \<rightharpoonup> 'a clock_entry"

subsection \<open>Operations on the heap\<close>

definition clock_default :: "addr option" where
  "clock_default = None"

definition pop_front :: "'a clock_heap \<Rightarrow> addr option \<Rightarrow> ('a clock_heap \<times> addr option \<times> 'a option) option" where
  "pop_front h tl_ptr = (case tl_ptr of
     None \<Rightarrow> Some (h, None, None)
   | Some t \<Rightarrow> do {
       te \<leftarrow> h t;
       let head = ce_next te;
       he \<leftarrow> h head;
       let (h', tl_ptr') = (if head \<noteq> t then (h(t \<mapsto> te\<lparr>ce_next := ce_next he\<rparr>), Some t) else (h, None));
       Some (h'(head := None), tl_ptr', Some (ce_value he)) })"

definition peek_front :: "'a clock_heap \<Rightarrow> addr option \<Rightarrow> 'a option option" where
  "peek_front h tl_ptr = (case tl_ptr of
     None \<Rightarrow> Some None
   | Some t \<Rightarrow> do { te \<leftarrow> h t; he \<leftarrow> h (ce_next te); Some (Some (ce_value he)) })"

definition clock_next :: "'a clock_heap \<Rightarrow> addr option \<Rightarrow> addr option option" where
  "clock_next h tl_ptr = (case tl_ptr of
     None \<Rightarrow> Some None
   | Some t \<Rightarrow> do { te \<leftarrow> h t; Some (Some (ce_next te)) })"

definition push_back :: "'a clock_heap \<Rightarrow> addr option \<Rightarrow> addr \<Rightarrow> 'a \<Rightarrow> ('a clock_heap \<times> addr option) option" where
  "push_back h tl_ptr entry value = (case tl_ptr of
     None \<Rightarrow> Some (h(entry \<mapsto> \<lparr>ce_value = value, ce_next = entry\<rparr>), Some entry)
   | Some t \<Rightarrow> do {
       te \<leftarrow> h t;
       Some (h(entry \<mapsto> \<lparr>ce_value = value, ce_next = ce_next te\<rparr>, t \<mapsto> te\<lparr>ce_next := entry\<rparr>), Some entry) })"

text \<open>An iterator is the entry it is at, if any, and the last one.\<close>

record clock_iter =
  it_current :: "addr option"
  it_last :: addr

definition iter_start :: "'a clock_heap \<Rightarrow> addr option \<Rightarrow> clock_iter option" where
  "iter_start h tl_ptr = (case tl_ptr of
     None \<Rightarrow> Some \<lparr>it_current = None, it_last = 0\<rparr>
   | Some t \<Rightarrow> do { te \<leftarrow> h t; Some \<lparr>it_current = Some (ce_next te), it_last = t\<rparr> })"

definition iter_next :: "'a clock_heap \<Rightarrow> clock_iter \<Rightarrow> ((addr \<times> 'a) option \<times> clock_iter) option" where
  "iter_next h it = (case it_current it of
     None \<Rightarrow> Some (None, it)
   | Some c \<Rightarrow> do {
       e \<leftarrow> h c;
       Some (Some (c, ce_value e), it\<lparr>it_current := if c = it_last it then None else Some (ce_next e)\<rparr>) })"

partial_function (option) iter_collect :: "'a clock_heap \<Rightarrow> clock_iter \<Rightarrow> (addr \<times> 'a) list option" where
  "iter_collect h it = do {
     (item, it') \<leftarrow> iter_next h it;
     case item of
       None \<Rightarrow> Some []
     | Some x \<Rightarrow> do { xs \<leftarrow> iter_collect h it'; Some (x # xs) } }"

definition clock_entries :: "'a clock_heap \<Rightarrow> addr option \<Rightarrow> (addr \<times> 'a) list option" where
  "clock_entries h tl_ptr = do { it \<leftarrow> iter_start h tl_ptr; iter_collect h it }"

definition clock_len :: "'a clock_heap \<Rightarrow> addr option \<Rightarrow> nat option" where
  "clock_len h tl_ptr = do { xs \<leftarrow> clock_entries h tl_ptr; Some (length xs) }"

text \<open>The loop of \<^verbatim>\<open>retain\<close> and the treatment of the tail after it.\<close>

partial_function (option) retain_loop ::
  "('a \<Rightarrow> bool) \<Rightarrow> addr \<Rightarrow> 'a clock_heap \<Rightarrow> addr \<Rightarrow> addr \<Rightarrow> ('a clock_heap \<times> addr) option" where
  "retain_loop f tail_e h last_e current =
     (if tail_e \<noteq> current then do {
        e \<leftarrow> h current;
        if f (ce_value e) then retain_loop f tail_e h current (ce_next e)
        else do {
          let next = ce_next e;
          let h' = h(current := None);
          le \<leftarrow> h' last_e;
          retain_loop f tail_e (h'(last_e \<mapsto> le\<lparr>ce_next := next\<rparr>)) last_e next } }
      else Some (h, last_e))"

definition retain :: "('a \<Rightarrow> bool) \<Rightarrow> 'a clock_heap \<Rightarrow> addr option \<Rightarrow> ('a clock_heap \<times> addr option) option" where
  "retain f h tl_ptr = (case tl_ptr of
     None \<Rightarrow> Some (h, None)
   | Some t \<Rightarrow> do {
       te \<leftarrow> h t;
       (h, last_e) \<leftarrow> retain_loop f t h t (ce_next te);
       ce \<leftarrow> h t;
       if \<not> f (ce_value ce)
       then if last_e = t then Some (h(t := None), None)
            else do {
              le \<leftarrow> h last_e;
              Some ((h(last_e \<mapsto> le\<lparr>ce_next := ce_next ce\<rparr>))(t := None), Some last_e) }
       else Some (h, Some t) })"

partial_function (option) clock_drop :: "'a clock_heap \<Rightarrow> addr option \<Rightarrow> 'a clock_heap option" where
  "clock_drop h tl_ptr = do {
     (h', tl_ptr', item) \<leftarrow> pop_front h tl_ptr;
     case item of None \<Rightarrow> Some h' | Some _ \<Rightarrow> clock_drop h' tl_ptr' }"

subsection \<open>Sequences of operations\<close>

text \<open>The operations of a clock and the same operations on the list of its values.\<close>

datatype 'a clock_op = PopFront | PeekFront | Next | PushBack addr 'a | Retain "'a \<Rightarrow> bool"

fun clock_step :: "'a clock_op \<Rightarrow> 'a clock_heap \<Rightarrow> addr option \<Rightarrow> ('a clock_heap \<times> addr option \<times> 'a option) option" where
  "clock_step PopFront h tp = pop_front h tp"
| "clock_step PeekFront h tp = do { x \<leftarrow> peek_front h tp; Some (h, tp, x) }"
| "clock_step Next h tp = do { tp' \<leftarrow> clock_next h tp; Some (h, tp', None) }"
| "clock_step (PushBack a v) h tp = do { (h', tp') \<leftarrow> push_back h tp a v; Some (h', tp', None) }"
| "clock_step (Retain f) h tp = do { (h', tp') \<leftarrow> retain f h tp; Some (h', tp', None) }"

fun list_step :: "'a clock_op \<Rightarrow> 'a list \<Rightarrow> 'a list \<times> 'a option" where
  "list_step PopFront xs = (tl xs, if xs = [] then None else Some (hd xs))"
| "list_step PeekFront xs = (xs, if xs = [] then None else Some (hd xs))"
| "list_step Next xs = (rotate1 xs, None)"
| "list_step (PushBack a v) xs = (xs @ [v], None)"
| "list_step (Retain f) xs = (filter f xs, None)"

fun clock_run :: "'a clock_op list \<Rightarrow> 'a clock_heap \<Rightarrow> addr option \<Rightarrow> ('a clock_heap \<times> addr option \<times> 'a option list) option" where
  "clock_run [] h tp = Some (h, tp, [])"
| "clock_run (op # ops) h tp = do {
     (h', tp', out) \<leftarrow> clock_step op h tp;
     (h'', tp'', outs) \<leftarrow> clock_run ops h' tp';
     Some (h'', tp'', out # outs) }"

fun list_run :: "'a clock_op list \<Rightarrow> 'a list \<Rightarrow> 'a list \<times> 'a option list" where
  "list_run [] xs = (xs, [])"
| "list_run (op # ops) xs = (let (xs', out) = list_step op xs; (xs'', outs) = list_run ops xs' in (xs'', out # outs))"

text \<open>Every new entry gets an address that is not in use at that moment.\<close>

fun fresh_allocs :: "'a clock_op list \<Rightarrow> 'a clock_heap \<Rightarrow> addr option \<Rightarrow> bool" where
  "fresh_allocs [] h tp = True"
| "fresh_allocs (op # ops) h tp = ((case op of PushBack a v \<Rightarrow> h a = None | _ \<Rightarrow> True)
     \<and> (case clock_step op h tp of None \<Rightarrow> True | Some (h', tp', _) \<Rightarrow> fresh_allocs ops h' tp'))"

subsection \<open>Rings\<close>

text \<open>A chain of entries at the addresses \<open>ps\<close> with the values \<open>xs\<close> whose last entry points to \<open>q\<close>.\<close>

fun chain :: "addr list \<Rightarrow> 'a list \<Rightarrow> addr \<Rightarrow> 'a clock_heap" where
  "chain (p # ps) (x # xs) q = (chain ps xs q)(p \<mapsto> \<lparr>ce_value = x, ce_next = hd (ps @ [q])\<rparr>)"
| "chain _ _ q = Map.empty"

definition is_clock :: "'a clock_heap \<Rightarrow> addr option \<Rightarrow> addr list \<Rightarrow> 'a list \<Rightarrow> bool" where
  "is_clock h tl_ptr ps xs \<longleftrightarrow> distinct ps \<and> length xs = length ps \<and> h = chain ps xs (hd ps)
     \<and> tl_ptr = (if ps = [] then None else Some (last ps))"

lemma chain_Cons: "chain (p # ps) (x # xs) q = (chain ps xs q)(p \<mapsto> \<lparr>ce_value = x, ce_next = hd (ps @ [q])\<rparr>)"
  by (simp add: fun_eq_iff)

declare chain.simps(1) [simp del] chain_Cons [simp]

lemma dom_chain: "length xs = length ps \<Longrightarrow> dom (chain ps xs q) = set ps"
  by (induction ps xs rule: list_induct2') auto

lemma chain_outside: "p \<notin> set ps \<Longrightarrow> chain ps xs q p = None"
  by (induction ps xs q rule: chain.induct) auto

lemma chain_append:
  "length xs = length ps \<Longrightarrow> chain (ps @ qs) (xs @ ys) q = chain qs ys q ++ chain ps xs (hd (qs @ [q]))"
  by (induction ps xs rule: list_induct2') (auto simp: hd_append map_add_upd)

lemma chain_snoc:
  assumes "length xs = length ps" "p \<notin> set ps"
  shows "chain (ps @ [p]) (xs @ [x]) q = (chain ps xs p)(p \<mapsto> \<lparr>ce_value = x, ce_next = q\<rparr>)"
  using chain_append [OF assms(1), of "[p]" "[x]" q] chain_outside [OF assms(2), of xs p]
  by (auto simp: map_add_def fun_eq_iff split: option.splits)

lemma chain_retarget:
  "length xs = length ps \<Longrightarrow> p \<notin> set ps \<Longrightarrow>
    (chain (ps @ [p]) (xs @ [x]) q)(p \<mapsto> \<lparr>ce_value = x, ce_next = q'\<rparr>) = chain (ps @ [p]) (xs @ [x]) q'"
  by (simp add: chain_snoc)

lemma chain_head: "length xs = length ps \<Longrightarrow> distinct (p # ps) \<Longrightarrow> (chain (p # ps) (x # xs) q)(p := None) = chain ps xs q"
  using chain_outside [of p ps xs q] by (auto simp: fun_eq_iff)

text \<open>The tail of a nonempty ring and its rotation.\<close>

lemma is_clock_snoc:
  "is_clock h (Some t) ps xs \<longleftrightarrow> (\<exists>qs ys x. ps = qs @ [t] \<and> xs = ys @ [x] \<and> length ys = length qs \<and> distinct (qs @ [t])
     \<and> h = (chain qs ys t)(t \<mapsto> \<lparr>ce_value = x, ce_next = hd (qs @ [t])\<rparr>))"
proof (cases ps rule: rev_cases)
  case (snoc qs p)
  then show ?thesis
    by (cases xs rule: rev_cases) (auto simp: is_clock_def chain_snoc)
qed (auto simp: is_clock_def)

lemma is_clock_None: "is_clock h None ps xs \<longleftrightarrow> ps = [] \<and> xs = [] \<and> h = Map.empty"
  by (auto simp: is_clock_def)

lemma is_clock_Nil: "is_clock h tl_ptr ps [] \<longleftrightarrow> tl_ptr = None \<and> ps = [] \<and> h = Map.empty"
  by (auto simp: is_clock_def)

lemma chain_last: "length xs = length ps \<Longrightarrow> distinct (ps @ [p]) \<Longrightarrow> chain (ps @ [p]) (xs @ [x]) q p = Some \<lparr>ce_value = x, ce_next = q\<rparr>"
  by (simp add: chain_snoc)

text \<open>Unlinking the entry behind \<open>l\<close>.\<close>

lemma chain_unlink:
  assumes len: "length xs = length ps" "length ys = length qs" and dist: "distinct (ps @ [l] @ r # qs)"
  shows "(chain ((ps @ [l]) @ r # qs) ((xs @ [x]) @ y # ys) q)(r := None, l \<mapsto> \<lparr>ce_value = x, ce_next = hd (qs @ [q])\<rparr>)
    = chain ((ps @ [l]) @ qs) ((xs @ [x]) @ ys) q"
    and "chain ((ps @ [l]) @ r # qs) ((xs @ [x]) @ y # ys) q l = Some \<lparr>ce_value = x, ce_next = r\<rparr>"
    and "chain ((ps @ [l]) @ r # qs) ((xs @ [x]) @ y # ys) q r = Some \<lparr>ce_value = y, ce_next = hd (qs @ [q])\<rparr>"
proof -
  have len': "length (xs @ [x]) = length (ps @ [l])" using len by simp
  note all = chain_append [OF len', of "r # qs" "y # ys" q] and rest = chain_append [OF len', of qs ys q]
  have r: "chain (ps @ [l]) (xs @ [x]) r' r = None" for r' by (rule chain_outside) (use dist in auto)
  have "(chain ((ps @ [l]) @ r # qs) ((xs @ [x]) @ y # ys) q)(r := None) = chain qs ys q ++ chain (ps @ [l]) (xs @ [x]) r"
    unfolding all using chain_outside [of r qs ys q] r dist by (auto simp: map_add_def fun_eq_iff split: option.splits)
  moreover have "(chain (ps @ [l]) (xs @ [x]) r)(l \<mapsto> \<lparr>ce_value = x, ce_next = hd (qs @ [q])\<rparr>) = chain (ps @ [l]) (xs @ [x]) (hd (qs @ [q]))"
    by (rule chain_retarget) (use len dist in auto)
  ultimately show "(chain ((ps @ [l]) @ r # qs) ((xs @ [x]) @ y # ys) q)(r := None, l \<mapsto> \<lparr>ce_value = x, ce_next = hd (qs @ [q])\<rparr>)
      = chain ((ps @ [l]) @ qs) ((xs @ [x]) @ ys) q"
    unfolding rest by (simp only: map_add_upd [symmetric])
  have "chain (ps @ [l]) (xs @ [x]) r l = Some \<lparr>ce_value = x, ce_next = r\<rparr>" by (rule chain_last) (use len dist in auto)
  then show "chain ((ps @ [l]) @ r # qs) ((xs @ [x]) @ y # ys) q l = Some \<lparr>ce_value = x, ce_next = r\<rparr>"
    unfolding all by simp
  show "chain ((ps @ [l]) @ r # qs) ((xs @ [x]) @ y # ys) q r = Some \<lparr>ce_value = y, ce_next = hd (qs @ [q])\<rparr>"
    unfolding all using r by (simp add: map_add_def)
qed

subsection \<open>Refinement\<close>

lemma pop_front_refines:
  assumes "is_clock h tp (p # ps) (x # xs)"
  obtains h' tp' where "pop_front h tp = Some (h', tp', Some x)" "is_clock h' tp' ps xs"
proof (cases ps rule: rev_cases)
  case Nil
  then have "xs = []" "tp = Some p" "h = [p \<mapsto> \<lparr>ce_value = x, ce_next = p\<rparr>]" using assms by (auto simp: is_clock_def)
  then show ?thesis using that [of Map.empty None] Nil by (auto simp: pop_front_def is_clock_def)
next
  case (snoc qs t)
  then obtain ys z where xs: "xs = ys @ [z]" "length ys = length qs" using assms by (cases xs rule: rev_cases) (auto simp: is_clock_def)
  have h: "h = chain ((p # qs) @ [t]) ((x # ys) @ [z]) p" "tp = Some t" "distinct (p # qs @ [t])"
    using assms snoc xs by (auto simp: is_clock_def)
  have t: "h t = Some \<lparr>ce_value = z, ce_next = p\<rparr>" unfolding h(1) by (rule chain_last) (use h(3) xs in auto)
  have hp: "h p = Some \<lparr>ce_value = x, ce_next = hd (qs @ [t])\<rparr>" unfolding h(1) by (cases qs) auto
  have "h(t \<mapsto> \<lparr>ce_value = z, ce_next = hd (qs @ [t])\<rparr>) = chain ((p # qs) @ [t]) ((x # ys) @ [z]) (hd (qs @ [t]))"
    unfolding h(1) by (rule chain_retarget) (use h(3) xs in auto)
  moreover have "(chain ((p # qs) @ [t]) ((x # ys) @ [z]) (hd (qs @ [t])))(p := None) = chain ps xs (hd ps)"
    using chain_head [of xs ps p x "hd ps"] h(3) snoc xs by simp
  ultimately have "(h(t \<mapsto> \<lparr>ce_value = z, ce_next = hd (qs @ [t])\<rparr>))(p := None) = chain ps xs (hd ps)" by simp
  moreover have "p \<noteq> t" using h(3) by auto
  ultimately have "pop_front h tp = Some (chain ps xs (hd ps), Some t, Some x)"
    using t hp h(2) by (simp add: pop_front_def Let_def)
  then show ?thesis using that h(3) snoc xs by (auto simp: is_clock_def)
qed

lemma peek_front_refines:
  assumes "is_clock h tp ps xs"
  shows "peek_front h tp = Some (case xs of [] \<Rightarrow> None | x # _ \<Rightarrow> Some x)"
proof (cases ps)
  case Nil
  then show ?thesis using assms by (auto simp: is_clock_def peek_front_def)
next
  case (Cons p qs)
  then obtain x ys where xs: "xs = x # ys" "length ys = length qs" using assms by (cases xs) (auto simp: is_clock_def)
  have h: "h = chain (p # qs) (x # ys) p" "tp = Some (last (p # qs))" "distinct (p # qs)" using assms Cons xs by (auto simp: is_clock_def)
  have "\<exists>z. h (last (p # qs)) = Some \<lparr>ce_value = z, ce_next = p\<rparr>"
  proof (cases qs rule: rev_cases)
    case (snoc rs t)
    then obtain zs z where "ys = zs @ [z]" "length zs = length rs" using xs(2) by (cases ys rule: rev_cases) auto
    then show ?thesis using h snoc chain_last [of "x # zs" "p # rs" t z p] by auto
  qed (use h xs in auto)
  moreover have "h p = Some \<lparr>ce_value = x, ce_next = hd (qs @ [p])\<rparr>" by (simp add: h(1))
  ultimately show ?thesis using h(2) xs by (auto simp: peek_front_def)
qed

lemma clock_next_refines:
  assumes "is_clock h tp (p # ps) (x # xs)"
  shows "clock_next h tp = Some (Some p)" "is_clock h (Some p) (ps @ [p]) (xs @ [x])"
proof -
  have h: "h = chain (p # ps) (x # xs) p" "tp = Some (last (p # ps))" "distinct (p # ps)" "length xs = length ps" using assms by (auto simp: is_clock_def)
  have "\<exists>z. h (last (p # ps)) = Some \<lparr>ce_value = z, ce_next = p\<rparr>"
  proof (cases ps rule: rev_cases)
    case (snoc rs t)
    then obtain zs z where "xs = zs @ [z]" "length zs = length rs" using h(4) by (cases xs rule: rev_cases) auto
    then show ?thesis using h snoc chain_last [of "x # zs" "p # rs" t z p] by auto
  qed (use h in auto)
  then show "clock_next h tp = Some (Some p)" using h(2) by (auto simp: clock_next_def)
  show "is_clock h (Some p) (ps @ [p]) (xs @ [x])"
    using h chain_snoc [of xs ps p x "hd (ps @ [p])"] by (auto simp: is_clock_def)
qed

lemma push_back_refines:
  assumes "is_clock h tp ps xs" "a \<notin> set ps"
  obtains h' where "push_back h tp a x = Some (h', Some a)" "is_clock h' (Some a) (ps @ [a]) (xs @ [x])"
proof (cases ps rule: rev_cases)
  case Nil
  then show ?thesis using that assms by (auto simp: is_clock_def push_back_def)
next
  case (snoc qs t)
  then obtain ys z where xs: "xs = ys @ [z]" "length ys = length qs" using assms by (cases xs rule: rev_cases) (auto simp: is_clock_def)
  have h: "h = chain (qs @ [t]) (ys @ [z]) (hd (qs @ [t]))" "tp = Some t" "distinct (qs @ [t])" using assms snoc xs by (auto simp: is_clock_def)
  have t: "h t = Some \<lparr>ce_value = z, ce_next = hd (qs @ [t])\<rparr>" unfolding h(1) by (rule chain_last [OF xs(2) h(3)])
  have "h(t \<mapsto> \<lparr>ce_value = z, ce_next = a\<rparr>) = chain (qs @ [t]) (ys @ [z]) a"
    unfolding h(1) by (rule chain_retarget) (use h(3) xs in auto)
  moreover have "chain ((qs @ [t]) @ [a]) ((ys @ [z]) @ [x]) (hd (qs @ [t])) = (chain (qs @ [t]) (ys @ [z]) a)(a \<mapsto> \<lparr>ce_value = x, ce_next = hd (qs @ [t])\<rparr>)"
    by (rule chain_snoc) (use assms(2) snoc xs in auto)
  moreover have "a \<noteq> t" using assms(2) snoc by auto
  ultimately have "push_back h tp a x = Some (chain ((qs @ [t]) @ [a]) ((ys @ [z]) @ [x]) (hd (qs @ [t])), Some a)"
    using t h(2) by (simp add: push_back_def fun_upd_twist)
  then show ?thesis using that h(3) assms(2) snoc xs by (auto simp: is_clock_def hd_append)
qed

lemma iter_collect_chain:
  assumes "chain (ps @ [t]) (xs @ [x]) q \<subseteq>\<^sub>m h" "length xs = length ps" "distinct (ps @ [t])"
  shows "iter_collect h \<lparr>it_current = Some (hd (ps @ [t])), it_last = t\<rparr> = Some (zip (ps @ [t]) (xs @ [x]))"
  using assms
proof (induction ps arbitrary: xs)
  case Nil
  then have "h t = Some \<lparr>ce_value = x, ce_next = q\<rparr>" by (auto simp: map_le_def)
  then show ?case using Nil.prems
    by (simp add: iter_collect.simps [of h "\<lparr>it_current = Some t, it_last = t\<rparr>"] iter_collect.simps [of h "\<lparr>it_current = None, it_last = t\<rparr>"] iter_next_def)
next
  case (Cons p ps)
  obtain y ys where xs: "xs = y # ys" "length ys = length ps" using Cons.prems(2) by (cases xs) auto
  let ?c = "chain (ps @ [t]) (ys @ [x]) q"
  have le: "?c(p \<mapsto> \<lparr>ce_value = y, ce_next = hd ((ps @ [t]) @ [q])\<rparr>) \<subseteq>\<^sub>m h" using Cons.prems(1) by (simp only: xs(1) append_Cons chain_Cons)
  then have p: "h p = Some \<lparr>ce_value = y, ce_next = hd (ps @ [t])\<rparr>" by (cases ps) (auto simp: map_le_def)
  have "?c p = None" by (rule chain_outside) (use Cons.prems(3) in auto)
  then have "?c \<subseteq>\<^sub>m h" using le by (auto simp: map_le_def dom_def)
  then have "iter_collect h \<lparr>it_current = Some (hd (ps @ [t])), it_last = t\<rparr> = Some (zip (ps @ [t]) (ys @ [x]))"
    using Cons.IH xs(2) Cons.prems(3) by simp
  moreover have "p \<noteq> t" using Cons.prems(3) by auto
  ultimately show ?case using p xs
    by (simp add: iter_collect.simps [of h "\<lparr>it_current = Some p, it_last = t\<rparr>"] iter_next_def)
qed

lemma clock_entries_refines:
  assumes "is_clock h tp ps xs"
  shows "clock_entries h tp = Some (zip ps xs)"
proof (cases ps rule: rev_cases)
  case Nil
  moreover have "iter_collect h \<lparr>it_current = None, it_last = 0\<rparr> = Some []"
    by (simp add: iter_collect.simps [of h "\<lparr>it_current = None, it_last = 0\<rparr>"] iter_next_def)
  ultimately show ?thesis using assms by (simp add: is_clock_def clock_entries_def iter_start_def)
next
  case (snoc qs t)
  then obtain ys z where xs: "xs = ys @ [z]" "length ys = length qs" using assms by (cases xs rule: rev_cases) (auto simp: is_clock_def)
  have h: "h = chain (qs @ [t]) (ys @ [z]) (hd (qs @ [t]))" "tp = Some t" "distinct (qs @ [t])" using assms snoc xs by (auto simp: is_clock_def)
  have "h t = Some \<lparr>ce_value = z, ce_next = hd (qs @ [t])\<rparr>" unfolding h(1) by (rule chain_last [OF xs(2) h(3)])
  moreover have "iter_collect h \<lparr>it_current = Some (hd (qs @ [t])), it_last = t\<rparr> = Some (zip (qs @ [t]) (ys @ [z]))"
    by (rule iter_collect_chain [OF _ xs(2) h(3), of z "hd (qs @ [t])"]) (simp add: h(1))
  ultimately show ?thesis using h(2) snoc xs by (simp add: clock_entries_def iter_start_def)
qed

definition kept :: "('a \<Rightarrow> bool) \<Rightarrow> addr list \<Rightarrow> 'a list \<Rightarrow> addr list" where
  "kept f ps xs = map fst (filter (f \<circ> snd) (zip ps xs))"

lemma kept_simps [simp]:
  "kept f [] xs = []" "kept f (p # ps) (x # xs) = (if f x then p # kept f ps xs else kept f ps xs)"
  by (simp_all add: kept_def)

lemma kept_append: "length xs = length ps \<Longrightarrow> kept f (ps @ qs) (xs @ ys) = kept f ps xs @ kept f qs ys"
  by (simp add: kept_def)

lemma set_kept: "set (kept f ps xs) \<subseteq> set ps"
  by (auto simp: kept_def dest: set_zip_leftD)

lemma distinct_kept: "distinct ps \<Longrightarrow> distinct (kept f ps xs)"
  unfolding kept_def by (rule distinct_map_filter) (simp add: map_fst_zip_take distinct_take)

lemma length_kept: "length xs = length ps \<Longrightarrow> length (kept f ps xs) = length (filter f xs)"
  by (induction ps xs rule: list_induct2') auto

text \<open>Before each round the entries up to the current one are those kept so far.\<close>

lemma retain_loop_refines:
  assumes "length ys = length ks" "length zs = length rs" "distinct (ks @ rs @ [t])"
    "h = chain (ks @ rs @ [t]) (ys @ zs @ [x]) (hd (ks @ rs @ [t]))" "prev = (if ks = [] then t else last ks)"
  shows "retain_loop f t h prev (hd (rs @ [t])) =
    (let ks' = ks @ kept f rs zs in Some (chain (ks' @ [t]) (ys @ filter f zs @ [x]) (hd (ks' @ [t])), if ks' = [] then t else last ks'))"
  using assms
proof (induction rs arbitrary: ks ys zs h prev)
  case Nil
  then show ?case by (simp add: retain_loop.simps [of f t] Let_def)
next
  case (Cons r rs)
  obtain z zs' where zs: "zs = z # zs'" "length zs' = length rs" using Cons.prems(2) by (cases zs) auto
  have "r \<noteq> t" using Cons.prems(3) by auto
  have hr: "h r = Some \<lparr>ce_value = z, ce_next = hd (rs @ [t])\<rparr>"
  proof (cases ks rule: rev_cases)
    case Nil
    then show ?thesis using Cons.prems(1,4) zs by (cases rs) auto
  next
    case (snoc ks' l)
    then obtain ys' y where ys: "ys = ys' @ [y]" "length ys' = length ks'" using Cons.prems(1) by (cases ys rule: rev_cases) auto
    show ?thesis
      using chain_unlink(3) [of ys' ks' "zs' @ [x]" "rs @ [t]" l r y z "hd (ks @ (r # rs) @ [t])"] Cons.prems(3,4) snoc ys zs by (simp add: hd_append)
  qed
  show ?case
  proof (cases "f z")
    case True
    have "retain_loop f t h r (hd (rs @ [t])) = (let ks' = (ks @ [r]) @ kept f rs zs'
        in Some (chain (ks' @ [t]) ((ys @ [z]) @ filter f zs' @ [x]) (hd (ks' @ [t])), if ks' = [] then t else last ks'))"
      by (rule Cons.IH) (use Cons.prems zs in auto)
    then show ?thesis using True hr \<open>r \<noteq> t\<close> zs by (simp add: retain_loop.simps [of f t h prev r] Let_def)
  next
    case False
    obtain le where le: "(h(r := None)) prev = Some le"
      "(h(r := None))(prev \<mapsto> le\<lparr>ce_next := hd (rs @ [t])\<rparr>) = chain (ks @ rs @ [t]) (ys @ zs' @ [x]) (hd (ks @ rs @ [t]))"
    proof (cases ks rule: rev_cases)
      case Nil
      then have ys: "ys = []" using Cons.prems(1) by simp
      have d: "distinct (r # rs @ [t])" using Cons.prems(3) Nil by simp
      have "h = chain (r # rs @ [t]) (z # zs' @ [x]) r"
        using Cons.prems(4) by (simp only: Nil ys zs(1) append_Cons append_Nil list.sel)
      then have h: "h(r := None) = chain (rs @ [t]) (zs' @ [x]) r"
        using chain_head [of "zs' @ [x]" "rs @ [t]" r z r] zs(2) d by (simp only: length_append list.size)
      have lk: "chain (rs @ [t]) (zs' @ [x]) r t = Some \<lparr>ce_value = x, ce_next = r\<rparr>" by (rule chain_last) (use zs d in auto)
      have "(chain (rs @ [t]) (zs' @ [x]) r)(t \<mapsto> \<lparr>ce_value = x, ce_next = hd (rs @ [t])\<rparr>) = chain (rs @ [t]) (zs' @ [x]) (hd (rs @ [t]))"
        by (rule chain_retarget) (use zs d in auto)
      then show ?thesis using that [of "\<lparr>ce_value = x, ce_next = r\<rparr>"] h lk Nil ys Cons.prems(5) by simp
    next
      case (snoc ks' l)
      then obtain ys' y where ys: "ys = ys' @ [y]" "length ys' = length ks'" using Cons.prems(1) by (cases ys rule: rev_cases) auto
      have d: "distinct (ks' @ [l] @ r # rs @ [t])" using Cons.prems(3) snoc by simp
      have len: "length (zs' @ [x]) = length (rs @ [t])" using zs by simp
      note un = chain_unlink [OF ys(2) len d, of y z "hd (ks @ (r # rs) @ [t])"]
      have q: "hd (ks @ (r # rs) @ [t]) = hd (ks @ rs @ [t])" using snoc by (simp add: hd_append)
      have hd: "hd ((rs @ [t]) @ [hd (ks @ (r # rs) @ [t])]) = hd (rs @ [t])" by (cases rs) auto
      have h: "h = chain ((ks' @ [l]) @ r # rs @ [t]) ((ys' @ [y]) @ z # zs' @ [x]) (hd (ks @ (r # rs) @ [t]))"
        using Cons.prems(4) snoc ys zs by simp
      have "l \<noteq> r" using d by auto
      moreover have "prev = l" using Cons.prems(5) snoc by simp
      ultimately show ?thesis
        using that [of "\<lparr>ce_value = y, ce_next = r\<rparr>"] un(1,2) h q hd snoc ys by simp
    qed
    have "retain_loop f t ((h(r := None))(prev \<mapsto> le\<lparr>ce_next := hd (rs @ [t])\<rparr>)) prev (hd (rs @ [t])) = (let ks' = ks @ kept f rs zs'
        in Some (chain (ks' @ [t]) (ys @ filter f zs' @ [x]) (hd (ks' @ [t])), if ks' = [] then t else last ks'))"
      by (rule Cons.IH) (use Cons.prems zs le(2) in auto)
    then show ?thesis using False hr \<open>r \<noteq> t\<close> zs le(1) by (simp add: retain_loop.simps [of f t h prev r] Let_def)
  qed
qed

lemma retain_refines:
  assumes "is_clock h tp ps xs"
  obtains h' tp' where "retain f h tp = Some (h', tp')" "is_clock h' tp' (kept f ps xs) (filter f xs)"
proof (cases ps rule: rev_cases)
  case Nil
  then have "tp = None" "xs = []" "h = Map.empty" using assms by (auto simp: is_clock_def)
  then show ?thesis using that [of Map.empty None] Nil by (simp add: retain_def is_clock_def)
next
  case (snoc qs t)
  then obtain ys z where xs: "xs = ys @ [z]" "length ys = length qs" using assms by (cases xs rule: rev_cases) (auto simp: is_clock_def)
  have h: "h = chain (qs @ [t]) (ys @ [z]) (hd (qs @ [t]))" "tp = Some t" "distinct (qs @ [t])" using assms snoc xs by (auto simp: is_clock_def)
  have t: "h t = Some \<lparr>ce_value = z, ce_next = hd (qs @ [t])\<rparr>" unfolding h(1) by (rule chain_last [OF xs(2) h(3)])
  let ?ks = "kept f qs ys" and ?vs = "filter f ys"
  let ?h = "chain (?ks @ [t]) (?vs @ [z]) (hd (?ks @ [t]))" and ?prev = "if ?ks = [] then t else last ?ks"
  have loop: "retain_loop f t h t (hd (qs @ [t])) = Some (?h, ?prev)"
    using retain_loop_refines [of "[]" "[]" ys qs t h z t f] xs(2) h by (simp add: Let_def)
  have ks: "t \<notin> set ?ks" "distinct (?ks @ [t])" "length ?vs = length ?ks"
    using set_kept [of f qs ys] h(3) distinct_kept [of qs f ys] length_kept [OF xs(2), of f] by auto
  have t': "?h t = Some \<lparr>ce_value = z, ce_next = hd (?ks @ [t])\<rparr>" by (rule chain_last) (use ks in simp_all)
  have kept: "kept f ps xs = (if f z then ?ks @ [t] else ?ks)" "filter f xs = (if f z then ?vs @ [z] else ?vs)"
    using kept_append [OF xs(2), of f "[t]" "[z]"] by (simp_all add: snoc xs)
  show ?thesis
  proof (cases "f z")
    case True
    then have "retain f h tp = Some (?h, Some t)" using h(2) t t' loop by (simp add: retain_def)
    then show ?thesis by (rule that) (use True kept ks in \<open>simp add: is_clock_def\<close>)
  next
    case False
    show ?thesis
    proof (cases ?ks rule: rev_cases)
      case Nil
      then have "?vs = []" using ks(3) by (metis length_0_conv)
      then have "retain f h tp = Some (Map.empty, None)" using h(2) t t' loop False Nil by (simp add: retain_def)
      then show ?thesis by (rule that) (use False kept Nil \<open>?vs = []\<close> in \<open>simp add: is_clock_def\<close>)
    next
      case (snoc ks l)
      then obtain vs y where vs: "?vs = vs @ [y]" "length vs = length ks" using ks(3) by (cases "filter f ys" rule: rev_cases) auto
      have d: "distinct (ks @ [l] @ t # [])" using ks(2) snoc by simp
      note un = chain_unlink [OF vs(2) _ d, of "[]" y z "hd (?ks @ [t])", simplified]
      have hl: "?h l = Some \<lparr>ce_value = y, ce_next = t\<rparr>" using un(2) snoc vs by simp
      have "l \<noteq> t" using d by auto
      then have "(?h(l \<mapsto> \<lparr>ce_value = y, ce_next = hd (?ks @ [t])\<rparr>))(t := None) = chain (ks @ [l]) (vs @ [y]) (hd (?ks @ [t]))"
        using un(1) snoc vs by (simp add: fun_upd_twist)
      moreover have "hd (?ks @ [t]) = hd ?ks" using snoc by (simp add: hd_append)
      ultimately have "retain f h tp = Some (chain ?ks ?vs (hd ?ks), Some l)"
        using h(2) t t' loop False hl \<open>l \<noteq> t\<close> snoc vs by (simp add: retain_def)
      then show ?thesis by (rule that) (use False kept ks snoc in \<open>simp add: is_clock_def\<close>)
    qed
  qed
qed

lemma clock_drop_refines: "is_clock h tp ps xs \<Longrightarrow> clock_drop h tp = Some Map.empty"
proof (induction ps arbitrary: h tp xs)
  case Nil
  then have "tp = None" "h = Map.empty" by (auto simp: is_clock_def)
  then show ?case by (subst clock_drop.simps) (simp add: pop_front_def)
next
  case (Cons p ps)
  then obtain x xs' where "xs = x # xs'" by (cases xs) (auto simp: is_clock_def)
  with Cons.prems obtain h' tp' where "pop_front h tp = Some (h', tp', Some x)" "is_clock h' tp' ps xs'"
    using pop_front_refines by metis
  with Cons.IH show ?case by (subst clock_drop.simps) simp
qed

lemma is_clock_dom: "is_clock h tp ps xs \<Longrightarrow> dom h = set ps"
  by (auto simp: is_clock_def dom_chain)

lemma clock_step_refines:
  assumes clock: "is_clock h tp ps xs" and fresh: "case op of PushBack a v \<Rightarrow> h a = None | _ \<Rightarrow> True"
  obtains h' tp' ps' where "clock_step op h tp = Some (h', tp', snd (list_step op xs))" "is_clock h' tp' ps' (fst (list_step op xs))"
proof (cases op)
  case PopFront
  show ?thesis
  proof (cases xs)
    case Nil
    with clock have "tp = None" by (auto simp: is_clock_def)
    then show ?thesis using that [of h None ps] clock PopFront Nil by (simp add: pop_front_def)
  next
    case (Cons x xs')
    then obtain p ps' where "ps = p # ps'" using clock by (cases ps) (auto simp: is_clock_def)
    with Cons clock obtain h' tp' where "pop_front h tp = Some (h', tp', Some x)" "is_clock h' tp' ps' xs'" using pop_front_refines by metis
    then show ?thesis using that PopFront Cons by simp
  qed
next
  case PeekFront
  then show ?thesis using that [of h tp ps] clock peek_front_refines [OF clock] by (cases xs) simp_all
next
  case Next
  show ?thesis
  proof (cases xs)
    case Nil
    with clock have "tp = None" by (auto simp: is_clock_def)
    then show ?thesis using that [of h None ps] clock Next Nil by (simp add: clock_next_def)
  next
    case (Cons x xs')
    then obtain p ps' where ps: "ps = p # ps'" using clock by (cases ps) (auto simp: is_clock_def)
    from clock_next_refines [of h tp p ps' x xs'] clock Cons ps show ?thesis using that [of h "Some p" "ps' @ [p]"] Next by simp
  qed
next
  case (PushBack a v)
  then have "a \<notin> set ps" using fresh is_clock_dom [OF clock] by auto
  then obtain h' where "push_back h tp a v = Some (h', Some a)" "is_clock h' (Some a) (ps @ [a]) (xs @ [v])" using push_back_refines [OF clock] by metis
  then show ?thesis using that PushBack by simp
next
  case (Retain f)
  obtain h' tp' where "retain f h tp = Some (h', tp')" "is_clock h' tp' (kept f ps xs) (filter f xs)" using retain_refines [OF clock] by metis
  then show ?thesis using that Retain by simp
qed

lemma clock_run_refines:
  assumes "is_clock h tp ps xs" "fresh_allocs ops h tp"
  shows "\<exists>h' tp' ps'. clock_run ops h tp = Some (h', tp', snd (list_run ops xs)) \<and> is_clock h' tp' ps' (fst (list_run ops xs))"
  using assms
proof (induction ops arbitrary: h tp ps xs)
  case (Cons op ops)
  have fresh: "case op of PushBack a v \<Rightarrow> h a = None | _ \<Rightarrow> True" using Cons.prems(2) by simp
  obtain h1 tp1 ps1 where 1: "clock_step op h tp = Some (h1, tp1, snd (list_step op xs))" "is_clock h1 tp1 ps1 (fst (list_step op xs))"
    using clock_step_refines [OF Cons.prems(1) fresh] by metis
  then have "fresh_allocs ops h1 tp1" using Cons.prems(2) by simp
  from Cons.IH [OF 1(2) this] 1(1) show ?case by (auto simp: Let_def case_prod_unfold)
qed auto

text \<open>
  C15. The clock is a list: for every sequence of operations on a new clock, in which the
  allocator never hands out an address in use, no released entry is ever touched, every loop
  ends, each operation returns what it returns on the list of values, iterating yields that
  list, its entries are all that is allocated, and dropping the clock releases everything.
\<close>

theorem clock_refines_list:
  assumes "fresh_allocs ops Map.empty clock_default"
  shows "\<exists>h tp es. clock_run ops Map.empty clock_default = Some (h, tp, snd (list_run ops []))
    \<and> clock_entries h tp = Some es \<and> map snd es = fst (list_run ops []) \<and> dom h = set (map fst es) \<and> distinct (map fst es)
    \<and> clock_len h tp = Some (length (fst (list_run ops []))) \<and> clock_drop h tp = Some Map.empty"
proof -
  have "is_clock Map.empty clock_default [] []" by (simp add: is_clock_def clock_default_def)
  from clock_run_refines [OF this assms] obtain h tp ps where
    run: "clock_run ops Map.empty clock_default = Some (h, tp, snd (list_run ops []))" "is_clock h tp ps (fst (list_run ops []))" by blast
  have len: "length (fst (list_run ops [])) = length ps" "distinct ps" using run(2) by (simp_all add: is_clock_def)
  then have "map fst (zip ps (fst (list_run ops []))) = ps" "map snd (zip ps (fst (list_run ops []))) = fst (list_run ops [])" by simp_all
  with len run clock_entries_refines [OF run(2)] is_clock_dom [OF run(2)] clock_drop_refines [OF run(2)]
  show ?thesis by (intro exI [of _ h] exI [of _ tp] exI [of _ "zip ps (fst (list_run ops []))"]) (simp add: clock_len_def del: set_map)
qed

theorem clock_refines_list_witness:
  "\<exists>h tp es. clock_run [PushBack 7 (1 :: nat), PushBack 8 2, PushBack 9 3, Next, Retain (\<lambda>x. x \<noteq> 3), PopFront] Map.empty clock_default
      = Some (h, tp, [None, None, None, None, None, Some 2])
    \<and> clock_entries h tp = Some es \<and> map snd es = [1] \<and> clock_drop h tp = Some Map.empty"
proof -
  have "fresh_allocs [PushBack 7 (1 :: nat), PushBack 8 2, PushBack 9 3, Next, Retain (\<lambda>x. x \<noteq> 3), PopFront] Map.empty clock_default"
    by (simp add: clock_default_def push_back_def clock_next_def split: option.splits prod.splits)
  from clock_refines_list [OF this] show ?thesis by auto
qed

end
