(* ===== verification/ClockCache.thy ===== *)
theory ClockCache
  imports Clock "HOL-Library.Word"
begin

text \<open>
  \<^verbatim>\<open>betree/src/cache/mod.rs\<close> and \<^verbatim>\<open>clock_cache.rs\<close>: the cache of objects with second-chance eviction.
  The clock is the list of keys that \<open>Clock\<close> refines. An entry counts the handles that pin it
  (further references to its \<^verbatim>\<open>Arc\<close>). The total size and the counters are 64-bit words that wrap,
  as the atomic operations do. \<open>None\<close> is a panic; the debug assertions are part of the model.
  The interface of a cache is the locale \<open>object_cache\<close>.
\<close>

datatype remove_error = RNotPresent | RPinned

datatype 'e change_key_error = CNotPresent | CPinned | CallbackError 'e

record 'v cache_entry =
  cv_value :: 'v
  referenced :: bool
  pins :: nat

record ('k, 'v) clock_cache =
  cc_map :: "'k \<rightharpoonup> 'v cache_entry"
  cc_clock :: "'k list"
  cc_capacity :: nat
  cc_size :: "64 word"
  hits :: "64 word"
  misses :: "64 word"
  insertions :: "64 word"
  evictions :: "64 word"
  removals :: "64 word"

definition cc_new :: "nat \<Rightarrow> ('k, 'v) clock_cache" where
  "cc_new capacity = \<lparr>cc_map = Map.empty, cc_clock = [], cc_capacity = capacity, cc_size = 0, hits = 0, misses = 0,
     insertions = 0, evictions = 0, removals = 0\<rparr>"

definition cc_contains_key :: "('k, 'v) clock_cache \<Rightarrow> 'k \<Rightarrow> bool" where
  "cc_contains_key c key = (cc_map c key \<noteq> None)"

text \<open>\<open>get\<close> pins the entry; \<open>cc_unpin\<close> is the end of the life of the handle.\<close>

definition cc_get :: "'k \<Rightarrow> bool \<Rightarrow> ('k, 'v) clock_cache \<Rightarrow> 'v option \<times> ('k, 'v) clock_cache" where
  "cc_get key count_miss c = (case cc_map c key of
     Some e \<Rightarrow> (Some (cv_value e), c\<lparr>hits := hits c + 1,
       cc_map := (cc_map c)(key \<mapsto> e\<lparr>referenced := True, pins := pins e + 1\<rparr>)\<rparr>)
   | None \<Rightarrow> (None, if count_miss then c\<lparr>misses := misses c + 1\<rparr> else c))"

definition cc_unpin :: "'k \<Rightarrow> ('k, 'v) clock_cache \<Rightarrow> ('k, 'v) clock_cache" where
  "cc_unpin key c = (case cc_map c key of
     None \<Rightarrow> c | Some e \<Rightarrow> c\<lparr>cc_map := (cc_map c)(key \<mapsto> e\<lparr>pins := pins e - 1\<rparr>)\<rparr>)"

text \<open>\<^verbatim>\<open>fetch_add\<close> or \<^verbatim>\<open>fetch_sub\<close> of the magnitude of the delta.\<close>

definition cc_add_size :: "int \<Rightarrow> ('k, 'v) clock_cache \<Rightarrow> ('k, 'v) clock_cache" where
  "cc_add_size size_delta c =
     (if size_delta \<ge> 0 then c\<lparr>cc_size := cc_size c + word_of_int size_delta\<rparr>
      else c\<lparr>cc_size := cc_size c - word_of_int (- size_delta)\<rparr>)"

text \<open>The callback of \<open>remove\<close> may change the value and returns its size.\<close>

definition cc_remove ::
  "('v \<Rightarrow> 'v \<times> nat) \<Rightarrow> 'k \<Rightarrow> ('k, 'v) clock_cache \<Rightarrow> remove_error + 'v \<times> ('k, 'v) clock_cache" where
  "cc_remove f key c = (case cc_map c key of
     None \<Rightarrow> Inl RNotPresent
   | Some e \<Rightarrow> if pins e \<noteq> 0 then Inl RPinned
       else (let (value, sz) = f (cv_value e) in
         Inr (value, c\<lparr>cc_clock := filter (\<lambda>k. k \<noteq> key) (cc_clock c), cc_map := (cc_map c)(key := None),
           removals := removals c + 1, cc_size := cc_size c - word_of_nat sz\<rparr>)))"

definition cc_force_remove :: "'k \<Rightarrow> nat \<Rightarrow> ('k, 'v) clock_cache \<Rightarrow> bool \<times> ('k, 'v) clock_cache" where
  "cc_force_remove key sz c = (let c' = c\<lparr>cc_clock := filter (\<lambda>k. k \<noteq> key) (cc_clock c)\<rparr> in
     case cc_map c key of
       None \<Rightarrow> (False, c')
     | Some _ \<Rightarrow> (True, c'\<lparr>cc_map := (cc_map c)(key := None), removals := removals c + 1,
         cc_size := cc_size c - word_of_nat sz\<rparr>))"

fun replace_first :: "'k \<Rightarrow> 'k \<Rightarrow> 'k list \<Rightarrow> 'k list" where
  "replace_first key new_key [] = []"
| "replace_first key new_key (k # ks) = (if k = key then new_key # ks else k # replace_first key new_key ks)"

definition cc_rename :: "'k \<Rightarrow> 'k \<Rightarrow> 'v cache_entry \<Rightarrow> ('k, 'v) clock_cache \<Rightarrow> ('k, 'v) clock_cache" where
  "cc_rename key new_key e c = c\<lparr>cc_map := (cc_map c)(key := None, new_key \<mapsto> e),
     cc_clock := replace_first key new_key (cc_clock c)\<rparr>"

text \<open>A callback that fails may have changed the value of the entry all the same.\<close>

definition cc_change_key ::
  "('k \<Rightarrow> 'v \<Rightarrow> ('k \<Rightarrow> bool) \<Rightarrow> 'v \<times> ('e + 'k)) \<Rightarrow> 'k \<Rightarrow> ('k, 'v) clock_cache
    \<Rightarrow> 'e change_key_error option \<times> ('k, 'v) clock_cache" where
  "cc_change_key f key c = (case cc_map c key of
     None \<Rightarrow> (Some CNotPresent, c)
   | Some e \<Rightarrow> if pins e \<noteq> 0 then (Some CPinned, c)
       else (let (value, r) = f key (cv_value e) (cc_contains_key c) in
         case r of
           Inl err \<Rightarrow> (Some (CallbackError err), c\<lparr>cc_map := (cc_map c)(key \<mapsto> e\<lparr>cv_value := value\<rparr>)\<rparr>)
         | Inr new_key \<Rightarrow> (None, cc_rename key new_key (e\<lparr>cv_value := value\<rparr>) c)))"

definition cc_force_change_key :: "'k \<Rightarrow> 'k \<Rightarrow> ('k, 'v) clock_cache \<Rightarrow> bool \<times> ('k, 'v) clock_cache" where
  "cc_force_change_key key new_key c = (case cc_map c key of
     None \<Rightarrow> (False, c) | Some e \<Rightarrow> (True, cc_rename key new_key e c))"

text \<open>
  The callback of \<open>evict\<close> has a state, may change the value or panic, and returns the size of an
  entry that can be evicted. The counter of the source runs up to twice the length of the clock; here the
  rounds that are left are counted.
\<close>

type_synonym ('s, 'k, 'v) evict_callback = "'s \<Rightarrow> 'k \<Rightarrow> 'v \<Rightarrow> ('k \<Rightarrow> bool) \<Rightarrow> ('s \<times> 'v \<times> nat option) option"

definition try_evict ::
  "('s, 'k, 'v) evict_callback \<Rightarrow> 'k \<Rightarrow> 'v cache_entry \<Rightarrow> 's \<Rightarrow> ('k, 'v) clock_cache
    \<Rightarrow> ('s \<times> 'v cache_entry \<times> nat option) option" where
  "try_evict f key e s c =
     (if pins e = 0 then
        if referenced e then Some (s, e\<lparr>referenced := False\<rparr>, None)
        else do {
          (s', value, r) \<leftarrow> f s key (cv_value e) (cc_contains_key c);
          Some (s', e\<lparr>referenced := False, cv_value := value\<rparr>, r) }
      else Some (s, e, None))"

fun evict_loop ::
  "('v \<Rightarrow> nat) \<Rightarrow> ('s, 'k, 'v) evict_callback \<Rightarrow> nat \<Rightarrow> 's \<Rightarrow> ('k, 'v) clock_cache
    \<Rightarrow> ('s \<times> ('k, 'v) clock_cache \<times> ('k \<times> 'v) option) option" where
  "evict_loop cache_size f 0 s c = Some (s, c, None)"
| "evict_loop cache_size f (Suc n) s c = (case cc_clock c of
     [] \<Rightarrow> Some (s, c, None)
   | key # rest \<Rightarrow> do {
       e \<leftarrow> cc_map c key;
       (s', e', eviction_successful) \<leftarrow> try_evict f key e s c;
       case eviction_successful of
         Some sz \<Rightarrow> do {
           assert_that (cache_size (cv_value e') = sz);
           Some (s', c\<lparr>cc_clock := rest, cc_map := (cc_map c)(key := None), evictions := evictions c + 1,
             cc_size := cc_size c - word_of_nat sz\<rparr>, Some (key, cv_value e')) }
       | None \<Rightarrow> evict_loop cache_size f n s' (c\<lparr>cc_map := (cc_map c)(key \<mapsto> e'), cc_clock := rest @ [key]\<rparr>) })"

definition cc_evict ::
  "('v \<Rightarrow> nat) \<Rightarrow> ('s, 'k, 'v) evict_callback \<Rightarrow> 's \<Rightarrow> ('k, 'v) clock_cache
    \<Rightarrow> ('s \<times> ('k, 'v) clock_cache \<times> ('k \<times> 'v) option) option" where
  "cc_evict cache_size f s c = evict_loop cache_size f (2 * length (cc_clock c)) s c"

definition cc_insert :: "('v \<Rightarrow> nat) \<Rightarrow> 'k \<Rightarrow> 'v \<Rightarrow> nat \<Rightarrow> ('k, 'v) clock_cache \<Rightarrow> ('k, 'v) clock_cache option" where
  "cc_insert cache_size key value sz c = do {
     assert_that (cache_size value = sz);
     assert_that (cc_map c key = None);
     Some (c\<lparr>cc_map := (cc_map c)(key \<mapsto> \<lparr>cv_value = value, referenced = False, pins = 0\<rparr>),
       cc_clock := cc_clock c @ [key], insertions := insertions c + 1, cc_size := cc_size c + word_of_nat sz\<rparr>) }"

text \<open>Changing a value through a handle; the values have interior locks.\<close>

definition cc_modify :: "'k \<Rightarrow> ('v \<Rightarrow> 'v) \<Rightarrow> ('k, 'v) clock_cache \<Rightarrow> ('k, 'v) clock_cache" where
  "cc_modify key f c = (case cc_map c key of
     None \<Rightarrow> c | Some e \<Rightarrow> c\<lparr>cc_map := (cc_map c)(key \<mapsto> e\<lparr>cv_value := f (cv_value e)\<rparr>)\<rparr>)"

record cache_stats =
  st_capacity :: nat
  st_size :: "64 word"
  st_len :: nat
  st_hits :: "64 word"
  st_misses :: "64 word"
  st_insertions :: "64 word"
  st_evictions :: "64 word"
  st_removals :: "64 word"

definition cc_stats :: "('k, 'v) clock_cache \<Rightarrow> cache_stats" where
  "cc_stats c = \<lparr>st_capacity = cc_capacity c, st_size = cc_size c, st_len = card (dom (cc_map c)), st_hits = hits c,
     st_misses = misses c, st_insertions = insertions c, st_evictions = evictions c, st_removals = removals c\<rparr>"

definition cc_iter :: "('k, 'v) clock_cache \<Rightarrow> 'k list" where
  "cc_iter c = cc_clock c"

subsection \<open>The invariant\<close>

definition cc_lookup :: "('k, 'v) clock_cache \<Rightarrow> 'k \<Rightarrow> 'v option" where
  "cc_lookup c k = map_option cv_value (cc_map c k)"

definition cc_inv :: "('k, 'v) clock_cache \<Rightarrow> bool" where
  "cc_inv c \<longleftrightarrow> distinct (cc_clock c) \<and> set (cc_clock c) = dom (cc_map c)"

definition unpinned :: "('k, 'v) clock_cache \<Rightarrow> 'k \<Rightarrow> bool" where
  "unpinned c k \<longleftrightarrow> (\<exists>e. cc_map c k = Some e \<and> pins e = 0)"

text \<open>The total of the sizes of the values.\<close>

definition total_size :: "('v \<Rightarrow> nat) \<Rightarrow> ('k, 'v) clock_cache \<Rightarrow> nat" where
  "total_size cache_size c = sum_list (map (\<lambda>k. cache_size (cv_value (the (cc_map c k)))) (cc_clock c))"

definition size_tracked :: "('v \<Rightarrow> nat) \<Rightarrow> ('k, 'v) clock_cache \<Rightarrow> bool" where
  "size_tracked cache_size c \<longleftrightarrow> cc_size c = word_of_nat (total_size cache_size c)"

lemma cc_new_facts: "cc_inv (cc_new cap)" "cc_lookup (cc_new cap) k = None" "size_tracked cs (cc_new cap)"
  by (simp_all add: cc_new_def cc_inv_def cc_lookup_def size_tracked_def total_size_def)

lemma cc_get_facts:
  "fst (cc_get k miss c) = cc_lookup c k" "cc_lookup (snd (cc_get k miss c)) = cc_lookup c" "cc_inv c \<Longrightarrow> cc_inv (snd (cc_get k miss c))"
  "total_size cs (snd (cc_get k miss c)) = total_size cs c" "cc_size (snd (cc_get k miss c)) = cc_size c"
  by (auto simp: cc_get_def cc_lookup_def cc_inv_def total_size_def fun_eq_iff intro!: arg_cong [of _ _ sum_list] split: option.splits)

lemma cc_unpin_facts:
  "cc_lookup (cc_unpin k c) = cc_lookup c" "cc_inv c \<Longrightarrow> cc_inv (cc_unpin k c)"
  by (auto simp: cc_unpin_def cc_lookup_def cc_inv_def fun_eq_iff split: option.splits)

lemma cc_insert_facts:
  assumes "cc_insert cs key value sz c = Some c'"
  shows "cc_lookup c' = (cc_lookup c)(key \<mapsto> value)" "cc_inv c \<Longrightarrow> cc_inv c'" "cc_inv c \<Longrightarrow> size_tracked cs c \<Longrightarrow> size_tracked cs c'"
  using assms
  by (auto simp: cc_insert_def cc_lookup_def cc_inv_def size_tracked_def total_size_def fun_eq_iff split: if_splits
      intro!: arg_cong [of _ _ word_of_nat] arg_cong [of _ _ sum_list])

lemma total_remove:
  assumes "cc_inv c" "cc_map c key = Some e"
  shows "total_size cs c = cs (cv_value e) + total_size cs (c\<lparr>cc_clock := filter (\<lambda>k. k \<noteq> key) (cc_clock c), cc_map := (cc_map c)(key := None)\<rparr>)"
proof -
  have key: "key \<in> set (cc_clock c)" "distinct (cc_clock c)" using assms by (auto simp: cc_inv_def)
  then obtain xs ys where clock: "cc_clock c = xs @ key # ys" by (meson split_list)
  with key(2) have "key \<notin> set xs" "key \<notin> set ys" by auto
  then have "filter (\<lambda>k. k \<noteq> key) xs = xs" "filter (\<lambda>k. k \<noteq> key) ys = ys"
    "map (\<lambda>k. cs (cv_value (the (((cc_map c)(key := None)) k)))) xs = map (\<lambda>k. cs (cv_value (the (cc_map c k)))) xs"
    "map (\<lambda>k. cs (cv_value (the (((cc_map c)(key := None)) k)))) ys = map (\<lambda>k. cs (cv_value (the (cc_map c k)))) ys"
    by (auto simp: filter_id_conv)
  with clock assms(2) show ?thesis by (simp add: total_size_def del: fun_upd_apply map_eq_conv)
qed

lemma cc_remove_facts:
  assumes "cc_remove f key c = Inr (v, c')"
  shows "\<exists>e. cc_map c key = Some e \<and> pins e = 0 \<and> v = fst (f (cv_value e))" "cc_lookup c' = (cc_lookup c)(key := None)"
    "cc_inv c \<Longrightarrow> cc_inv c'" "cc_inv c \<Longrightarrow> size_tracked cs c \<Longrightarrow> (\<And>v. snd (f v) = cs v) \<Longrightarrow> size_tracked cs c'"
proof -
  obtain e where e: "cc_map c key = Some e" "pins e = 0" "v = fst (f (cv_value e))"
    "c' = c\<lparr>cc_clock := filter (\<lambda>k. k \<noteq> key) (cc_clock c), cc_map := (cc_map c)(key := None), removals := removals c + 1,
       cc_size := cc_size c - word_of_nat (snd (f (cv_value e)))\<rparr>"
    using assms by (auto simp: cc_remove_def Let_def case_prod_unfold split: option.splits if_splits)
  then show "\<exists>e. cc_map c key = Some e \<and> pins e = 0 \<and> v = fst (f (cv_value e))" by blast
  show "cc_lookup c' = (cc_lookup c)(key := None)" "cc_inv c \<Longrightarrow> cc_inv c'"
    using e by (auto simp: cc_lookup_def cc_inv_def fun_eq_iff)
  show "size_tracked cs c'" if "cc_inv c" "size_tracked cs c" "\<And>v. snd (f v) = cs v"
    using total_remove [OF that(1) e(1), of cs] that(2,3) e(4) by (simp add: size_tracked_def total_size_def)
qed

lemma set_replace_first:
  "key \<in> set ks \<Longrightarrow> distinct ks \<Longrightarrow> set (replace_first key new ks) = insert new (set ks - {key})"
  by (induction ks) auto

lemma distinct_replace_first:
  "distinct ks \<Longrightarrow> new \<notin> set ks \<or> new = key \<Longrightarrow> distinct (replace_first key new ks)"
proof (induction ks)
  case (Cons k ks)
  have "set (replace_first key new ks) \<subseteq> insert new (set ks)" for ks :: "'a list" by (induction ks) auto
  with Cons show ?case by (auto dest!: subsetD)
qed simp

lemma cc_rename_facts:
  assumes inv: "cc_inv c" and e: "cc_map c key = Some e0" and new: "cc_map c new = None \<or> new = key"
  shows "cc_inv (cc_rename key new e c)" "cc_lookup (cc_rename key new e c) = (cc_lookup c)(key := None, new \<mapsto> cv_value e)"
proof -
  have "key \<in> set (cc_clock c)" "distinct (cc_clock c)" "new \<notin> set (cc_clock c) \<or> new = key"
    using inv e new by (auto simp: cc_inv_def)
  then show "cc_inv (cc_rename key new e c)"
    using inv by (auto simp: cc_inv_def cc_rename_def set_replace_first distinct_replace_first)
  show "cc_lookup (cc_rename key new e c) = (cc_lookup c)(key := None, new \<mapsto> cv_value e)"
    by (auto simp: cc_lookup_def cc_rename_def fun_eq_iff)
qed

subsection \<open>The interface of a cache\<close>

text \<open>
  What a user of a cache relies on: an inserted value is found under its key, a renamed entry
  under its new key, a removed one not at all, and everything else stays. \<open>first_cached\<close> looks
  for an object under the keys it may have had over time.
\<close>

fun first_cached :: "('k \<Rightarrow> 'v option) \<Rightarrow> 'k list \<Rightarrow> 'v option" where
  "first_cached look [] = None"
| "first_cached look (k # ks) = (case look k of Some v \<Rightarrow> Some v | None \<Rightarrow> first_cached look ks)"

locale object_cache =
  fixes inv :: "'c \<Rightarrow> bool"
    and look :: "'c \<Rightarrow> 'k \<Rightarrow> 'v option"
    and insert_op :: "'k \<Rightarrow> 'v \<Rightarrow> 'c \<Rightarrow> 'c option"
    and rename_op :: "'k \<Rightarrow> 'k \<Rightarrow> 'c \<Rightarrow> bool \<times> 'c"
    and remove_op :: "'k \<Rightarrow> 'c \<Rightarrow> bool \<times> 'c"
  assumes insert_law: "inv c \<Longrightarrow> look c k = None \<Longrightarrow> \<exists>c'. insert_op k v c = Some c' \<and> inv c' \<and> look c' = (look c)(k \<mapsto> v)"
    and rename_law: "inv c \<Longrightarrow> look c k = Some v \<Longrightarrow> look c k' = None \<Longrightarrow>
      fst (rename_op k k' c) \<and> inv (snd (rename_op k k' c)) \<and> look (snd (rename_op k k' c)) = (look c)(k := None, k' \<mapsto> v)"
    and rename_absent: "look c k = None \<Longrightarrow> rename_op k k' c = (False, c)"
    and remove_law: "inv c \<Longrightarrow> (fst (remove_op k c) \<longleftrightarrow> look c k \<noteq> None) \<and> inv (snd (remove_op k c))
      \<and> look (snd (remove_op k c)) = (look c)(k := None)"
begin

lemma first_cached_cong: "(\<And>k. k \<in> set ks \<Longrightarrow> look c k = look c' k) \<Longrightarrow> first_cached (look c) ks = first_cached (look c') ks"
  by (induction ks) (auto split: option.splits)

text \<open>An object stays reachable when its entry moves to another key it can be found under.\<close>

lemma rename_found:
  assumes "inv c" "look c k = Some v" "look c k' = None" "k' \<in> set ks" "\<forall>x \<in> set ks. x \<noteq> k \<longrightarrow> look c x = None"
  shows "first_cached (look (snd (rename_op k k' c))) ks = Some v"
  using assms(4,5) unfolding conjunct2 [OF conjunct2 [OF rename_law [OF assms(1-3)]]]
  by (induction ks) (auto split: option.splits)

lemma rename_other:
  assumes "inv c" "look c k = Some v" "look c k' = None" "k \<notin> set ks" "k' \<notin> set ks"
  shows "first_cached (look (snd (rename_op k k' c))) ks = first_cached (look c) ks"
  by (rule first_cached_cong) (use assms(4,5) rename_law [OF assms(1-3)] in auto)

lemma insert_other:
  assumes "inv c" "look c k = None" "insert_op k v c = Some c'" "k \<notin> set ks"
  shows "first_cached (look c') ks = first_cached (look c) ks"
  by (rule first_cached_cong) (use assms(3,4) insert_law [OF assms(1,2), of v] in auto)

lemma remove_other:
  assumes "inv c" "k \<notin> set ks"
  shows "first_cached (look (snd (remove_op k c))) ks = first_cached (look c) ks"
  by (rule first_cached_cong) (use assms(2) remove_law [OF assms(1), of k] in auto)

end

interpretation cch: object_cache cc_inv cc_lookup "\<lambda>k v. cc_insert cs k v (cs v)" cc_force_change_key "\<lambda>k. cc_force_remove k sz" for cs sz
proof
  fix c :: "('a, 'b) clock_cache" and k k' :: 'a and v :: 'b
  show "\<exists>c'. cc_insert cs k v (cs v) c = Some c' \<and> cc_inv c' \<and> cc_lookup c' = (cc_lookup c)(k \<mapsto> v)" if "cc_inv c" "cc_lookup c k = None"
  proof -
    have "cc_insert cs k v (cs v) c \<noteq> None" using that(2) by (simp add: cc_insert_def cc_lookup_def)
    then show ?thesis using cc_insert_facts [of cs k v "cs v" c] that(1) by auto
  qed
  show "fst (cc_force_change_key k k' c) \<and> cc_inv (snd (cc_force_change_key k k' c))
    \<and> cc_lookup (snd (cc_force_change_key k k' c)) = (cc_lookup c)(k := None, k' \<mapsto> v)"
    if "cc_inv c" "cc_lookup c k = Some v" "cc_lookup c k' = None"
    using that cc_rename_facts [OF that(1), of k] by (auto simp: cc_force_change_key_def cc_lookup_def)
  show "cc_force_change_key k k' c = (False, c)" if "cc_lookup c k = None"
    using that by (auto simp: cc_force_change_key_def cc_lookup_def)
  show "(fst (cc_force_remove k sz c) \<longleftrightarrow> cc_lookup c k \<noteq> None) \<and> cc_inv (snd (cc_force_remove k sz c))
    \<and> cc_lookup (snd (cc_force_remove k sz c)) = (cc_lookup c)(k := None)" if "cc_inv c"
  proof (cases "cc_map c k")
    case None
    then have "filter (\<lambda>x. x \<noteq> k) (cc_clock c) = cc_clock c" using that by (auto simp: cc_inv_def filter_id_conv)
    with None that show ?thesis by (auto simp: cc_force_remove_def cc_lookup_def)
  next
    case (Some e)
    with that show ?thesis by (auto simp: cc_force_remove_def cc_lookup_def cc_inv_def Let_def)
  qed
qed

subsection \<open>Eviction\<close>

text \<open>
  What a callback promises: it keeps the invariant \<open>I\<close> of its state, changes a value only within the
  relation \<open>R\<close>, not its size, and when it accepts an entry it reports its size and establishes \<open>Q\<close>.
\<close>

definition callback_ok ::
  "('s \<Rightarrow> bool) \<Rightarrow> ('v \<Rightarrow> 'v \<Rightarrow> bool) \<Rightarrow> ('s \<Rightarrow> 'k \<Rightarrow> 'v \<Rightarrow> bool) \<Rightarrow> ('v \<Rightarrow> nat) \<Rightarrow> ('s, 'k, 'v) evict_callback \<Rightarrow> bool" where
  "callback_ok I R Q cs f \<longleftrightarrow> (\<forall>s k v q s' v' r. I s \<longrightarrow> f s k v q = Some (s', v', r) \<longrightarrow>
     I s' \<and> R v v' \<and> cs v' = cs v \<and> (\<forall>sz. r = Some sz \<longrightarrow> sz = cs v' \<and> Q s' k v'))"

lemma try_evict_ok:
  assumes "callback_ok I R Q cs f" "reflp R" "I s" "try_evict f key e s c = Some (s', e', r)"
  shows "I s'" "R (cv_value e) (cv_value e')" "cs (cv_value e') = cs (cv_value e)" "pins e' = pins e"
    "r = Some sz \<Longrightarrow> sz = cs (cv_value e') \<and> Q s' key (cv_value e') \<and> pins e = 0 \<and> \<not> referenced e"
proof -
  have keep: "I t' \<and> R v v' \<and> cs v' = cs v \<and> (x = Some sz \<longrightarrow> sz = cs v' \<and> Q t' k v')"
    if "f s k v q = Some (t', v', x)" for k v q t' v' x sz
    using assms(1,3) that unfolding callback_ok_def by blast
  show "I s'" "R (cv_value e) (cv_value e')" "cs (cv_value e') = cs (cv_value e)" "pins e' = pins e"
    "r = Some sz \<Longrightarrow> sz = cs (cv_value e') \<and> Q s' key (cv_value e') \<and> pins e = 0 \<and> \<not> referenced e"
    using assms(2-4) by (auto simp: try_evict_def reflp_def split: if_splits bind_splits dest!: keep)
qed

lemma total_rotate:
  assumes "cc_inv c" "cc_clock c = key # rest" "cc_map c key = Some e" "cs (cv_value e') = cs (cv_value e)"
  shows "total_size cs (c\<lparr>cc_map := (cc_map c)(key \<mapsto> e'), cc_clock := rest @ [key]\<rparr>) = total_size cs c"
proof -
  have "key \<notin> set rest" using assms(1,2) by (simp add: cc_inv_def)
  then show ?thesis using assms(2-4) by (auto simp: total_size_def intro!: arg_cong [of _ _ sum_list])
qed

text \<open>Whatever the callback decides, eviction takes out at most one entry, an unpinned one that the callback accepted.\<close>

lemma evict_loop_sound:
  assumes cb: "callback_ok I R Q cs f" and R: "reflp R" "transp R"
    and "cc_inv c" "I s" "evict_loop cs f n s c = Some (s', c', r)"
  shows "I s' \<and> cc_inv c' \<and> (size_tracked cs c \<longrightarrow> size_tracked cs c')
    \<and> (case r of None \<Rightarrow> \<forall>k. rel_option R (cc_lookup c k) (cc_lookup c' k)
       | Some (k, v) \<Rightarrow> unpinned c k \<and> Q s' k v \<and> rel_option R (cc_lookup c k) (Some v) \<and> cc_lookup c' k = None
           \<and> (\<forall>k'. k' \<noteq> k \<longrightarrow> rel_option R (cc_lookup c k') (cc_lookup c' k')))"
  using assms(4-6)
proof (induction n arbitrary: s c)
  case 0
  then show ?case using R(1) by (auto simp: reflp_def intro: option.rel_refl)
next
  case (Suc n)
  show ?case
  proof (cases "cc_clock c")
    case Nil
    then show ?thesis using Suc.prems R(1) by (auto simp: reflp_def intro: option.rel_refl)
  next
    case (Cons key rest)
    then have "key \<in> dom (cc_map c)" using Suc.prems by (auto simp: cc_inv_def)
    then obtain e where e: "cc_map c key = Some e" by blast
    obtain s1 e1 r1 where t: "try_evict f key e s c = Some (s1, e1, r1)"
      using Suc.prems(3) Cons e by (cases "try_evict f key e s c") auto
    note te = try_evict_ok [OF cb R(1) Suc.prems(2) t]
    have key: "key \<notin> set rest" using Suc.prems(1) Cons by (simp add: cc_inv_def)
    show ?thesis
    proof (cases r1)
      case None
      let ?c = "c\<lparr>cc_map := (cc_map c)(key \<mapsto> e1), cc_clock := rest @ [key]\<rparr>"
      have step: "evict_loop cs f n s1 ?c = Some (s', c', r)" using Suc.prems(3) Cons e t None by simp
      have inv: "cc_inv ?c" using Suc.prems(1) Cons e by (auto simp: cc_inv_def)
      have tracked: "size_tracked cs ?c = size_tracked cs c"
        using total_rotate [OF Suc.prems(1) Cons e te(3)] by (simp add: size_tracked_def)
      have unp: "unpinned ?c = unpinned c" using e te(4) by (auto simp: unpinned_def fun_eq_iff)
      have rel: "rel_option R (cc_lookup c k) (cc_lookup ?c k)" for k
        using e te(2) R(1) by (auto simp: cc_lookup_def reflp_def intro: option.rel_refl)
      have trans: "rel_option R (cc_lookup ?c k) x \<Longrightarrow> rel_option R (cc_lookup c k) x" for k x
        using rel [of k] R(2) by (cases x) (auto simp: option_rel_Some1 option_rel_Some2 transp_def)
      show ?thesis using Suc.IH [OF inv te(1) step] trans unfolding tracked unp
        by (auto split: option.splits)
    next
      case (Some sz)
      note sz = te(5) [OF Some]
      let ?c = "c\<lparr>cc_clock := rest, cc_map := (cc_map c)(key := None), evictions := evictions c + 1, cc_size := cc_size c - word_of_nat sz\<rparr>"
      have res: "s' = s1" "c' = ?c" "r = Some (key, cv_value e1)" using Suc.prems(3) Cons e t Some sz by auto
      have rest: "filter (\<lambda>k. k \<noteq> key) (cc_clock c) = rest" using key by (auto simp: Cons filter_id_conv)
      have "size_tracked cs c \<longrightarrow> size_tracked cs ?c"
        using total_remove [OF Suc.prems(1) e, of cs] sz te(3) unfolding rest by (simp add: size_tracked_def total_size_def)
      moreover have "cc_inv ?c" using Suc.prems(1) Cons key by (auto simp: cc_inv_def)
      ultimately show ?thesis using e sz te(1,2) R(1) unfolding res
        by (auto simp: unpinned_def cc_lookup_def reflp_def intro: option.rel_refl)
    qed
  qed
qed

text \<open>A callback that never panics: eviction does not either, the assertion on the size included.\<close>

lemma evict_loop_total:
  assumes cb: "callback_ok I R Q cs f" and R: "reflp R" and total: "\<And>s k v q. I s \<Longrightarrow> f s k v q \<noteq> None"
    and "cc_inv c" "I s"
  shows "\<exists>s' c' r. evict_loop cs f n s c = Some (s', c', r)"
  using assms(4,5)
proof (induction n arbitrary: s c)
  case (Suc n)
  show ?case
  proof (cases "cc_clock c")
    case (Cons key rest)
    then have "key \<in> dom (cc_map c)" using Suc.prems by (auto simp: cc_inv_def)
    then obtain e where e: "cc_map c key = Some e" by blast
    have "try_evict f key e s c \<noteq> None"
      using total [OF Suc.prems(2), of key "cv_value e" "cc_contains_key c"] by (auto simp: try_evict_def)
    then obtain s1 e1 r1 where t: "try_evict f key e s c = Some (s1, e1, r1)" by (metis not_Some_eq prod_cases3)
    note te = try_evict_ok [OF cb R Suc.prems(2) t]
    have inv: "cc_inv (c\<lparr>cc_map := (cc_map c)(key \<mapsto> e1), cc_clock := rest @ [key]\<rparr>)"
      using Suc.prems(1) Cons e by (auto simp: cc_inv_def)
    show ?thesis using Suc.IH [OF inv te(1)] te(5) Cons e t by (cases r1) auto
  qed simp
qed simp

subsection \<open>Which entry is evicted\<close>

text \<open>A callback that accepts the entries satisfying a predicate.\<close>

definition accepting :: "('v \<Rightarrow> nat) \<Rightarrow> ('k \<Rightarrow> 'v \<Rightarrow> bool) \<Rightarrow> (unit, 'k, 'v) evict_callback" where
  "accepting cs P s k v contains = Some (s, v, if P k v then Some (cs v) else None)"

definition evictable :: "('k \<Rightarrow> 'v \<Rightarrow> bool) \<Rightarrow> ('k, 'v) clock_cache \<Rightarrow> 'k \<Rightarrow> bool" where
  "evictable P c k = (case cc_map c k of None \<Rightarrow> False | Some e \<Rightarrow> pins e = 0 \<and> P k (cv_value e))"

definition candidate :: "('k \<Rightarrow> 'v \<Rightarrow> bool) \<Rightarrow> ('k, 'v) clock_cache \<Rightarrow> 'k \<Rightarrow> bool" where
  "candidate P c k = (case cc_map c k of None \<Rightarrow> False | Some e \<Rightarrow> pins e = 0 \<and> \<not> referenced e \<and> P k (cv_value e))"

text \<open>The first entry in clock order that was not referenced, otherwise the first one at all.\<close>

definition victim :: "('k \<Rightarrow> 'v \<Rightarrow> bool) \<Rightarrow> ('k, 'v) clock_cache \<Rightarrow> 'k option" where
  "victim P c = (case find (candidate P c) (cc_clock c) of Some k \<Rightarrow> Some k | None \<Rightarrow> find (evictable P c) (cc_clock c))"

definition clear_reference :: "'v cache_entry \<Rightarrow> 'v cache_entry" where
  "clear_reference e = (if pins e = 0 then e\<lparr>referenced := False\<rparr> else e)"

definition cleared :: "'k set \<Rightarrow> 'k list \<Rightarrow> ('k, 'v) clock_cache \<Rightarrow> ('k, 'v) clock_cache" where
  "cleared ks clock c = c\<lparr>cc_map := (\<lambda>k. if k \<in> ks then map_option clear_reference (cc_map c k) else cc_map c k), cc_clock := clock\<rparr>"

lemma clear_reference_simps [simp]:
  "cv_value (clear_reference e) = cv_value e" "pins (clear_reference e) = pins e" "clear_reference (clear_reference e) = clear_reference e"
  "referenced (clear_reference e) \<longleftrightarrow> referenced e \<and> pins e \<noteq> 0"
  by (simp_all add: clear_reference_def)

lemma cleared_facts:
  "cc_lookup (cleared ks clock c) = cc_lookup c" "cc_clock (cleared ks clock c) = clock"
  "cc_inv c \<Longrightarrow> distinct clock \<Longrightarrow> set clock = set (cc_clock c) \<Longrightarrow> cc_inv (cleared ks clock c)"
  "k \<notin> ks \<Longrightarrow> candidate P (cleared ks clock c) k = candidate P c k" "k \<in> ks \<Longrightarrow> candidate P (cleared ks clock c) k = evictable P c k"
  by (auto simp: cleared_def cc_lookup_def cc_inv_def candidate_def evictable_def fun_eq_iff dom_def option.map_comp o_def
      split: option.splits if_splits)

lemma cleared_twice: "cleared ks clock (cleared ks' clock' c) = cleared (ks \<union> ks') clock c"
proof -
  have "(if k \<in> ks then map_option clear_reference (if k \<in> ks' then map_option clear_reference (cc_map c k) else cc_map c k)
      else if k \<in> ks' then map_option clear_reference (cc_map c k) else cc_map c k)
    = (if k \<in> ks \<union> ks' then map_option clear_reference (cc_map c k) else cc_map c k)" for k
    by (simp add: option.map_comp o_def)
  then show ?thesis by (simp add: cleared_def cong: if_cong)
qed

lemma evict_skip:
  assumes "cc_inv c" "cc_clock c = xs @ ys" "\<forall>k \<in> set xs. \<not> candidate P c k"
  shows "evict_loop cs (accepting cs P) (length xs + n) () c = evict_loop cs (accepting cs P) n () (cleared (set xs) (ys @ xs) c)"
  using assms
proof (induction xs arbitrary: c ys)
  case Nil
  then have "cleared (set []) (ys @ []) c = c" by (simp add: cleared_def)
  then show ?case by simp
next
  case (Cons key xs)
  obtain e where e: "cc_map c key = Some e" using Cons.prems(1,2) by (auto simp: cc_inv_def)
  have "try_evict (accepting cs P) key e () c = Some ((), clear_reference e, None)"
    using Cons.prems(3) e by (auto simp: try_evict_def candidate_def accepting_def clear_reference_def)
  then have step: "evict_loop cs (accepting cs P) (length (key # xs) + n) () c =
      evict_loop cs (accepting cs P) (length xs + n) () (c\<lparr>cc_map := (cc_map c)(key \<mapsto> clear_reference e), cc_clock := (xs @ ys) @ [key]\<rparr>)"
    using Cons.prems(2) e by simp
  have c1: "c\<lparr>cc_map := (cc_map c)(key \<mapsto> clear_reference e), cc_clock := (xs @ ys) @ [key]\<rparr> = cleared {key} (xs @ ys @ [key]) c"
    using e by (simp add: cleared_def fun_upd_def cong: if_cong)
  have key: "key \<notin> set xs" using Cons.prems(1,2) by (simp add: cc_inv_def)
  have "evict_loop cs (accepting cs P) (length xs + n) () (cleared {key} (xs @ ys @ [key]) c)
      = evict_loop cs (accepting cs P) n () (cleared (set xs) ((ys @ [key]) @ xs) (cleared {key} (xs @ ys @ [key]) c))"
  proof (rule Cons.IH)
    have "distinct (xs @ ys @ [key])" "set (xs @ ys @ [key]) = set (cc_clock c)"
      using Cons.prems(1,2) by (auto simp: cc_inv_def)
    then show "cc_inv (cleared {key} (xs @ ys @ [key]) c)" by (rule cleared_facts(3) [OF Cons.prems(1)])
    show "\<forall>k \<in> set xs. \<not> candidate P (cleared {key} (xs @ ys @ [key]) c) k"
    proof
      fix k assume "k \<in> set xs"
      then have "k \<notin> {key}" using key by auto
      then show "\<not> candidate P (cleared {key} (xs @ ys @ [key]) c) k"
        using Cons.prems(3) \<open>k \<in> set xs\<close> by (simp add: cleared_facts(4))
    qed
  qed (simp add: cleared_facts)
  also have "cleared (set xs) ((ys @ [key]) @ xs) (cleared {key} (xs @ ys @ [key]) c) = cleared (set (key # xs)) (ys @ key # xs) c"
    by (simp add: cleared_twice)
  finally show ?case by (simp only: step c1)
qed

lemma evict_hit:
  assumes "cc_clock c = k # rest" "candidate P c k"
  obtains c' where "evict_loop cs (accepting cs P) (Suc n) () c = Some ((), c', Some (k, the (cc_lookup c k)))"
    "cc_lookup c' = (cc_lookup c)(k := None)" "cc_clock c' = rest"
proof -
  obtain e where "cc_map c k = Some e" "pins e = 0" "\<not> referenced e" "P k (cv_value e)"
    using assms(2) by (auto simp: candidate_def split: option.splits)
  then show ?thesis using that assms(1)
    by (auto simp: try_evict_def accepting_def cc_lookup_def fun_eq_iff)
qed

lemma find_split: "find Q xs = Some k \<Longrightarrow> \<exists>us vs. xs = us @ k # vs \<and> Q k \<and> (\<forall>u \<in> set us. \<not> Q u)"
proof (induction xs)
  case (Cons x xs)
  show ?case
  proof (cases "Q x")
    case True
    with Cons.prems show ?thesis by (intro exI [of _ "[]"] exI [of _ xs]) simp
  next
    case False
    with Cons obtain us vs where "xs = us @ k # vs" "Q k" "\<forall>u \<in> set us. \<not> Q u" by auto
    with False show ?thesis by (intro exI [of _ "x # us"] exI [of _ vs]) simp
  qed
qed simp

lemma find_cong_set: "(\<And>x. x \<in> set xs \<Longrightarrow> Q x = R x) \<Longrightarrow> find Q xs = find R xs"
  by (induction xs) auto

lemma evict_round:
  assumes inv: "cc_inv c" and k: "find (candidate P c) (cc_clock c) = Some k"
  obtains c' where "evict_loop cs (accepting cs P) (length (cc_clock c) + n) () c = Some ((), c', Some (k, the (cc_lookup c k)))"
    "cc_lookup c' = (cc_lookup c)(k := None)"
proof -
  obtain us vs where uv: "cc_clock c = us @ k # vs" "candidate P c k" "\<forall>u \<in> set us. \<not> candidate P c u" using find_split [OF k] by blast
  have "k \<notin> set us" using inv uv(1) by (simp add: cc_inv_def)
  let ?c = "cleared (set us) ((k # vs) @ us) c"
  have cand: "candidate P ?c k" using uv(2) \<open>k \<notin> set us\<close> by (simp add: cleared_facts)
  have clock: "cc_clock ?c = k # vs @ us" by (simp add: cleared_facts(2))
  obtain c' where c': "evict_loop cs (accepting cs P) (Suc (length vs + n)) () ?c = Some ((), c', Some (k, the (cc_lookup ?c k)))"
    "cc_lookup c' = (cc_lookup ?c)(k := None)" by (rule evict_hit [OF clock cand])
  have "evict_loop cs (accepting cs P) (length us + Suc (length vs + n)) () c = evict_loop cs (accepting cs P) (Suc (length vs + n)) () ?c"
    by (rule evict_skip [OF inv uv(1,3)])
  moreover have "length (cc_clock c) + n = length us + Suc (length vs + n)" by (simp add: uv(1))
  ultimately have "evict_loop cs (accepting cs P) (length (cc_clock c) + n) () c = Some ((), c', Some (k, the (cc_lookup c k)))"
    using c'(1) by (simp only: cleared_facts(1))
  then show ?thesis by (rule that) (simp add: c'(2) cleared_facts(1))
qed

lemma evict_empty_round:
  assumes inv: "cc_inv c" and none: "find (candidate P c) (cc_clock c) = None"
  shows "evict_loop cs (accepting cs P) (length (cc_clock c) + n) () c
    = evict_loop cs (accepting cs P) n () (cleared (set (cc_clock c)) (cc_clock c) c)"
  using evict_skip [OF inv, of "cc_clock c" "[]" P cs n] none by (simp add: find_None_iff)

text \<open>
  C13. Eviction gives a second chance and finds an entry if there is one: it evicts the first
  unpinned entry in clock order that the callback accepts and that was not referenced since
  the hand passed it, or if there is none the first unpinned entry the callback accepts. It
  fails only if every entry is pinned or refused. All other entries stay.
\<close>

theorem evict_second_chance:
  assumes inv: "cc_inv c"
  shows "\<exists>c'. cc_evict cs (accepting cs P) () c = Some ((), c', map_option (\<lambda>k. (k, the (cc_lookup c k))) (victim P c))
    \<and> (\<forall>k. cc_lookup c' k = (if victim P c = Some k then None else cc_lookup c k)) \<and> cc_inv c'
    \<and> (victim P c = None \<longleftrightarrow> (\<forall>k. \<not> evictable P c k))"
proof -
  have cb: "callback_ok (\<lambda>_. True) (=) (\<lambda>_ _ _. True) cs (accepting cs P)" by (simp add: callback_ok_def accepting_def)
  have ev: "cc_evict cs (accepting cs P) () c = evict_loop cs (accepting cs P) (length (cc_clock c) + length (cc_clock c)) () c"
    by (simp add: cc_evict_def mult_2)
  have dom: "evictable P c k \<Longrightarrow> k \<in> set (cc_clock c)" for k using inv by (auto simp: evictable_def cc_inv_def split: option.splits)
  have cand: "candidate P c k \<Longrightarrow> evictable P c k" for k by (auto simp: candidate_def evictable_def split: option.splits)
  have "\<exists>c'. cc_evict cs (accepting cs P) () c = Some ((), c', map_option (\<lambda>k. (k, the (cc_lookup c k))) (victim P c))
    \<and> (\<forall>k. cc_lookup c' k = (if victim P c = Some k then None else cc_lookup c k)) \<and> (victim P c = None \<longleftrightarrow> (\<forall>k. \<not> evictable P c k))"
  proof (cases "find (candidate P c) (cc_clock c)")
    case (Some k)
    then have "evictable P c k" using find_split [OF Some] cand by blast
    moreover obtain c' where "cc_evict cs (accepting cs P) () c = Some ((), c', Some (k, the (cc_lookup c k)))" "cc_lookup c' = (cc_lookup c)(k := None)"
      using evict_round [OF inv Some] unfolding ev by metis
    ultimately show ?thesis using Some by (auto simp: victim_def)
  next
    case None
    let ?c = "cleared (set (cc_clock c)) (cc_clock c) c"
    have inv': "cc_inv ?c" by (rule cleared_facts(3)) (use inv in \<open>simp_all add: cc_inv_def\<close>)
    have find: "find (candidate P ?c) (cc_clock ?c) = find (evictable P c) (cc_clock c)"
      by (simp add: cleared_facts(2)) (rule find_cong_set, simp add: cleared_facts(5))
    have step: "cc_evict cs (accepting cs P) () c = evict_loop cs (accepting cs P) (length (cc_clock ?c) + 0) () ?c"
      using evict_empty_round [OF inv None] by (simp add: ev cleared_facts)
    show ?thesis
    proof (cases "find (evictable P c) (cc_clock c)")
      case (Some k)
      then have "evictable P c k" using find_split [OF Some] by blast
      moreover have "find (candidate P ?c) (cc_clock ?c) = Some k" using find Some by simp
      then obtain c' where "cc_evict cs (accepting cs P) () c = Some ((), c', Some (k, the (cc_lookup c k)))" "cc_lookup c' = (cc_lookup c)(k := None)"
        using evict_round [OF inv'] unfolding step cleared_facts(1) by metis
      ultimately show ?thesis using Some None by (auto simp: victim_def)
    next
      case no: None
      then have "\<forall>k. \<not> evictable P c k" using dom by (auto simp: find_None_iff)
      moreover have "find (candidate P ?c) (cc_clock ?c) = None" using find no by simp
      then obtain c' where "cc_evict cs (accepting cs P) () c = Some ((), c', None)" "cc_lookup c' = cc_lookup c"
        using evict_empty_round [OF inv', of P cs 0] unfolding step by (simp add: cleared_facts)
      ultimately show ?thesis using no None by (auto simp: victim_def)
    qed
  qed
  moreover have "cc_inv c'" if "cc_evict cs (accepting cs P) () c = Some ((), c', r)" for c' r
    using evict_loop_sound [OF cb _ _ inv] that unfolding cc_evict_def by (simp add: reflp_def transp_def)
  ultimately show ?thesis by (elim exE conjE) (intro exI conjI, assumption+)
qed

definition example_cache :: "(nat, string) clock_cache" where
  "example_cache = the (do {
     c \<leftarrow> cc_insert length 1 ''a'' 1 (cc_new 10);
     c \<leftarrow> cc_insert length 2 ''bb'' 2 c;
     c \<leftarrow> cc_insert length 3 ''ccc'' 3 c;
     Some (cc_unpin 2 (snd (cc_get 2 True (snd (cc_get 1 True c))))) })"

lemma example_cache_unfold:
  "cc_map example_cache = [1 \<mapsto> \<lparr>cv_value = ''a'', referenced = True, pins = 1\<rparr>,
     2 \<mapsto> \<lparr>cv_value = ''bb'', referenced = True, pins = 0\<rparr>, 3 \<mapsto> \<lparr>cv_value = ''ccc'', referenced = False, pins = 0\<rparr>]"
  "cc_clock example_cache = [1, 2, 3]"
  by (auto simp: example_cache_def cc_insert_def cc_new_def cc_get_def cc_unpin_def fun_eq_iff)

text \<open>Entry 1 is pinned and entry 2 was used: 3 is evicted, and if 3 is refused, 2.\<close>

theorem evict_second_chance_witness:
  "\<exists>c1 c2. cc_evict length (accepting length (\<lambda>k v. True)) () example_cache = Some ((), c1, Some (3, ''ccc''))
     \<and> cc_evict length (accepting length (\<lambda>k v. k < 3)) () example_cache = Some ((), c2, Some (2, ''bb'')) \<and> cc_lookup c2 3 = Some ''ccc''"
proof -
  have inv: "cc_inv example_cache" by (auto simp: cc_inv_def example_cache_unfold)
  have lk: "cc_lookup example_cache 2 = Some ''bb''" "cc_lookup example_cache 3 = Some ''ccc''"
    by (simp_all add: cc_lookup_def example_cache_unfold)
  have v: "victim (\<lambda>k v. True) example_cache = Some 3" "victim (\<lambda>k v. k < 3) example_cache = Some 2"
    by (simp_all add: victim_def candidate_def evictable_def example_cache_unfold)
  show ?thesis
    using evict_second_chance [OF inv, of length "\<lambda>k v. True"] evict_second_chance [OF inv, of length "\<lambda>k v. k < 3"]
    unfolding v by (auto simp: lk)
qed

end
