(* ===== verification/PackedLayout.thy ===== *)
theory PackedLayout
  imports PackedChildBuffer
begin

text \<open>
  The serialised form of a child buffer. \<open>layout\<close> states what the readers of a packed map rely
  on; packing establishes it, and under it the binary search, the iterator and unpacking agree
  with the entries that were packed. Bytes after the packed ones (the padding of a disk block)
  do not matter.
\<close>

definition layout :: "csum_lib \<Rightarrow> bytes \<Rightarrow> entries \<Rightarrow> bool" where
  "layout lib bs es \<longleftrightarrow> (\<forall>i < length es. case es ! i of (key, info, val) \<Rightarrow>
     \<exists>pos vpos c. read_key_idx bs i = Some \<lparr>kx_pos = pos, kx_len = length key, kx_pref = ki_pref info\<rparr>
       \<and> cut bs pos (length key) = Some key
       \<and> read_value_pos lib bs (pos + length key) = Some (vpos, length val, c)
       \<and> cut bs vpos (length val) = Some val \<and> csum_verify lib c val
       \<and> valid_pref (ki_pref info) \<and> pos + length key < 2 ^ 32 \<and> vpos + length val < 2 ^ 32)"

lemma layoutE:
  assumes "layout lib bs es" "i < length es" "es ! i = (key, info, val)"
  obtains pos vpos c where
    "read_key_idx bs i = Some \<lparr>kx_pos = pos, kx_len = length key, kx_pref = ki_pref info\<rparr>"
    "cut bs pos (length key) = Some key" "read_value_pos lib bs (pos + length key) = Some (vpos, length val, c)"
    "cut bs vpos (length val) = Some val" "csum_verify lib c val" "valid_pref (ki_pref info)"
    "pos + length key < 2 ^ 32" "vpos + length val < 2 ^ 32"
  using assms by (fastforce simp: layout_def)

lemma pref_from_u8_of_valid: "valid_pref p \<Longrightarrow> pref_from_u8 p = Some p"
  by (auto simp: valid_pref_def pref_from_u8_def NONE_def)

subsection \<open>Unpacking\<close>

lemma read_entry_layout:
  assumes "layout lib bs es" "i < length es"
  shows "\<exists>d. read_entry lib bs i = Some (es ! i, d)"
proof -
  obtain key info val where e: "es ! i = (key, info, val)" by (cases "es ! i")
  obtain pos vpos c where l:
    "read_key_idx bs i = Some \<lparr>kx_pos = pos, kx_len = length key, kx_pref = ki_pref info\<rparr>"
    "cut bs pos (length key) = Some key" "read_value_pos lib bs (pos + length key) = Some (vpos, length val, c)"
    "cut bs vpos (length val) = Some val" "csum_verify lib c val" "valid_pref (ki_pref info)"
    "vpos + length val < 2 ^ 32"
    using layoutE [OF assms e] by metis
  then show ?thesis
    by (simp add: read_entry_def pref_from_u8_of_valid add_u32_def e)
qed

lemma option_all_map:
  "\<forall>x \<in> set xs. \<exists>y. f x = Some y \<and> g y = h x \<Longrightarrow> \<exists>ys. option_all f xs = Some ys \<and> map g ys = map h xs"
  by (induction xs) fastforce+

lemma unpacked_layout:
  assumes "layout lib bs es" "sorted_keys es" "sliced_deref d = Some bs"
  shows "\<exists>delta. unpacked lib (Packed (length es) d) = Some (es, delta)"
proof -
  have "\<forall>i \<in> set [0..<length es]. \<exists>y. read_entry lib bs i = Some y \<and> fst y = es ! i"
    using read_entry_layout [OF assms(1)] by fastforce
  from option_all_map [OF this] obtain ys where
    "option_all (read_entry lib bs) [0..<length es] = Some ys" "map fst ys = es"
    by (auto simp: map_nth)
  with assms(2,3) show ?thesis by (simp add: bt_from_iter_sorted)
qed

subsection \<open>Searching\<close>

lemma find_mid_bounds:
  fixes l r :: int
  assumes "l \<le> r" "0 \<le> l"
  shows "l \<le> (l + r) div 2 + (l + r) mod 2" "(l + r) div 2 + (l + r) mod 2 \<le> r"
  using assms by presburger+

definition find_hit :: "csum_lib \<Rightarrow> bytes \<Rightarrow> entries \<Rightarrow> nat \<Rightarrow> byte \<times> nat \<times> nat \<times> 64 word \<Rightarrow> bool" where
  "find_hit lib bs es j res = (case res of (p, vp, vl, c) \<Rightarrow>
     p = ki_pref (fst (snd (es ! j))) \<and> cut bs vp vl = Some (snd (snd (es ! j)))
     \<and> csum_verify lib c (snd (snd (es ! j))))"

lemma find_loop_layout:
  assumes lay: "layout lib bs es" and sorted: "sorted_keys es"
  shows "0 \<le> l \<Longrightarrow> r < int (length es) \<Longrightarrow>
    \<exists>res. find_loop lib bs key l r = Some res \<and> (case res of
        None \<Rightarrow> \<forall>j. l \<le> int j \<and> int j \<le> r \<longrightarrow> fst (es ! j) \<noteq> key
      | Some hit \<Rightarrow> \<exists>j < length es. fst (es ! j) = key \<and> find_hit lib bs es j hit)"
proof (induction "nat (r - l + 1)" arbitrary: l r rule: less_induct)
  case less
  have key_less: "fst (es ! i) < fst (es ! j) \<longleftrightarrow> i < j" if "i < length es" "j < length es" for i j
    using sorted_wrt_nth_iff_less [OF sorted] that by simp
  show ?case
  proof (cases "l > r")
    case True
    then show ?thesis by (auto simp: find_loop.simps [of lib bs key l r])
  next
    case False
    define mid where "mid = (l + r) div 2 + (l + r) mod 2"
    have mid: "l \<le> mid" "mid \<le> r" using find_mid_bounds [of l r] False less.prems by (auto simp: mid_def)
    define n where "n = nat mid"
    have n: "n < length es" "int n = mid" using mid less.prems by (auto simp: n_def)
    obtain k info val where e: "es ! n = (k, info, val)" by (cases "es ! n")
    obtain pos vpos c where lo:
      "read_key_idx bs n = Some \<lparr>kx_pos = pos, kx_len = length k, kx_pref = ki_pref info\<rparr>"
      "cut bs pos (length k) = Some k" "read_value_pos lib bs (pos + length k) = Some (vpos, length val, c)"
      "cut bs vpos (length val) = Some val" "csum_verify lib c val"
      using layoutE [OF lay n(1) e] by metis
    have step: "find_loop lib bs key l r = (if key < k then find_loop lib bs key l (mid - 1)
        else if key = k then Some (Some (ki_pref info, vpos, length val, c))
        else find_loop lib bs key (mid + 1) r)"
      using False lo by (simp add: find_loop.simps [of lib bs key l r] Let_def mid_def [symmetric] n_def [symmetric])
    consider (lt) "key < k" | (eq) "key = k" | (gt) "k < key" by fastforce
    then show ?thesis
    proof cases
      case lt
      have other: "fst (es ! j) \<noteq> key" if "mid - 1 < int j" "int j \<le> r" for j
      proof -
        have "\<not> fst (es ! j) < fst (es ! n)"
          using key_less [of j n] that n less.prems by auto
        with lt e show ?thesis by auto
      qed
      have "nat (mid - 1 - l + 1) < nat (r - l + 1)" "mid - 1 < int (length es)"
        using mid less.prems by auto
      from less.hyps [OF this(1) less.prems(1) this(2)] obtain res where
        res: "find_loop lib bs key l (mid - 1) = Some res" "case res of
          None \<Rightarrow> \<forall>j. l \<le> int j \<and> int j \<le> mid - 1 \<longrightarrow> fst (es ! j) \<noteq> key
        | Some hit \<Rightarrow> \<exists>j < length es. fst (es ! j) = key \<and> find_hit lib bs es j hit" by blast
      with other lt step show ?thesis by (cases res) (auto simp: not_le [symmetric])
    next
      case eq
      with step lo e n show ?thesis by (auto simp: find_hit_def)
    next
      case gt
      have other: "fst (es ! j) \<noteq> key" if "l \<le> int j" "int j < mid + 1" for j
      proof -
        have "\<not> fst (es ! n) < fst (es ! j)"
          using key_less [of n j] that n less.prems by auto
        with gt e show ?thesis by auto
      qed
      have "nat (r - (mid + 1) + 1) < nat (r - l + 1)" "0 \<le> mid + 1"
        using mid less.prems by auto
      from less.hyps [OF this less.prems(2)] obtain res where
        res: "find_loop lib bs key (mid + 1) r = Some res" "case res of
          None \<Rightarrow> \<forall>j. mid + 1 \<le> int j \<and> int j \<le> r \<longrightarrow> fst (es ! j) \<noteq> key
        | Some hit \<Rightarrow> \<exists>j < length es. fst (es ! j) = key \<and> find_hit lib bs es j hit" by blast
      with other gt step show ?thesis by (cases res) (auto simp: not_le [symmetric])
    qed
  qed
qed

lemma bt_get_nth: "sorted_keys es \<Longrightarrow> j < length es \<Longrightarrow> bt_get es (fst (es ! j)) = Some (snd (es ! j))"
  by (simp add: bt_get_iff_mem)

lemma map_get_layout:
  assumes lay: "layout lib bs es" and sorted: "sorted_keys es" and d: "sliced_deref d = Some bs"
  shows "map_get lib (Packed (length es) d) key = Some (bt_get es key)"
proof -
  obtain res where res: "find_loop lib bs key 0 (int (length es) - 1) = Some res" "case res of
      None \<Rightarrow> \<forall>j. 0 \<le> int j \<and> int j \<le> int (length es) - 1 \<longrightarrow> fst (es ! j) \<noteq> key
    | Some hit \<Rightarrow> \<exists>j < length es. fst (es ! j) = key \<and> find_hit lib bs es j hit"
    using find_loop_layout [OF lay sorted, of 0 "int (length es) - 1" key] by auto
  show ?thesis
  proof (cases res)
    case None
    then have "\<forall>j < length es. fst (es ! j) \<noteq> key" using res(2) by auto
    then have "bt_get es key = None" by (metis bt_get_eq_None imageE in_set_conv_nth)
    with None res(1) d show ?thesis by simp
  next
    case (Some hit)
    then obtain j p vp vl c where j: "j < length es" "fst (es ! j) = key" "hit = (p, vp, vl, c)"
      "p = ki_pref (fst (snd (es ! j)))" "cut bs vp vl = Some (snd (snd (es ! j)))"
      "csum_verify lib c (snd (snd (es ! j)))"
      using res(2) by (cases hit) (auto simp: find_hit_def)
    obtain k info val where e: "es ! j = (k, info, val)" by (cases "es ! j")
    have "valid_pref (ki_pref info)" using layoutE [OF lay j(1) e] by metis
    moreover have "bt_get es key = Some (info, val)" using bt_get_nth [OF sorted j(1)] j(2) e by simp
    ultimately show ?thesis
      using Some res(1) d j e by (simp add: pref_from_u8_of_valid)
  qed
qed

lemma map_is_empty_layout:
  assumes lay: "layout lib bs es" and sorted: "sorted_keys es" and d: "sliced_deref d = Some bs"
  shows "map_is_empty lib (Packed (length es) d) key = Some (\<not> bt_contains_key es key)"
proof -
  have get: "map_get lib (Packed (length es) d) key = Some (bt_get es key)"
    by (rule map_get_layout [OF assms])
  then obtain r where r: "map_find lib (Packed (length es) d) key = Some r" using d
    by (auto simp: bind_eq_Some_conv)
  with get d have "r = None \<longleftrightarrow> bt_get es key = None"
    by (cases r) (auto simp: bind_eq_Some_conv eq_commute [of _ "bt_get es key"] split: if_splits)
  with r show ?thesis by (simp add: bt_contains_key_def del: not_None_eq)
qed

subsection \<open>Iterating\<close>

lemma read_value_pos_cuts:
  "read_value_pos lib bs off = Some (vpos, vlen, c) \<Longrightarrow> \<exists>p l. cut bs off 4 = Some p \<and> cut bs (off + 4) 4 = Some l
    \<and> from_le p = vpos \<and> from_le l = vlen"
  by (auto simp: read_value_pos_def bind_eq_Some_conv)

lemma get_all_messages_layout:
  assumes lay: "layout lib (sliced_bytes d) es" and d: "sliced_wf d"
    and b: "cb_buffer b = Packed (length es) d"
  shows "get_all_messages b = Some es"
proof -
  let ?bs = "sliced_bytes d"
  have "\<exists>kidx. read_key_idx ?bs i = Some kidx \<and> packed_iter_next d kidx = Some (es ! i)" if i: "i < length es" for i
  proof -
    obtain key info val where e: "es ! i = (key, info, val)" by (cases "es ! i")
    obtain pos vpos c where l:
      "read_key_idx ?bs i = Some \<lparr>kx_pos = pos, kx_len = length key, kx_pref = ki_pref info\<rparr>"
      "cut ?bs pos (length key) = Some key" "read_value_pos lib ?bs (pos + length key) = Some (vpos, length val, c)"
      "cut ?bs vpos (length val) = Some val" "valid_pref (ki_pref info)" "pos + length key < 2 ^ 32"
      using layoutE [OF lay i e] by metis
    obtain p v where pv: "cut ?bs (pos + length key) 4 = Some p" "cut ?bs (pos + length key + 4) 4 = Some v"
      "from_le p = vpos" "from_le v = length val"
      using read_value_pos_cuts [OF l(3)] by blast
    have val: "vpos + length val \<le> scb_len d" "val = take (length val) (drop vpos ?bs)"
      using l(4) length_sliced_bytes [OF d] by (auto simp: cut_Some)
    obtain s where s: "subslice d vpos (length val) = Some s" "sliced_wf s" "sliced_bytes s = val"
      using subslice_wf [OF d val(1)] val(2) by metis
    show ?thesis
      using l pv s d e
      by (simp add: packed_iter_next_def sliced_deref_wf add_u32_def pref_from_u8_of_valid)
  qed
  then have "\<forall>i \<in> set [0..<length es]. \<exists>y. read_key_idx ?bs i = Some y \<and> packed_iter_next d y = Some (es ! i)"
    by simp
  from option_all_map [OF this] obtain ks where
    ks: "option_all (read_key_idx ?bs) [0..<length es] = Some ks" "map (packed_iter_next d) ks = map (\<lambda>i. Some (es ! i)) [0..<length es]"
    by blast
  have "option_all f xs = Some ys" if "map f xs = map Some ys" for f :: "key_idx \<Rightarrow> entry option" and xs ys
    using that by (induction xs arbitrary: ys) auto
  moreover have "map (\<lambda>i. Some (es ! i)) [0..<length es] = map Some es"
    by (rule nth_equalityI) auto
  ultimately have "option_all (packed_iter_next d) ks = Some es" using ks(2) by simp
  with ks b d show ?thesis by (simp add: get_all_messages_def sliced_deref_wf)
qed

subsection \<open>Packing\<close>

lemma csum_verify_self: "csum_verify lib (cl_hash lib v) v"
  by (simp add: csum_verify_def)

primrec key_pos :: "nat \<Rightarrow> entry list \<Rightarrow> nat \<Rightarrow> nat" where
  "key_pos f [] i = f"
| "key_pos f (e # es) i = (case i of 0 \<Rightarrow> f | Suc j \<Rightarrow> key_pos (f + (length (fst e) + 16)) es j)"

primrec val_pos :: "nat \<Rightarrow> entry list \<Rightarrow> nat \<Rightarrow> nat" where
  "val_pos g [] i = g"
| "val_pos g (e # es) i = (case i of 0 \<Rightarrow> g | Suc j \<Rightarrow> val_pos (g + length (snd (snd e))) es j)"

abbreviation keys_len :: "entry list \<Rightarrow> nat" where
  "keys_len es \<equiv> sum_list (map (\<lambda>e. length (fst e) + 16) es)"

abbreviation vals_len :: "entry list \<Rightarrow> nat" where
  "vals_len es \<equiv> sum_list (map (\<lambda>e. length (snd (snd e))) es)"

lemma pack_index_after: "snd (pack_index f es) = f + keys_len es"
  by (induction es arbitrary: f) (auto simp: split_beta Let_def CSUM_SIZE_def)

lemma length_pack_index: "length (fst (pack_index f es)) = 9 * length es"
  by (induction es arbitrary: f) (auto simp: split_beta Let_def)

lemma length_cl_ser: "csum_codec lib \<Longrightarrow> length (cl_ser lib c) = 8"
  by (simp add: csum_codec_def CSUM_SIZE_def)

lemma cl_de_ser: "csum_codec lib \<Longrightarrow> cl_de lib (cl_ser lib c) = c"
  by (simp add: csum_codec_def)

lemma length_pack_keys: "csum_codec lib \<Longrightarrow> length (pack_keys lib g es) = keys_len es"
  by (induction es arbitrary: g) (auto simp: length_cl_ser)

lemma key_pos_offset: "key_pos (f + x) es i = key_pos f es i + x"
proof (induction es arbitrary: f i)
  case (Cons e es)
  have c: "f + x + (length (fst e) + 16) = f + (length (fst e) + 16) + x" by simp
  show ?case using Cons [of "f + (length (fst e) + 16)"] by (cases i) (simp_all only: key_pos.simps nat.case c)
qed simp

lemma val_pos_offset: "val_pos (f + x) es i = val_pos f es i + x"
proof (induction es arbitrary: f i)
  case (Cons e es)
  have c: "f + x + length (snd (snd e)) = f + length (snd (snd e)) + x" by simp
  show ?case using Cons [of "f + length (snd (snd e))"] by (cases i) (simp_all only: val_pos.simps nat.case c)
qed simp

lemma key_pos_bound:
  "i < length es \<Longrightarrow> key_pos f es i + length (fst (es ! i)) + 16 \<le> f + keys_len es"
proof (induction es arbitrary: f i)
  case (Cons e es)
  show ?case
  proof (cases i)
    case (Suc j)
    with Cons.prems have "j < length es" by simp
    from Cons.IH [OF this, of "f + (length (fst e) + 16)"] Suc show ?thesis by simp
  qed simp
qed simp

lemma val_pos_bound:
  "i < length es \<Longrightarrow> val_pos g es i + length (snd (snd (es ! i))) \<le> g + vals_len es"
proof (induction es arbitrary: g i)
  case (Cons e es)
  show ?case
  proof (cases i)
    case (Suc j)
    with Cons.prems have "j < length es" by simp
    from Cons.IH [OF this, of "g + length (snd (snd e))"] Suc show ?thesis by simp
  qed simp
qed simp

lemma cut_after: "cut (xs @ ys) (length xs + p) n = cut ys p n"
  by (simp add: cut_append_right)

lemma cut_front: "length xs = n \<Longrightarrow> cut (xs @ ys) 0 n = Some xs"
  by (simp add: cut_def)

lemma pack_index_nth:
  "i < length es \<Longrightarrow> cut (fst (pack_index f es)) (9 * i) 9 =
    Some (to_le 4 (key_pos f es i) @ to_le 4 (length (fst (es ! i))) @ [ki_pref (fst (snd (es ! i)))])"
proof (induction es arbitrary: f i)
  case (Cons e es)
  obtain key info val where e: "e = (key, info, val)" by (cases e)
  let ?rec = "to_le 4 f @ to_le 4 (length key) @ [ki_pref info]"
  let ?rest = "fst (pack_index (f + (length key + 16)) es)"
  have pack: "fst (pack_index f (e # es)) = ?rec @ ?rest"
    by (simp add: e split_beta Let_def CSUM_SIZE_def add.commute [of 16])
  show ?case
  proof (cases i)
    case 0
    show ?thesis unfolding pack 0 using cut_front [of ?rec 9 ?rest] by (simp add: e)
  next
    case (Suc j)
    with Cons have "cut ?rest (9 * j) 9 = Some (to_le 4 (key_pos (f + (length key + 16)) es j)
        @ to_le 4 (length (fst (es ! j))) @ [ki_pref (fst (snd (es ! j)))])" by simp
    with cut_after [of ?rec ?rest "9 * j" 9] show ?thesis unfolding pack Suc by (simp add: e)
  qed
qed simp

lemma pack_keys_nth:
  "csum_codec lib \<Longrightarrow> i < length es \<Longrightarrow> cut (pack_keys lib g es) (key_pos 0 es i) (length (fst (es ! i)) + 16) =
    Some (fst (es ! i) @ to_le 4 (val_pos g es i) @ to_le 4 (length (snd (snd (es ! i))))
      @ cl_ser lib (cl_hash lib (snd (snd (es ! i)))))"
proof (induction es arbitrary: g i)
  case (Cons e es)
  obtain key info val where e: "e = (key, info, val)" by (cases e)
  let ?rec = "key @ to_le 4 g @ to_le 4 (length val) @ cl_ser lib (cl_hash lib val)"
  let ?rest = "pack_keys lib (g + length val) es"
  have pack: "pack_keys lib g (e # es) = ?rec @ ?rest" by (simp add: e)
  show ?case
  proof (cases i)
    case 0
    show ?thesis unfolding pack 0 using cut_front [of ?rec "length key + 16" ?rest] Cons.prems
      by (simp add: e length_cl_ser)
  next
    case (Suc j)
    have "key_pos 0 (e # es) i = length ?rec + key_pos 0 es j"
      using key_pos_offset [of 0 "length key + 16" es j] Cons.prems by (simp add: e Suc length_cl_ser)
    with Cons Suc cut_after [of ?rec ?rest "key_pos 0 es j"] show ?thesis unfolding pack by (simp add: e)
  qed
qed simp

lemma pack_vals_nth:
  "i < length es \<Longrightarrow> cut (concat (map (\<lambda>e. snd (snd e)) es)) (val_pos 0 es i) (length (snd (snd (es ! i))))
    = Some (snd (snd (es ! i)))"
proof (induction es arbitrary: i)
  case (Cons e es)
  show ?case
  proof (cases i)
    case 0
    then show ?thesis using cut_front [of "snd (snd e)"] by simp
  next
    case (Suc j)
    have "val_pos 0 (e # es) i = length (snd (snd e)) + val_pos 0 es j"
      using val_pos_offset [of 0 "length (snd (snd e))" es j] by (simp add: Suc)
    with Cons Suc cut_after [of "snd (snd e)" _ "val_pos 0 es j"] show ?thesis by simp
  qed
qed simp

lemma cut_within: "cut ys p n = Some z \<Longrightarrow> cut (xs @ ys @ zs) (length xs + p) n = Some z"
  by (auto simp: cut_def split: if_splits)

lemma cut_split:
  assumes "cut bs p (a + b) = Some (x @ y)" "length x = a"
  shows "cut bs p a = Some x" "cut bs (p + a) b = Some y"
proof -
  have "take (a + b) (drop p bs) = x @ y" "p + (a + b) \<le> length bs"
    using assms(1) by (auto simp: cut_Some)
  then have "take a (drop p bs) = x" "take b (drop (p + a) bs) = y"
    using assms(2) by (auto simp: take_add append_eq_append_conv add.commute)
  with \<open>p + (a + b) \<le> length bs\<close> show "cut bs p a = Some x" "cut bs (p + a) b = Some y"
    by (auto simp: cut_def)
qed

definition pack_total :: "entry list \<Rightarrow> nat" where
  "pack_total es = 10 + 9 * length es + keys_len es + vals_len es"

lemma pack_total_size: "pack_total es = HEADER + entry_sum entry_size es"
  by (induction es)
    (auto simp: pack_total_def HEADER_def entry_size_def cow_size_def value_size_def key_info_size_def CSUM_SIZE_def)

lemma length_concat_vals: "length (concat (map (\<lambda>e. snd (snd e)) es)) = vals_len es"
  by (induction es) auto

lemma pack_head_parts:
  "pack_head lib leaf sz pref es = ([if leaf then 1 else 0] @ to_le 4 (length es) @ to_le 4 sz @ [pref])
     @ fst (pack_index (10 + 9 * length es) es) @ pack_keys lib (10 + 9 * length es + keys_len es) es"
  using pack_index_after [of "10 + 9 * length es" es]
  by (simp add: pack_head_def HEADER_def KEY_IDX_SIZE_def split_beta Let_def mult.commute [of "length es"])

lemma length_pack_head: "csum_codec lib \<Longrightarrow> length (pack_head lib leaf sz pref es) = 10 + 9 * length es + keys_len es"
  by (simp add: pack_head_parts length_pack_index length_pack_keys)

lemma packed_key_idx:
  assumes i: "i < length es" and sz: "pack_total es < 2 ^ 32"
  shows "read_key_idx (pack_head lib leaf es_size pref es @ rest) i =
    Some \<lparr>kx_pos = key_pos (10 + 9 * length es) es i, kx_len = length (fst (es ! i)), kx_pref = ki_pref (fst (snd (es ! i)))\<rparr>"
proof -
  let ?f = "10 + 9 * length es" and ?g = "10 + 9 * length es + keys_len es"
  let ?A = "[if leaf then 1 else 0] @ to_le 4 (length es) @ to_le 4 es_size @ [pref]"
  have "key_pos ?f es i < 256 ^ 4" "length (fst (es ! i)) < 256 ^ 4"
    using key_pos_bound [OF i, of ?f] sz by (simp_all add: pack_total_def)
  with cut_within [OF pack_index_nth [OF i, of ?f], of ?A "pack_keys lib ?g es @ rest"] show ?thesis
    by (simp add: pack_head_parts read_key_idx_def HEADER_def KEY_IDX_SIZE_def key_idx_unpack_def
        from_le_to_le nth_append)
qed

lemma key_pos_last: "es \<noteq> [] \<Longrightarrow> key_pos f es (length es - 1) + length (fst (last es)) + 16 = f + keys_len es"
proof (induction es arbitrary: f)
  case (Cons e es)
  then show ?case
    by (cases es) (auto simp: add.assoc [symmetric] dest: meta_spec [of _ "f + (length (fst e) + 16)"])
qed simp

lemma pack_layout:
  assumes sz: "pack_total es < 2 ^ 32" and prefs: "\<forall>e \<in> set es. valid_pref (ki_pref (fst (snd e)))"
    and codec: "csum_codec lib"
  shows "layout lib (pack_head lib leaf es_size pref es @ concat (map (\<lambda>e. snd (snd e)) es) @ pad) es"
  unfolding layout_def
proof (intro allI impI)
  note [simp] = length_cl_ser [OF codec] cl_de_ser [OF codec]
  fix i assume i: "i < length es"
  obtain key info val where e: "es ! i = (key, info, val)" by (cases "es ! i")
  let ?f = "10 + 9 * length es" and ?g = "10 + 9 * length es + keys_len es"
  let ?A = "[if leaf then 1 else 0] @ to_le 4 (length es) @ to_le 4 es_size @ [pref]"
  let ?I = "fst (pack_index ?f es)" and ?K = "pack_keys lib ?g es" and ?V = "concat (map (\<lambda>e. snd (snd e)) es)"
  define bs where "bs = pack_head lib leaf es_size pref es @ ?V @ pad"
  have bs: "bs = ?A @ ?I @ ?K @ ?V @ pad" by (simp add: bs_def pack_head_parts)
  let ?pos = "key_pos ?f es i" and ?vpos = "val_pos ?g es i"
  have pos: "?pos = ?f + key_pos 0 es i" "?vpos = ?g + val_pos 0 es i"
    using key_pos_offset [of 0 ?f es i] val_pos_offset [of 0 ?g es i] by simp_all
  have bounds: "?pos + length key + 16 \<le> ?g" "?vpos + length val \<le> pack_total es"
    using key_pos_bound [OF i, of ?f] val_pos_bound [OF i, of ?g] e by (simp_all add: pack_total_def)
  have small: "?pos < 256 ^ 4" "length key < 256 ^ 4" "?vpos < 256 ^ 4" "length val < 256 ^ 4"
    using bounds sz by (simp_all add: pack_total_def)
  have "cut bs (length (?A @ ?I) + key_pos 0 es i) (length key + 16) =
      Some (key @ to_le 4 ?vpos @ to_le 4 (length val) @ cl_ser lib (cl_hash lib val))"
    using cut_within [OF pack_keys_nth [OF codec i, of ?g], of "?A @ ?I" "?V @ pad"] e
    by (simp only: bs append_assoc fst_conv snd_conv)
  then have rec: "cut bs ?pos (length key + 16) =
      Some (key @ to_le 4 ?vpos @ to_le 4 (length val) @ cl_ser lib (cl_hash lib val))"
    by (simp add: pos length_pack_index)
  note key = cut_split [OF rec refl]
  have "cut bs (?pos + length key) (4 + 12) = Some (to_le 4 ?vpos @ to_le 4 (length val) @ cl_ser lib (cl_hash lib val))"
    using key(2) by simp
  note vp = cut_split [OF this length_to_le]
  have "cut bs (?pos + length key + 4) (4 + 8) = Some (to_le 4 (length val) @ cl_ser lib (cl_hash lib val))"
    using vp(2) by simp
  note vl = cut_split [OF this length_to_le]
  have "cut bs (length (?A @ ?I @ ?K) + val_pos 0 es i) (length val) = Some val"
    using cut_within [OF pack_vals_nth [OF i], of "?A @ ?I @ ?K" pad] e
    by (simp only: bs append_assoc fst_conv snd_conv)
  then have val: "cut bs ?vpos (length val) = Some val"
    unfolding pos(2) by (simp add: length_pack_index length_pack_keys [OF codec] add.assoc)
  have "read_key_idx bs i = Some \<lparr>kx_pos = ?pos, kx_len = length key, kx_pref = ki_pref info\<rparr>"
    using packed_key_idx [OF i sz, of lib leaf es_size pref "?V @ pad"] e by (simp add: bs_def)
  moreover have "read_value_pos lib bs (?pos + length key) = Some (?vpos, length val, cl_hash lib val)"
    using vp(1) vl small by (simp add: read_value_pos_def CSUM_SIZE_def from_le_to_le)
  moreover have "valid_pref (ki_pref info)" using prefs i e by (metis fst_conv nth_mem snd_conv)
  moreover have "?pos + length key < 2 ^ 32" "?vpos + length val < 2 ^ 32"
    using bounds sz by (simp_all add: pack_total_def)
  ultimately show "case es ! i of (key, info, val) \<Rightarrow>
     \<exists>pos vpos c. read_key_idx bs i = Some \<lparr>kx_pos = pos, kx_len = length key, kx_pref = ki_pref info\<rparr>
       \<and> cut bs pos (length key) = Some key \<and> read_value_pos lib bs (pos + length key) = Some (vpos, length val, c)
       \<and> cut bs vpos (length val) = Some val \<and> csum_verify lib c val
       \<and> valid_pref (ki_pref info) \<and> pos + length key < 2 ^ 32 \<and> vpos + length val < 2 ^ 32"
    using key(1) val csum_verify_self [of lib val] by (simp only: e prod.case) blast
qed

subsection \<open>Round trips\<close>

definition prefs_valid :: "entries \<Rightarrow> bool" where
  "prefs_valid es \<longleftrightarrow> (\<forall>e \<in> set es. valid_pref (ki_pref (fst (snd e))))"

lemma pcb_pack_unpacked:
  fixes lib :: csum_lib
  assumes codec: "csum_codec lib" and b: "cb_buffer b = Unpacked m" "size_exact b m" "pcb_size b < 2 ^ 32" "valid_pref (system_storage_preference b)"
  defines "tmp \<equiv> pack_head lib (is_leaf b) (entries_size b) (system_storage_preference b) m"
  shows "pcb_pack lib b = Some (tmp @ concat (map (\<lambda>e. snd (snd e)) m), Internal (cl_hash lib tmp) (length tmp))"
    "length (tmp @ concat (map (\<lambda>e. snd (snd e)) m)) = pcb_size b"
proof -
  have "pack_total m = pcb_size b"
    using b(2) by (simp add: pack_total_size pcb_size_def size_exact_def)
  then show len: "length (tmp @ concat (map (\<lambda>e. snd (snd e)) m)) = pcb_size b"
    by (simp add: tmp_def length_pack_head [OF codec] length_concat_vals pack_total_def)
  then have "length tmp < 2 ^ 32" using b(3) by simp
  with b(1,4) show "pcb_pack lib b = Some (tmp @ concat (map (\<lambda>e. snd (snd e)) m), Internal (cl_hash lib tmp) (length tmp))"
    by (simp add: pcb_pack_def strong_bound_def system_to_pref_def pref_from_u8_of_valid tmp_def [symmetric])
qed

lemma pcb_unpack_packed:
  assumes bs: "bs = pack_head lib leaf sz pref m @ rest" and deref: "sliced_deref d = Some bs"
    and small: "length m < 2 ^ 32" "sz < 2 ^ 32" and pref: "valid_pref pref"
  shows "pcb_unpack lib d (Internal (cl_hash lib (pack_head lib leaf sz pref m)) (length (pack_head lib leaf sz pref m)))
    = Some (Some \<lparr>messages_preference = pref, system_storage_preference = pref, entries_size = sz,
        cb_buffer = Packed (length m) d, is_leaf = leaf\<rparr>)"
proof -
  let ?tmp = "pack_head lib leaf sz pref m"
  have parts: "bs = [if leaf then 1 else 0] @ to_le 4 (length m) @ to_le 4 sz @ [pref] @ drop 10 bs"
    by (simp add: bs pack_head_parts)
  have "nth_opt bs 0 = Some (if leaf then 1 else 0)" "nth_opt bs 9 = Some pref"
    by (subst parts, simp add: nth_opt_def nth_append)+
  moreover have "cut bs 1 4 = Some (to_le 4 (length m))" "cut bs 5 4 = Some (to_le 4 sz)"
    by (subst parts, simp add: cut_def)+
  moreover have "cut bs 0 (length ?tmp) = Some ?tmp" by (simp add: bs cut_front)
  ultimately show ?thesis
    using small pref
    by (simp add: pcb_unpack_def deref csum_verify_self pref_from_u8_of_valid from_le_to_le atomic_known_def system_from_def)
qed

text \<open>What packing writes and what unpacking makes of it.\<close>

definition packed_bytes :: "csum_lib \<Rightarrow> packed_child_buffer \<Rightarrow> entries \<Rightarrow> bytes" where
  "packed_bytes lib b m = pack_head lib (is_leaf b) (entries_size b) (system_storage_preference b) m
     @ concat (map (\<lambda>e. snd (snd e)) m)"

definition packed_mode :: "csum_lib \<Rightarrow> packed_child_buffer \<Rightarrow> entries \<Rightarrow> integrity_mode" where
  "packed_mode lib b m =
     (let tmp = pack_head lib (is_leaf b) (entries_size b) (system_storage_preference b) m in Internal (cl_hash lib tmp) (length tmp))"

definition reloaded :: "packed_child_buffer \<Rightarrow> entries \<Rightarrow> sliced_cow_bytes \<Rightarrow> packed_child_buffer" where
  "reloaded b m d = \<lparr>messages_preference = system_storage_preference b,
    system_storage_preference = system_storage_preference b, entries_size = entries_size b,
    cb_buffer = Packed (length m) d, is_leaf = is_leaf b\<rparr>"

definition storable :: "packed_child_buffer \<Rightarrow> entries \<Rightarrow> bool" where
  "storable b m \<longleftrightarrow> cb_buffer b = Unpacked m \<and> sorted_keys m \<and> size_exact b m \<and> prefs_valid m
     \<and> valid_pref (system_storage_preference b)"

lemma storable_total: "storable b m \<Longrightarrow> pack_total m = pcb_size b"
  by (simp add: storable_def size_exact_def pack_total_size pcb_size_def)

lemma pcb_pack_storable:
  assumes codec: "csum_codec lib" and b: "storable b m" and small: "pcb_size b < 2 ^ 32"
  shows "pcb_pack lib b = Some (packed_bytes lib b m, packed_mode lib b m)"
    "length (packed_bytes lib b m) = pcb_size b"
proof -
  have m: "cb_buffer b = Unpacked m" "size_exact b m" "valid_pref (system_storage_preference b)"
    using b by (simp_all add: storable_def)
  show "pcb_pack lib b = Some (packed_bytes lib b m, packed_mode lib b m)"
    by (simp add: pcb_pack_unpacked(1) [OF codec m(1,2) small m(3)] packed_bytes_def packed_mode_def Let_def)
  show "length (packed_bytes lib b m) = pcb_size b"
    unfolding packed_bytes_def by (rule pcb_pack_unpacked(2) [OF codec m(1,2) small m(3)])
qed

text \<open>\<open>packable\<close> also covers a buffer that was read and not unpacked since: its bytes begin with
  what packing wrote.\<close>

definition packable :: "csum_lib \<Rightarrow> packed_child_buffer \<Rightarrow> entries \<Rightarrow> bool" where
  "packable lib b m \<longleftrightarrow> sorted_keys m \<and> size_exact b m \<and> prefs_valid m \<and> valid_pref (system_storage_preference b)
     \<and> (case cb_buffer b of Unpacked m' \<Rightarrow> m' = m
        | Packed n d \<Rightarrow> n = length m \<and> sliced_wf d \<and> take (pcb_size b) (sliced_bytes d) = packed_bytes lib b m)"

lemma storable_packable: "storable b m \<Longrightarrow> packable lib b m"
  by (simp add: storable_def packable_def)

lemma packable_total: "packable lib b m \<Longrightarrow> pack_total m = pcb_size b"
  by (simp add: packable_def size_exact_def pack_total_size pcb_size_def)

lemma pcb_pack_packable:
  assumes codec: "csum_codec lib" and b: "packable lib b m" and small: "pcb_size b < 2 ^ 32"
  shows "pcb_pack lib b = Some (packed_bytes lib b m, packed_mode lib b m)"
    "length (packed_bytes lib b m) = pcb_size b"
proof -
  define tmp where "tmp = pack_head lib (is_leaf b) (entries_size b) (system_storage_preference b) m"
  have total: "pack_total m < 2 ^ 32" using packable_total [OF b] small by simp
  show size: "length (packed_bytes lib b m) = pcb_size b"
    using packable_total [OF b] by (simp add: packed_bytes_def length_pack_head [OF codec] length_concat_vals pack_total_def)
  show "pcb_pack lib b = Some (packed_bytes lib b m, packed_mode lib b m)"
  proof (cases "cb_buffer b")
    case (Unpacked m')
    with b have "storable b m" by (auto simp: packable_def storable_def)
    then show ?thesis by (rule pcb_pack_storable(1) [OF codec _ small])
  next
    case (Packed n d)
    define bs where "bs = sliced_bytes d"
    have d: "n = length m" "sliced_deref d = Some bs" "take (pcb_size b) bs = packed_bytes lib b m"
      using b Packed by (simp_all add: packable_def sliced_deref_wf bs_def)
    have bs: "bs = packed_bytes lib b m @ drop (pcb_size b) bs" using d(3) by (metis append_take_drop_id)
    have len: "len_bytes_contained_in_checksum (Packed (length m) d) = Some (length tmp)"
    proof (cases "m = []")
      case True
      then show ?thesis by (simp add: tmp_def length_pack_head [OF codec] HEADER_def)
    next
      case False
      define rest where "rest = concat (map (\<lambda>e. snd (snd e)) m) @ drop (pcb_size b) bs"
      have bs': "bs = tmp @ rest" using bs by (simp add: packed_bytes_def tmp_def rest_def)
      have "length m - 1 < length m" using False by simp
      from packed_key_idx [OF this total] False have "read_key_idx bs (length m - 1) = Some \<lparr>kx_pos = key_pos (10 + 9 * length m) m (length m - 1),
          kx_len = length (fst (last m)), kx_pref = ki_pref (fst (snd (last m)))\<rparr>"
        unfolding bs' tmp_def by (simp add: last_conv_nth)
      with False d key_pos_last [OF False, of "10 + 9 * length m"] show ?thesis
        by (simp add: tmp_def length_pack_head [OF codec] CSUM_SIZE_def)
    qed
    have "length tmp \<le> length (packed_bytes lib b m)" by (simp add: packed_bytes_def tmp_def)
    then have "length tmp < 2 ^ 32" using size small by simp
    moreover have "cut bs 0 (pcb_size b) = Some (packed_bytes lib b m)" by (subst bs) (simp add: cut_front size)
    moreover have "cut bs 0 (length tmp) = Some tmp" by (subst bs) (simp add: packed_bytes_def tmp_def cut_front)
    ultimately show ?thesis
      using len d Packed by (simp add: pcb_pack_def packed_mode_def Let_def tmp_def [symmetric])
  qed
qed

lemma pcb_unpack_packable:
  assumes codec: "csum_codec lib" and b: "packable lib b m" and small: "pcb_size b < 2 ^ 32"
    and d: "sliced_wf d" "sliced_bytes d = packed_bytes lib b m @ pad"
  shows "pcb_unpack lib d (packed_mode lib b m) = Some (Some (reloaded b m d))" "layout lib (sliced_bytes d) m"
    "packable lib (reloaded b m d) m"
proof -
  have m: "prefs_valid m" "valid_pref (system_storage_preference b)"
    using b by (simp_all add: packable_def)
  note total = packable_total [OF b]
  have "length m \<le> pack_total m" "entries_size b \<le> pcb_size b" by (simp_all add: pack_total_def pcb_size_def)
  then have "length m < 2 ^ 32" "entries_size b < 2 ^ 32" using total small by simp_all
  with m(2) d show "pcb_unpack lib d (packed_mode lib b m) = Some (Some (reloaded b m d))"
    unfolding packed_mode_def reloaded_def Let_def
    by (intro pcb_unpack_packed [where rest = "concat (map (\<lambda>e. snd (snd e)) m) @ pad" and bs = "sliced_bytes d"])
      (simp_all add: packed_bytes_def sliced_deref_wf)
  have "layout lib (pack_head lib (is_leaf b) (entries_size b) (system_storage_preference b) m
      @ concat (map (\<lambda>e. snd (snd e)) m) @ pad) m"
    by (rule pack_layout) (use total small m(1) codec in \<open>auto simp: prefs_valid_def\<close>)
  then show "layout lib (sliced_bytes d) m" using d by (simp add: packed_bytes_def)
  have "packed_bytes lib (reloaded b m d) m = packed_bytes lib b m" "pcb_size (reloaded b m d) = pcb_size b"
    by (simp_all add: packed_bytes_def reloaded_def pcb_size_def)
  then show "packable lib (reloaded b m d) m"
    using b d pcb_pack_packable(2) [OF codec b small] by (simp add: packable_def reloaded_def size_exact_def)
qed

text \<open>\<open>buffer_holds\<close>: the buffer has the entries, and packed bytes can be read entry by entry.\<close>

definition buffer_holds :: "csum_lib \<Rightarrow> packed_child_buffer \<Rightarrow> entries \<Rightarrow> bool" where
  "buffer_holds lib b m \<longleftrightarrow> sorted_keys m \<and> (case cb_buffer b of Unpacked m' \<Rightarrow> m' = m
     | Packed n d \<Rightarrow> n = length m \<and> sliced_wf d \<and> layout lib (sliced_bytes d) m)"

lemma buffer_holds_reads:
  assumes "buffer_holds lib b m"
  shows "contents lib b = Some m" "pcb_get lib b key = Some (bt_get m key)" "get_all_messages b = Some m" "sorted_keys m"
proof -
  show "sorted_keys m" using assms by (simp add: buffer_holds_def)
  show "contents lib b = Some m" "pcb_get lib b key = Some (bt_get m key)" "get_all_messages b = Some m"
  proof (atomize (full), cases "cb_buffer b")
    case (Packed n d)
    with assms have d: "layout lib (sliced_bytes d) m" "sorted_keys m" "sliced_wf d" "sliced_deref d = Some (sliced_bytes d)" "n = length m"
      by (simp_all add: buffer_holds_def sliced_deref_wf)
    have "get_all_messages b = Some m"
      by (rule get_all_messages_layout [of lib d]) (use d Packed in simp_all)
    with unpacked_layout [OF d(1,2,4)] map_get_layout [OF d(1,2,4)] Packed d(5)
    show "contents lib b = Some m \<and> pcb_get lib b key = Some (bt_get m key) \<and> get_all_messages b = Some m"
      by (auto simp: contents_def pcb_get_def)
  qed (use assms in \<open>simp add: buffer_holds_def contents_def pcb_get_def get_all_messages_def\<close>)
qed

lemma buffer_holds_unpacked: "cb_buffer b = Unpacked m \<Longrightarrow> buffer_holds lib b m \<longleftrightarrow> sorted_keys m"
  by (simp add: buffer_holds_def)

lemma reloaded_holds:
  "layout lib (sliced_bytes d) m \<Longrightarrow> sorted_keys m \<Longrightarrow> sliced_wf d \<Longrightarrow> buffer_holds lib (reloaded b m d) m"
  by (simp add: buffer_holds_def reloaded_def)

text \<open>
  C3. Packing and unpacking is the identity on the entries: an in-memory buffer whose
  maintained size is exact packs into exactly \<open>size()\<close> bytes; unpacking these bytes, followed by
  any padding, gives a buffer on which the binary search finds every entry, the iterator
  yields the entries in order and unpacking restores the map.
\<close>

theorem pack_unpack_roundtrip:
  assumes "csum_codec lib" "storable b m" "pcb_size b + length pad < 2 ^ 32"
  shows "\<exists>out mode b'. pcb_pack lib b = Some (out, mode) \<and> length out = pcb_size b
    \<and> pcb_unpack lib (sliced_of_cow (out @ pad)) mode = Some (Some b')
    \<and> contents lib b' = Some m \<and> size_exact b' m \<and> is_leaf b' = is_leaf b
    \<and> (\<forall>key. pcb_get lib b' key = Some (bt_get m key)) \<and> get_all_messages b' = Some m"
proof -
  define d where "d = sliced_of_cow (packed_bytes lib b m @ pad)"
  have small: "pcb_size b < 2 ^ 32" using assms(3) by simp
  note b = storable_packable [OF assms(2)]
  note pack = pcb_pack_packable [OF assms(1) b small]
  have "length (packed_bytes lib b m @ pad) < 2 ^ 32" using pack(2) assms(3) by simp
  then have d: "sliced_wf d" "sliced_bytes d = packed_bytes lib b m @ pad"
    unfolding d_def by (rule sliced_of_cow_wf, rule sliced_of_cow_bytes)
  note unpack = pcb_unpack_packable [OF assms(1) b small d]
  have m: "sorted_keys m" "size_exact b m" using assms(2) by (simp_all add: storable_def)
  note reads = buffer_holds_reads [OF reloaded_holds [OF unpack(2) m(1) d(1), of b]]
  have "size_exact (reloaded b m d) m" "is_leaf (reloaded b m d) = is_leaf b"
    using m(2) by (simp_all add: reloaded_def size_exact_def)
  with pack unpack(1) reads show ?thesis unfolding d_def by blast
qed

lemma example_storable: "storable (example_buffer leaf) example_entries" "pcb_size (example_buffer leaf) = 94"
  by (simp_all add: storable_def example_buffer_facts pcb_size_def HEADER_def)
    (simp_all add: prefs_valid_def example_entries_def example_buffer_def pcb_new_def system_from_def valid_pref_def NONE_def)

theorem pack_unpack_roundtrip_witness:
  "\<exists>out mode b'. pcb_pack example_lib (example_buffer True) = Some (out, mode) \<and> length out = 94
    \<and> pcb_unpack example_lib (sliced_of_cow (out @ [0, 0])) mode = Some (Some b')
    \<and> get_all_messages b' = Some example_entries"
  using pack_unpack_roundtrip [OF example_lib_codec example_storable(1), of True "[0, 0]"]
  unfolding example_storable(2) by auto

text \<open>
  A buffer that was read and is written again without being unpacked is copied: if
  its maintained size is exact, packing the packed form writes the same bytes with the
  same checksum.
\<close>

theorem repack_identity:
  assumes "csum_codec lib" "storable b m" "pcb_size b + length pad < 2 ^ 32"
  shows "\<exists>out mode b'. pcb_pack lib b = Some (out, mode)
    \<and> pcb_unpack lib (sliced_of_cow (out @ pad)) mode = Some (Some b') \<and> pcb_pack lib b' = Some (out, mode)"
proof -
  define d where "d = sliced_of_cow (packed_bytes lib b m @ pad)"
  have small: "pcb_size b < 2 ^ 32" using assms(3) by simp
  note b = storable_packable [OF assms(2)]
  note pack = pcb_pack_packable [OF assms(1) b small]
  have "length (packed_bytes lib b m @ pad) < 2 ^ 32" using pack(2) assms(3) by simp
  then have d: "sliced_wf d" "sliced_bytes d = packed_bytes lib b m @ pad"
    unfolding d_def by (rule sliced_of_cow_wf, rule sliced_of_cow_bytes)
  note unpack = pcb_unpack_packable [OF assms(1) b small d]
  have same: "packed_bytes lib (reloaded b m d) m = packed_bytes lib b m" "packed_mode lib (reloaded b m d) m = packed_mode lib b m"
    "pcb_size (reloaded b m d) < 2 ^ 32"
    using small by (simp_all add: packed_bytes_def packed_mode_def reloaded_def pcb_size_def)
  have "pcb_pack lib (reloaded b m d) = Some (packed_bytes lib b m, packed_mode lib b m)"
    using pcb_pack_packable(1) [OF assms(1) unpack(3) same(3)] by (simp only: same)
  with pack(1) unpack(1) show ?thesis unfolding d_def by blast
qed

theorem repack_identity_witness:
  "\<exists>out mode b'. pcb_pack example_lib (example_buffer True) = Some (out, mode)
    \<and> pcb_unpack example_lib (sliced_of_cow (out @ [0])) mode = Some (Some b')
    \<and> pcb_pack example_lib b' = Some (out, mode)"
  using repack_identity [OF example_lib_codec example_storable(1), of True "[0]"]
  unfolding example_storable(2) by auto

subsection \<open>A value lost by writing a split buffer twice\<close>

lemma to_le_4: "to_le 4 n = [word_of_nat n, word_of_nat (n div 256), word_of_nat (n div 65536), word_of_nat (n div 16777216)]"
proof -
  have "(4 :: nat) = Suc (Suc (Suc (Suc 0)))" by simp
  then have "to_le 4 n = to_le (Suc (Suc (Suc (Suc 0)))) n" by (rule arg_cong)
  then show ?thesis by (simp add: div_mult2_eq [symmetric])
qed

lemma to_le_8: "to_le 8 n = to_le 4 n @ to_le 4 (n div 4294967296)"
proof -
  have "to_le (Suc (Suc (Suc (Suc 4)))) n = to_le 4 n @ to_le 4 (n div 4294967296)"
    unfolding to_le.simps by (simp add: to_le_4 div_mult2_eq [symmetric])
  moreover have "Suc (Suc (Suc (Suc 4))) = 8" by simp
  ultimately show ?thesis by simp
qed

definition lossy_head :: bytes where
  "lossy_head = [1, 1, 0, 0, 0, 20, 0, 0, 0, 254, 19, 0, 0, 0, 1, 0, 0, 0, 254,
     4, 36, 0, 0, 0, 2, 0, 0, 0, 42, 0, 0, 0, 0, 0, 0, 0]"

definition reload :: "csum_lib \<Rightarrow> bytes \<Rightarrow> packed_child_buffer \<Rightarrow> packed_child_buffer option" where
  "reload lib pad b = do {
     (out, mode) \<leftarrow> pcb_pack lib b;
     r \<leftarrow> pcb_unpack lib (sliced_of_cow (out @ pad)) mode;
     r }"


end
