(* ===== verification/InternalNode.thy ===== *)
theory InternalNode
  imports PackedLayout ObjectRef
begin

text \<open>
  \<^verbatim>\<open>betree/src/tree/imp/internal/copyless_internal.rs\<close>: the inner node of the tree, its pivots,
  its children with their message buffers, and the operations that split, merge and
  rebalance children. \<^verbatim>\<open>RwLock\<close> around a child pointer is transparent: one operation runs at a
  time. \<^verbatim>\<open>TakeChildBuffer\<close> and \<^verbatim>\<open>PrepareMergeChild\<close> are a node with indices into it, which the
  operations take as arguments. \<open>None\<close> is a panic.
\<close>

subsection \<open>Vectors\<close>

definition vec_insert :: "'a list \<Rightarrow> nat \<Rightarrow> 'a \<Rightarrow> 'a list option" where
  "vec_insert xs i x = (if i \<le> length xs then Some (take i xs @ x # drop i xs) else None)"

definition vec_remove :: "'a list \<Rightarrow> nat \<Rightarrow> ('a \<times> 'a list) option" where
  "vec_remove xs i = (if i < length xs then Some (xs ! i, take i xs @ drop (Suc i) xs) else None)"

definition vec_set :: "'a list \<Rightarrow> nat \<Rightarrow> 'a \<Rightarrow> 'a list option" where
  "vec_set xs i x = (if i < length xs then Some (xs[i := x]) else None)"

definition vec_split_off :: "'a list \<Rightarrow> nat \<Rightarrow> ('a list \<times> 'a list) option" where
  "vec_split_off xs i = (if i \<le> length xs then Some (take i xs, drop i xs) else None)"

subsection \<open>Data\<close>

record internal_meta =
  current_size :: nat
  im_level :: nat
  im_system_pref :: atomic_system_storage_preference
  im_pref :: atomic_storage_preference
  pivots :: "bytes list"
  entries_sizes :: "nat list"
  entries_prefs :: "storage_preference list"

record child_link =
  cl_buffer :: packed_child_buffer
  cl_ptr :: obj_ref

record internal_node =
  meta_data :: internal_meta
  children :: "child_link list"

record internal_node_link =
  lk_ptr :: obj_ref
  lk_buffer :: packed_child_buffer
  lk_buffer_size :: nat

definition META_BINCODE_STATIC :: nat where "META_BINCODE_STATIC = 33"
definition INTERNAL_INTEGRITY_CHECKSUM_SIZE :: nat where "INTERNAL_INTEGRITY_CHECKSUM_SIZE = 8 + 8"
definition MIN_FANOUT :: nat where "MIN_FANOUT = 2"

definition recalc_size :: "internal_meta \<Rightarrow> nat" where
  "recalc_size md = 4 + 8 + 1 + 1 + sum_list (map cow_size (pivots md))
     + length (pivots md) * 8 + length (pivots md) * 1 + META_BINCODE_STATIC"

definition meta_invalidate :: "internal_meta \<Rightarrow> internal_meta" where
  "meta_invalidate md = (let md' = md\<lparr>im_pref := atomic_invalidate (im_pref md)\<rparr>
     in md'\<lparr>current_size := recalc_size md'\<rparr>)"

definition in_size :: "internal_node \<Rightarrow> nat" where
  "in_size node = 4 + current_size (meta_data node) + 4 + length (children node) * or_static_size
     + length (children node) * INTERNAL_INTEGRITY_CHECKSUM_SIZE + sum_list (entries_sizes (meta_data node)) + 8"

definition in_cache_size :: "internal_node \<Rightarrow> nat" where
  "in_cache_size node = 4 + current_size (meta_data node) + 4 + length (children node) * or_static_size
     + sum_list (map (\<lambda>c. pcb_cache_size (cl_buffer c)) (children node))"

definition in_current_preference :: "internal_node \<Rightarrow> storage_preference option option" where
  "in_current_preference node = (case as_option (im_pref (meta_data node)) of
     None \<Rightarrow> Some None
   | Some p \<Rightarrow> map_option Some (weak_bound (im_system_pref (meta_data node)) p))"

definition in_recalculate :: "internal_node \<Rightarrow> storage_preference \<times> internal_node" where
  "in_recalculate node = (let pref = fastest_of (entries_prefs (meta_data node))
     in (pref, node\<lparr>meta_data := (meta_data node)\<lparr>im_pref := atomic_set (im_pref (meta_data node)) pref\<rparr>\<rparr>))"

definition in_correct_preference :: "internal_node \<Rightarrow> (storage_preference \<times> internal_node) option" where
  "in_correct_preference node = do {
     cur \<leftarrow> in_current_preference node;
     let (storagepref, node') = (case cur of Some p \<Rightarrow> (p, node) | None \<Rightarrow> in_recalculate node);
     p \<leftarrow> weak_bound (im_system_pref (meta_data node)) storagepref;
     Some (p, node') }"

definition in_new :: "internal_node_link \<Rightarrow> internal_node_link \<Rightarrow> bytes \<Rightarrow> nat \<Rightarrow> internal_node" where
  "in_new left_child right_child pivot_key level = \<lparr>
     meta_data = \<lparr>current_size = 4 + 8 + 1 + 1 + cow_size pivot_key + 1 * 8 + 1 * 1 + META_BINCODE_STATIC,
       im_level = level, im_system_pref = system_from NONE, im_pref = atomic_unknown, pivots = [pivot_key],
       entries_sizes = [lk_buffer_size left_child, lk_buffer_size right_child], entries_prefs = [NONE, NONE]\<rparr>,
     children = [\<lparr>cl_buffer = lk_buffer left_child, cl_ptr = lk_ptr left_child\<rparr>,
                 \<lparr>cl_buffer = lk_buffer right_child, cl_ptr = lk_ptr right_child\<rparr>]\<rparr>"

definition fanout :: "internal_node \<Rightarrow> nat" where
  "fanout node = length (children node)"

text \<open>The binary search of a slice returns, for strictly sorted pivots, the number of those
  below the key, whether or not the key is among them.\<close>

definition in_idx :: "internal_node \<Rightarrow> bytes \<Rightarrow> nat" where
  "in_idx node key = length (takeWhile (\<lambda>p. p < key) (pivots (meta_data node)))"

text \<open>The bound is computed in floating point, \<^verbatim>\<open>(max_size as f32).powf(0.5).ceil()\<close>; it is a
  parameter \<open>root\<close>.\<close>

definition has_too_high_fanout :: "(nat \<Rightarrow> nat) \<Rightarrow> internal_node \<Rightarrow> nat \<Rightarrow> bool" where
  "has_too_high_fanout root node max_size = (sum_list (map length (pivots (meta_data node))) > root max_size)"

definition after_insert_size_delta :: "internal_node \<Rightarrow> nat \<Rightarrow> internal_node option" where
  "after_insert_size_delta node idx = do {
     c \<leftarrow> nth_opt (children node) idx;
     es \<leftarrow> vec_set (entries_sizes (meta_data node)) idx (pcb_size (cl_buffer c));
     Some (node\<lparr>meta_data := (meta_data node)\<lparr>entries_sizes := es\<rparr>\<rparr>) }"

subsection \<open>Access\<close>

definition in_get ::
  "csum_lib \<Rightarrow> internal_node \<Rightarrow> bytes \<Rightarrow> (obj_ref \<times> (key_info \<times> bytes) option) option" where
  "in_get lib node key = do {
     c \<leftarrow> nth_opt (children node) (in_idx node key);
     r \<leftarrow> pcb_get lib (cl_buffer c) key;
     Some (cl_ptr c, r) }"

definition in_get_mut :: "internal_node \<Rightarrow> bytes \<Rightarrow> (nat \<times> child_link) option" where
  "in_get_mut node key = do { c \<leftarrow> nth_opt (children node) (in_idx node key); Some (in_idx node key, c) }"

datatype pivot_get_result = PTarget "obj_ref option" | PNextNode obj_ref

definition find_pivot :: "bytes list \<Rightarrow> bytes \<Rightarrow> nat option" where
  "find_pivot ps pivot = find (\<lambda>i. ps ! i = pivot) [0..<length ps]"

definition pivot_get :: "internal_node \<Rightarrow> pivot_key \<Rightarrow> pivot_get_result option" where
  "pivot_get node pk = do {
     assert_that (\<not> pk_is_root pk);
     pivot \<leftarrow> pk_bytes pk;
     case find_pivot (pivots (meta_data node)) pivot of
       None \<Rightarrow> do { c \<leftarrow> nth_opt (children node) (in_idx node pivot); Some (PNextNode (cl_ptr c)) }
     | Some idx \<Rightarrow> do {
         c \<leftarrow> nth_opt (children node) (if pk_is_left pk then idx else idx + 1);
         Some (PTarget (Some (cl_ptr c))) } }"

text \<open>The mutable variant: the index of the child and whether it is the target.\<close>

definition pivot_get_mut :: "internal_node \<Rightarrow> pivot_key \<Rightarrow> (nat \<times> bool) option" where
  "pivot_get_mut node pk = do {
     assert_that (\<not> pk_is_root pk);
     pivot \<leftarrow> pk_bytes pk;
     let (id, is_target) = (case find_pivot (pivots (meta_data node)) pivot of
       None \<Rightarrow> (in_idx node pivot, False) | Some idx \<Rightarrow> (idx, True));
     let child_idx = (if is_target \<and> \<not> pk_is_left pk then id + 1 else id);
     _ \<leftarrow> nth_opt (children node) child_idx;
     Some (child_idx, is_target) }"

definition in_apply_with_info :: "internal_node \<Rightarrow> bytes \<Rightarrow> storage_preference \<Rightarrow> (internal_node \<times> nat) option" where
  "in_apply_with_info node key pref = do {
     let idx = in_idx node key;
     _ \<leftarrow> nth_opt (children node) idx;
     p \<leftarrow> nth_opt (entries_prefs (meta_data node)) idx;
     ps \<leftarrow> vec_set (entries_prefs (meta_data node)) idx (pref_upgrade p pref);
     Some (node\<lparr>meta_data := (meta_data node)\<lparr>entries_prefs := ps\<rparr>\<rparr>, idx) }"

definition in_get_range ::
  "internal_node \<Rightarrow> bytes \<Rightarrow> bytes option \<Rightarrow> bytes option \<Rightarrow> (child_link \<times> bytes option \<times> bytes option) option" where
  "in_get_range node key left_pivot_key right_pivot_key = do {
     let idx = in_idx node key;
     let ps = pivots (meta_data node);
     left \<leftarrow> (if idx > 0 then map_option Some (nth_opt ps (idx - 1)) else Some left_pivot_key);
     right \<leftarrow> (if idx < length ps then map_option Some (nth_opt ps idx) else Some right_pivot_key);
     c \<leftarrow> nth_opt (children node) idx;
     Some (c, left, right) }"

definition in_get_next_node :: "internal_node \<Rightarrow> bytes \<Rightarrow> child_link option" where
  "in_get_next_node node key = nth_opt (children node) (in_idx node key + 1)"

definition in_drain_children :: "internal_node \<Rightarrow> child_link list \<times> internal_node" where
  "in_drain_children node = (children node, node\<lparr>meta_data := meta_invalidate (meta_data node), children := []\<rparr>)"

subsection \<open>Splitting and merging nodes\<close>

definition relabel_first :: "child_link list \<Rightarrow> bytes list \<Rightarrow> child_link list option" where
  "relabel_first cs ps = (case cs of [] \<Rightarrow> Some []
     | c # cs' \<Rightarrow> do {
         pk \<leftarrow> or_index (cl_ptr c);
         p0 \<leftarrow> nth_opt ps 0;
         Some (c\<lparr>cl_ptr := set_index (cl_ptr c) (LeftOuter p0 (pk_d_id pk))\<rparr> # cs') })"

definition in_split ::
  "internal_node \<Rightarrow> (internal_node \<times> internal_node \<times> bytes \<times> int \<times> local_pivot_key) option" where
  "in_split node = do {
     let split_off_idx = fanout node div 2;
     (left_pivots, right_pivots) \<leftarrow> vec_split_off (pivots (meta_data node)) split_off_idx;
     assert_that (left_pivots \<noteq> []);
     let pivot_key = last left_pivots;
     (left_children, right_children0) \<leftarrow> vec_split_off (children node) split_off_idx;
     right_children \<leftarrow> relabel_first right_children0 right_pivots;
     (left_sizes, right_sizes) \<leftarrow> vec_split_off (entries_sizes (meta_data node)) split_off_idx;
     (left_prefs, right_prefs) \<leftarrow> vec_split_off (entries_prefs (meta_data node)) split_off_idx;
     let es_size = length right_sizes * 8 + length right_prefs + sum_list (map cow_size right_pivots)
       + length right_children * or_static_size + sum_list right_sizes;
     let size_delta = es_size + cow_size pivot_key;
     let right_sibling = \<lparr>
       meta_data = meta_invalidate \<lparr>current_size = 0, im_level = im_level (meta_data node),
         im_system_pref = im_system_pref (meta_data node), im_pref = atomic_unknown, pivots = right_pivots,
         entries_sizes = right_sizes, entries_prefs = right_prefs\<rparr>,
       children = right_children\<rparr>;
     let node' = node\<lparr>meta_data := meta_invalidate ((meta_data node)\<lparr>pivots := butlast left_pivots,
         entries_sizes := left_sizes, entries_prefs := left_prefs\<rparr>), children := left_children\<rparr>;
     assert_that (fanout node' \<ge> MIN_FANOUT);
     assert_that (fanout right_sibling \<ge> MIN_FANOUT);
     Some (node', right_sibling, pivot_key, - int size_delta, LRight pivot_key) }"

definition in_merge :: "internal_node \<Rightarrow> internal_node \<Rightarrow> bytes \<Rightarrow> internal_node \<times> internal_node \<times> int" where
  "in_merge node right_sibling old_pivot_key =
     (let md = meta_data node; rd = meta_data right_sibling;
        node' = node\<lparr>meta_data := meta_invalidate (md\<lparr>pivots := pivots md @ [old_pivot_key] @ pivots rd,
            entries_prefs := entries_prefs md @ entries_prefs rd, entries_sizes := entries_sizes md @ entries_sizes rd\<rparr>),
          children := children node @ children right_sibling\<rparr>;
        right' = right_sibling\<lparr>meta_data := rd\<lparr>pivots := [], entries_prefs := [], entries_sizes := []\<rparr>, children := []\<rparr>
      in (node', right', int (in_size node) - int (in_size node')))"

definition complete_object_refs :: "internal_node \<Rightarrow> dataset_id \<Rightarrow> internal_node option" where
  "complete_object_refs node d_id = (case pivots (meta_data node) of [] \<Rightarrow> None
     | p # ps \<Rightarrow>
         (let pks = LeftOuter p d_id # map (\<lambda>p. Right p d_id) (p # ps)
          in if length pks \<le> length (children node)
             then Some (node\<lparr>children := map2 (\<lambda>c pk. c\<lparr>cl_ptr := set_index (cl_ptr c) pk\<rparr>)
                    (take (length pks) (children node)) pks @ drop (length pks) (children node)\<rparr>)
             else None))"

subsection \<open>Choosing and changing a child\<close>

definition in_try_walk :: "internal_node \<Rightarrow> bytes \<Rightarrow> nat" where
  "in_try_walk node key = in_idx node key"

text \<open>\<^verbatim>\<open>Iterator::max_by_key\<close> returns the last of several maxima.\<close>

fun last_max :: "nat \<Rightarrow> nat list \<Rightarrow> nat \<times> nat \<Rightarrow> nat \<times> nat" where
  "last_max i [] best = best"
| "last_max i (v # vs) best = last_max (i + 1) vs (if snd best \<le> v then (i, v) else best)"

definition max_entry :: "nat list \<Rightarrow> (nat \<times> nat) option" where
  "max_entry vs = (case vs of [] \<Rightarrow> None | v # vs' \<Rightarrow> Some (last_max 1 vs' (0, v)))"

definition try_find_flush_candidate ::
  "(nat \<Rightarrow> nat) \<Rightarrow> internal_node \<Rightarrow> nat \<Rightarrow> nat \<Rightarrow> nat \<Rightarrow> nat option option" where
  "try_find_flush_candidate root node min_flush_size max_node_size min_fanout = do {
     (child_idx, child) \<leftarrow> max_entry (entries_sizes (meta_data node));
     c \<leftarrow> nth_opt (children node) child_idx;
     assert_that (pcb_size (cl_buffer c) = child);
     fits \<leftarrow> (if child \<ge> min_flush_size
              then do {
                rest \<leftarrow> checked_sub (in_size node) child;
                Some ((rest \<le> max_node_size \<or> fanout node < 2 * min_fanout)
                  \<and> \<not> has_too_high_fanout root node max_node_size) }
              else Some False);
     Some (if fits then Some child_idx else if fanout node < 2 * min_fanout then Some child_idx else None) }"

definition split_child ::
  "internal_node \<Rightarrow> nat \<Rightarrow> obj_ref \<Rightarrow> bytes \<Rightarrow> bool \<Rightarrow> (internal_node \<times> nat \<times> int) option" where
  "split_child node child_idx sibling_np pivot_key select_right = do {
     c \<leftarrow> nth_opt (children node) child_idx;
     (left, sibling) \<leftarrow> pcb_split_at (cl_buffer c) pivot_key;
     cs \<leftarrow> vec_insert ((children node)[child_idx := c\<lparr>cl_buffer := left\<rparr>]) (child_idx + 1)
             \<lparr>cl_buffer = sibling, cl_ptr = sibling_np\<rparr>;
     ps \<leftarrow> vec_insert (pivots (meta_data node)) child_idx pivot_key;
     es1 \<leftarrow> vec_set (entries_sizes (meta_data node)) child_idx (pcb_size left);
     es2 \<leftarrow> vec_insert es1 (child_idx + 1) (pcb_size sibling);
     p \<leftarrow> nth_opt (entries_prefs (meta_data node)) child_idx;
     prefs \<leftarrow> vec_insert (entries_prefs (meta_data node)) (child_idx + 1) p;
     let node' = node\<lparr>meta_data := (meta_data node)\<lparr>pivots := ps, entries_sizes := es2, entries_prefs := prefs\<rparr>,
                   children := cs\<rparr>;
     Some (node', (if select_right then child_idx + 1 else child_idx),
           int (in_cache_size node') - int (in_cache_size node)) }"

definition take_buffer :: "csum_lib \<Rightarrow> internal_node \<Rightarrow> nat \<Rightarrow> (internal_node \<times> entries \<times> int) option" where
  "take_buffer lib node child_idx = do {
     c \<leftarrow> nth_opt (children node) child_idx;
     (b, m, size_delta) \<leftarrow> pcb_take lib (cl_buffer c);
     node' \<leftarrow> after_insert_size_delta (node\<lparr>children := (children node)[child_idx := c\<lparr>cl_buffer := b\<rparr>]\<rparr>) child_idx;
     Some (node', m, - int size_delta) }"

text \<open>The index of the pivot between the two children and that of the other child.\<close>

definition prepare_merge :: "internal_node \<Rightarrow> nat \<Rightarrow> (nat \<times> nat) option" where
  "prepare_merge node child_idx = do {
     assert_that (fanout node \<ge> 2);
     if child_idx + 1 < length (children node) then Some (child_idx, child_idx + 1)
     else do { i \<leftarrow> checked_sub child_idx 1; Some (i, i) } }"

definition is_right_sibling :: "nat \<Rightarrow> nat \<Rightarrow> bool" where
  "is_right_sibling pivot_key_idx other_child_idx = (pivot_key_idx \<noteq> other_child_idx)"

definition merge_children ::
  "csum_lib \<Rightarrow> internal_node \<Rightarrow> nat \<Rightarrow> (internal_node \<times> bytes \<times> obj_ref \<times> int) option" where
  "merge_children lib node pivot_key_idx = do {
     (right_link, cs) \<leftarrow> vec_remove (children node) (pivot_key_idx + 1);
     (pivot_key, ps) \<leftarrow> vec_remove (pivots (meta_data node)) pivot_key_idx;
     (_, prefs) \<leftarrow> vec_remove (entries_prefs (meta_data node)) (pivot_key_idx + 1);
     (_, es) \<leftarrow> vec_remove (entries_sizes (meta_data node)) (pivot_key_idx + 1);
     left_link \<leftarrow> nth_opt cs pivot_key_idx;
     let size_delta = cow_size pivot_key + or_static_size * 2 + 1 + 8;
     (left_buffer, _, _) \<leftarrow> pcb_append lib (cl_buffer left_link) (cl_buffer right_link);
     es' \<leftarrow> vec_set es pivot_key_idx (pcb_size left_buffer);
     Some (node\<lparr>meta_data := meta_invalidate ((meta_data node)\<lparr>pivots := ps, entries_prefs := prefs, entries_sizes := es'\<rparr>),
             children := cs[pivot_key_idx := left_link\<lparr>cl_buffer := left_buffer\<rparr>]\<rparr>,
           pivot_key, cl_ptr right_link, - int size_delta) }"

definition rebalanced ::
  "csum_lib \<Rightarrow> internal_node \<Rightarrow> nat \<Rightarrow> bytes \<Rightarrow> (internal_node \<times> int) option" where
  "rebalanced lib node pivot_key_idx new_pivot_key = do {
     l \<leftarrow> nth_opt (children node) pivot_key_idx;
     r \<leftarrow> nth_opt (children node) (pivot_key_idx + 1);
     (left_child, right_child) \<leftarrow> pcb_rebalance lib (cl_buffer l) (cl_buffer r) new_pivot_key;
     es1 \<leftarrow> vec_set (entries_sizes (meta_data node)) pivot_key_idx (pcb_size left_child);
     es2 \<leftarrow> vec_set es1 (pivot_key_idx + 1) (pcb_size left_child);
     old_pivot_key \<leftarrow> nth_opt (pivots (meta_data node)) pivot_key_idx;
     Some (node\<lparr>meta_data := (meta_data node)\<lparr>entries_sizes := es2,
               pivots := (pivots (meta_data node))[pivot_key_idx := new_pivot_key]\<rparr>,
             children := (children node)[pivot_key_idx := l\<lparr>cl_buffer := left_child\<rparr>,
               pivot_key_idx + 1 := r\<lparr>cl_buffer := right_child\<rparr>]\<rparr>,
           int (cow_size new_pivot_key) - int (cow_size old_pivot_key)) }"

subsection \<open>Serialisation\<close>

text \<open>
  The metadata, the child pointers and the integrity modes are encoded by bincode. The
  encodings are a parameter; \<open>node_codec_ok\<close> is what the code relies on for the metadata and
  pointers of a node: decoding inverts encoding, and an integrity mode takes sixteen bytes.
\<close>

record node_codec =
  nc_meta_ser :: "internal_meta \<Rightarrow> bytes"
  nc_meta_de :: "bytes \<Rightarrow> internal_meta option"
  nc_links_ser :: "object_pointer list \<Rightarrow> bytes"
  nc_links_de :: "bytes \<Rightarrow> object_pointer list option"
  nc_mode_ser :: "integrity_mode \<Rightarrow> bytes"
  nc_mode_de :: "bytes \<Rightarrow> integrity_mode option"

definition node_codec_ok :: "node_codec \<Rightarrow> internal_meta \<Rightarrow> object_pointer list \<Rightarrow> bool" where
  "node_codec_ok nc md ps \<longleftrightarrow> nc_meta_de nc (nc_meta_ser nc md) = Some md
     \<and> nc_links_de nc (nc_links_ser nc ps) = Some ps
     \<and> (\<forall>c n. n < 2 ^ 32 \<longrightarrow> length (nc_mode_ser nc (Internal c n)) = INTERNAL_INTEGRITY_CHECKSUM_SIZE
          \<and> nc_mode_de nc (nc_mode_ser nc (Internal c n)) = Some (Internal c n))"

text \<open>\<open>Some None\<close> is an I/O error: a child reference that is not on disk cannot be serialised.\<close>

definition in_pack ::
  "node_codec \<Rightarrow> csum_lib \<Rightarrow> internal_node \<Rightarrow> (bytes \<times> integrity_mode) option option" where
  "in_pack nc lib node = (let bytes_meta_data = nc_meta_ser nc (meta_data node) in
     case option_all or_serialize (map cl_ptr (children node)) of
       None \<Rightarrow> Some None
     | Some ptrs \<Rightarrow> do {
         let bytes_child = nc_links_ser nc ptrs;
         assert_that (list_all (\<lambda>(size, child). size = pcb_size (cl_buffer child))
           (zip (entries_sizes (meta_data node)) (children node)));
         packed \<leftarrow> option_all (\<lambda>child. pcb_pack lib (cl_buffer child)) (children node);
         assert_that (list_all (\<lambda>(_, integrity). length (nc_mode_ser nc integrity) = INTERNAL_INTEGRITY_CHECKSUM_SIZE) packed);
         let tmp = to_le 4 (length bytes_meta_data) @ bytes_meta_data @ to_le 4 (length bytes_child) @ bytes_child
           @ concat (map (\<lambda>(_, integrity). nc_mode_ser nc integrity) packed);
         Some (Some (tmp @ concat (map fst packed), Internal (cl_hash lib tmp) (length tmp mod 2 ^ 32))) })"

text \<open>The loop over the checksums and the loop that reads the buffers behind them.\<close>

fun read_modes :: "node_codec \<Rightarrow> bytes \<Rightarrow> nat \<Rightarrow> nat \<Rightarrow> integrity_mode list option option" where
  "read_modes nc data cursor 0 = Some (Some [])"
| "read_modes nc data cursor (Suc n) = do {
     bs \<leftarrow> cut data cursor INTERNAL_INTEGRITY_CHECKSUM_SIZE;
     case nc_mode_de nc bs of
       None \<Rightarrow> Some None
     | Some m \<Rightarrow> do {
         rest \<leftarrow> read_modes nc data (cursor + INTERNAL_INTEGRITY_CHECKSUM_SIZE) n;
         Some (map_option ((#) m) rest) } }"

fun read_buffers ::
  "csum_lib \<Rightarrow> sliced_cow_bytes \<Rightarrow> nat list \<Rightarrow> nat \<Rightarrow> nat \<Rightarrow> integrity_mode list \<Rightarrow> packed_child_buffer list option option" where
  "read_buffers lib buf sizes cursor idx [] = Some (Some [])"
| "read_buffers lib buf sizes cursor idx (buffer_csum # csums) = do {
     sub \<leftarrow> slice_from buf (cursor mod 2 ^ 32);
     r \<leftarrow> pcb_unpack lib sub buffer_csum;
     case r of
       None \<Rightarrow> Some None
     | Some b \<Rightarrow> do {
         size \<leftarrow> nth_opt sizes idx;
         assert_that (size = pcb_size b);
         rest \<leftarrow> read_buffers lib buf sizes (cursor + pcb_size b) (idx + 1) csums;
         Some (map_option ((#) b) rest) } }"

definition in_unpack ::
  "node_codec \<Rightarrow> csum_lib \<Rightarrow> sliced_cow_bytes \<Rightarrow> integrity_mode \<Rightarrow> internal_node option option" where
  "in_unpack nc lib buf csum = do {
     data \<leftarrow> sliced_deref buf;
     c \<leftarrow> im_checksum csum;
     n \<leftarrow> im_length csum;
     head \<leftarrow> cut data 4 n;
     if csum_verify lib c head then do {
       l \<leftarrow> cut data 4 4;
       let len = from_le l;
       meta_bytes \<leftarrow> cut data 8 len;
       md \<leftarrow> nc_meta_de nc meta_bytes;
       l' \<leftarrow> cut data (8 + len) 4;
       let ptrs_len = from_le l';
       ptr_bytes \<leftarrow> cut data (12 + len) ptrs_len;
       case nc_links_de nc ptr_bytes of
         None \<Rightarrow> Some None
       | Some ptrs \<Rightarrow> do {
           let cursor = 12 + len + ptrs_len;
           modes \<leftarrow> read_modes nc data cursor (length ptrs);
           case modes of
             None \<Rightarrow> Some None
           | Some checksums \<Rightarrow> do {
               bufs \<leftarrow> read_buffers lib buf (entries_sizes md)
                 (cursor + length ptrs * INTERNAL_INTEGRITY_CHECKSUM_SIZE) 0 checksums;
               case bufs of
                 None \<Rightarrow> Some None
               | Some bs \<Rightarrow> Some (Some \<lparr>meta_data = md,
                   children = map2 (\<lambda>p b. \<lparr>cl_buffer = b, cl_ptr = or_deserialize p\<rparr>) ptrs bs\<rparr>) } } }
     else Some None }"

subsection \<open>Routing\<close>

text \<open>For sorted pivots the index of a key is the number of pivots below it; in this form it
  distributes over insertions and removals of pivots.\<close>

definition pivots_below :: "bytes list \<Rightarrow> bytes \<Rightarrow> nat" where
  "pivots_below ps k = length (filter (\<lambda>p. p < k) ps)"

lemma pivots_below_simps [simp]:
  "pivots_below [] k = 0"
  "pivots_below (p # ps) k = (if p < k then 1 else 0) + pivots_below ps k"
  "pivots_below (ps @ qs) k = pivots_below ps k + pivots_below qs k"
  by (auto simp: pivots_below_def)

lemma pivots_below_le: "pivots_below ps k \<le> length ps"
  by (simp add: pivots_below_def)

lemma takeWhile_eq_filter_sorted:
  "sorted_wrt (<) ps \<Longrightarrow> takeWhile (\<lambda>p. p < k) ps = filter (\<lambda>p. p < k) ps" for k :: bytes
proof (induction ps)
  case (Cons p ps)
  have "filter (\<lambda>p. p < k) ps = []" if "\<not> p < k"
    using Cons.prems that by (auto simp: filter_empty_conv)
  with Cons show ?case by auto
qed simp

lemma in_idx_pivots_below: "sorted_wrt (<) (pivots (meta_data node)) \<Longrightarrow> in_idx node k = pivots_below (pivots (meta_data node)) k"
  by (simp add: in_idx_def pivots_below_def takeWhile_eq_filter_sorted)

lemma in_idx_le: "in_idx node k \<le> length (pivots (meta_data node))"
  by (simp add: in_idx_def length_takeWhile_le)

lemma pivots_below_all: "\<forall>p \<in> set ps. p < k \<Longrightarrow> pivots_below ps k = length ps"
  by (simp add: pivots_below_def)

lemma pivots_below_none: "\<forall>p \<in> set ps. k \<le> p \<Longrightarrow> pivots_below ps k = 0"
  by (auto simp: pivots_below_def filter_empty_conv not_less)

text \<open>A pivot in the middle decides between the pivots left and right of it.\<close>

lemma pivots_below_middle:
  assumes "sorted_wrt (<) (ps @ p # qs)"
  shows "k \<le> p \<Longrightarrow> pivots_below (ps @ p # qs) k = pivots_below ps k"
    and "p < k \<Longrightarrow> pivots_below (ps @ p # qs) k = length ps + 1 + pivots_below qs k"
proof -
  have "\<forall>q \<in> set qs. p < q" "\<forall>q \<in> set ps. q < p" using assms by (auto simp: sorted_wrt_append)
  then show "k \<le> p \<Longrightarrow> pivots_below (ps @ p # qs) k = pivots_below ps k"
    and "p < k \<Longrightarrow> pivots_below (ps @ p # qs) k = length ps + 1 + pivots_below qs k"
    using pivots_below_none [of qs k] pivots_below_all [of ps k] by (force simp: not_less)+
qed

subsection \<open>Well-formed nodes\<close>

definition child_buffer_ok :: "csum_lib \<Rightarrow> (bytes \<Rightarrow> bool) \<Rightarrow> packed_child_buffer \<Rightarrow> bool" where
  "child_buffer_ok lib P b \<longleftrightarrow> \<not> is_leaf b \<and>
     (\<exists>m. buffer_holds lib b m \<and> size_exact b m \<and> list_all (\<lambda>e. P (fst e)) m)"

definition in_wf :: "csum_lib \<Rightarrow> internal_node \<Rightarrow> bool" where
  "in_wf lib node \<longleftrightarrow> (let md = meta_data node; cs = children node in
     sorted_wrt (<) (pivots md) \<and> length cs = length (pivots md) + 1
     \<and> entries_sizes md = map (\<lambda>c. pcb_size (cl_buffer c)) cs \<and> length (entries_prefs md) = length cs
     \<and> list_all (\<lambda>i. child_buffer_ok lib (\<lambda>k. in_idx node k = i) (cl_buffer (cs ! i))) [0..<length cs])"

text \<open>The cached size of the metadata is kept apart: not every operation refreshes it.\<close>

definition size_current :: "internal_node \<Rightarrow> bool" where
  "size_current node \<longleftrightarrow> current_size (meta_data node) = recalc_size (meta_data node)"

lemma in_wfD:
  assumes "in_wf lib node"
  shows "sorted_wrt (<) (pivots (meta_data node))" "length (children node) = length (pivots (meta_data node)) + 1"
    "entries_sizes (meta_data node) = map (\<lambda>c. pcb_size (cl_buffer c)) (children node)"
    "length (entries_prefs (meta_data node)) = length (children node)"
    "i < length (children node) \<Longrightarrow> child_buffer_ok lib (\<lambda>k. pivots_below (pivots (meta_data node)) k = i) (cl_buffer (children node ! i))"
  using assms in_idx_pivots_below [of node] by (auto simp: in_wf_def Let_def list_all_iff)

lemma in_wfI:
  assumes "sorted_wrt (<) (pivots (meta_data node))" "length (children node) = length (pivots (meta_data node)) + 1"
    "entries_sizes (meta_data node) = map (\<lambda>c. pcb_size (cl_buffer c)) (children node)"
    "length (entries_prefs (meta_data node)) = length (children node)"
    "\<And>i. i < length (children node) \<Longrightarrow> child_buffer_ok lib (\<lambda>k. pivots_below (pivots (meta_data node)) k = i) (cl_buffer (children node ! i))"
  shows "in_wf lib node"
  using assms in_idx_pivots_below [of node] by (auto simp: in_wf_def Let_def list_all_iff)

lemma child_buffer_ok_mono:
  "child_buffer_ok lib P b \<Longrightarrow> (\<And>k. P k \<Longrightarrow> Q k) \<Longrightarrow> child_buffer_ok lib Q b"
  by (auto simp: child_buffer_ok_def list_all_iff)

lemma recalc_size_invalidate [simp]:
  "current_size (meta_invalidate md) = recalc_size (meta_invalidate md)"
  "pivots (meta_invalidate md) = pivots md" "entries_sizes (meta_invalidate md) = entries_sizes md"
  "entries_prefs (meta_invalidate md) = entries_prefs md" "im_level (meta_invalidate md) = im_level md"
  by (simp_all add: meta_invalidate_def recalc_size_def Let_def)

lemma in_get_wf:
  assumes "in_wf lib node"
  shows "in_get lib node key = (let c = children node ! pivots_below (pivots (meta_data node)) key
    in map_option (Pair (cl_ptr c)) (pcb_get lib (cl_buffer c) key))"
  using in_wfD [OF assms] pivots_below_le [of "pivots (meta_data node)" key]
  by (auto simp: in_get_def in_idx_pivots_below nth_opt_def Let_def less_Suc_eq_le map_option_case split: option.splits)

subsection \<open>Splitting and merging preserve the mapping from keys to children\<close>

definition located :: "csum_lib \<Rightarrow> internal_node \<Rightarrow> bytes \<Rightarrow> (object_key option \<times> (key_info \<times> bytes) option) option" where
  "located lib node key = map_option (\<lambda>(p, msg). (as_key p, msg)) (in_get lib node key)"

lemma located_wf:
  assumes "in_wf lib node"
  shows "located lib node key = (let c = children node ! pivots_below (pivots (meta_data node)) key
    in map_option (Pair (as_key (cl_ptr c))) (pcb_get lib (cl_buffer c) key))"
  by (simp add: located_def in_get_wf [OF assms] Let_def option.map_comp o_def)

definition indexed :: "internal_node \<Rightarrow> bool" where
  "indexed node \<longleftrightarrow> list_all (\<lambda>c. or_index (cl_ptr c) \<noteq> None) (children node)"

lemma as_key_set_index: "or_index r \<noteq> None \<Longrightarrow> as_key (set_index r pk) = as_key r"
  by (cases r) auto

lemma relabel_first_spec:
  assumes "list_all (\<lambda>c. or_index (cl_ptr c) \<noteq> None) cs" "ps \<noteq> []"
  obtains cs' where "relabel_first cs ps = Some cs'" "length cs' = length cs"
    "map cl_buffer cs' = map cl_buffer cs" "map (\<lambda>c. as_key (cl_ptr c)) cs' = map (\<lambda>c. as_key (cl_ptr c)) cs"
proof (cases cs)
  case Nil
  then show ?thesis using that by (simp add: relabel_first_def)
next
  case (Cons c cs')
  with assms(1) obtain pk where pk: "or_index (cl_ptr c) = Some pk" by auto
  then have "as_key (set_index (cl_ptr c) (LeftOuter (ps ! 0) (pk_d_id pk))) = as_key (cl_ptr c)"
    by (intro as_key_set_index) simp
  with Cons pk assms(2) show ?thesis by (intro that) (auto simp: relabel_first_def nth_opt_def)
qed

text \<open>The pivots, sizes and preferences of the two halves, and where the split key lies.\<close>

lemma in_split_parts:
  assumes wf: "in_wf lib node" and fan: "4 \<le> fanout node" and idx: "indexed node"
  defines "i \<equiv> fanout node div 2" and "md \<equiv> meta_data node"
  obtains l r cs' where
    "in_split node = Some (l, r, pivots md ! (i - 1),
       - int (length (drop i (entries_sizes md)) * 8 + length (drop i (entries_prefs md))
         + sum_list (map cow_size (drop i (pivots md))) + length cs' * or_static_size
         + sum_list (drop i (entries_sizes md)) + cow_size (pivots md ! (i - 1))), LRight (pivots md ! (i - 1)))"
    "relabel_first (drop i (children node)) (drop i (pivots md)) = Some cs'"
    "l = node\<lparr>meta_data := meta_invalidate (md\<lparr>pivots := take (i - 1) (pivots md),
       entries_sizes := take i (entries_sizes md), entries_prefs := take i (entries_prefs md)\<rparr>),
       children := take i (children node)\<rparr>"
    "r = \<lparr>meta_data = meta_invalidate \<lparr>current_size = 0, im_level = im_level md, im_system_pref = im_system_pref md,
       im_pref = atomic_unknown, pivots = drop i (pivots md), entries_sizes = drop i (entries_sizes md),
       entries_prefs = drop i (entries_prefs md)\<rparr>, children = cs'\<rparr>"
    "pivots md = take (i - 1) (pivots md) @ pivots md ! (i - 1) # drop i (pivots md)"
    "length cs' = length (children node) - i" "map cl_buffer cs' = map cl_buffer (drop i (children node))"
    "map (\<lambda>c. as_key (cl_ptr c)) cs' = map (\<lambda>c. as_key (cl_ptr c)) (drop i (children node))"
proof -
  note wfD = in_wfD [OF wf, folded md_def]
  have i: "2 \<le> i" "i < length (pivots md)" "i < length (children node)" "i + 2 \<le> length (children node)"
    using fan wfD(2) by (auto simp: i_def fanout_def)
  have "list_all (\<lambda>c. or_index (cl_ptr c) \<noteq> None) (drop i (children node))" "drop i (pivots md) \<noteq> []"
    using idx i by (auto simp: indexed_def list_all_iff dest: in_set_dropD)
  then obtain cs' where cs': "relabel_first (drop i (children node)) (drop i (pivots md)) = Some cs'"
    "length cs' = length (drop i (children node))"
    "map cl_buffer cs' = map cl_buffer (drop i (children node))"
    "map (\<lambda>c. as_key (cl_ptr c)) cs' = map (\<lambda>c. as_key (cl_ptr c)) (drop i (children node))"
    by (rule relabel_first_spec)
  have lens: "length (entries_sizes md) = length (children node)" "length (entries_prefs md) = length (children node)"
    using wfD by simp_all
  have ne: "take i (pivots md) \<noteq> []" using i by auto
  have lst: "last (take i (pivots md)) = pivots md ! (i - 1)" "butlast (take i (pivots md)) = take (i - 1) (pivots md)"
    using i last_conv_nth [OF ne] by (simp_all add: butlast_take)
  have mid: "pivots md = take (i - 1) (pivots md) @ pivots md ! (i - 1) # drop i (pivots md)"
    using i id_take_nth_drop [of "i - 1" "pivots md"] by simp
  show ?thesis
  proof (rule that [OF _ cs'(1) refl refl mid])
    show "length cs' = length (children node) - i" using cs'(2) by simp
    show "in_split node = Some (node\<lparr>meta_data := meta_invalidate (md\<lparr>pivots := take (i - 1) (pivots md),
       entries_sizes := take i (entries_sizes md), entries_prefs := take i (entries_prefs md)\<rparr>),
       children := take i (children node)\<rparr>, \<lparr>meta_data = meta_invalidate \<lparr>current_size = 0, im_level = im_level md,
       im_system_pref = im_system_pref md, im_pref = atomic_unknown, pivots = drop i (pivots md),
       entries_sizes = drop i (entries_sizes md), entries_prefs = drop i (entries_prefs md)\<rparr>, children = cs'\<rparr>,
       pivots md ! (i - 1), - int (length (drop i (entries_sizes md)) * 8 + length (drop i (entries_prefs md))
         + sum_list (map cow_size (drop i (pivots md))) + length cs' * or_static_size
         + sum_list (drop i (entries_sizes md)) + cow_size (pivots md ! (i - 1))), LRight (pivots md ! (i - 1)))"
      using i lens lst ne cs'(1,2)
      by (simp add: in_split_def vec_split_off_def i_def [unfolded fanout_def, symmetric] md_def [symmetric] Let_def fanout_def MIN_FANOUT_def)
  qed (use cs' in simp_all)
qed

definition keys_within :: "csum_lib \<Rightarrow> (bytes \<Rightarrow> bool) \<Rightarrow> internal_node \<Rightarrow> bool" where
  "keys_within lib P node \<longleftrightarrow> list_all (\<lambda>c. child_buffer_ok lib P (cl_buffer c)) (children node)"

lemma child_buffer_ok_conj:
  "child_buffer_ok lib P b \<Longrightarrow> child_buffer_ok lib Q b \<Longrightarrow> child_buffer_ok lib (\<lambda>k. P k \<and> Q k) b"
proof -
  assume P: "child_buffer_ok lib P b" and Q: "child_buffer_ok lib Q b"
  obtain m where m: "\<not> is_leaf b" "buffer_holds lib b m" "size_exact b m" "list_all (\<lambda>e. P (fst e)) m"
    using P by (auto simp: child_buffer_ok_def)
  obtain m' where m': "buffer_holds lib b m'" "list_all (\<lambda>e. Q (fst e)) m'"
    using Q by (auto simp: child_buffer_ok_def)
  have "m' = m" using buffer_holds_reads(1) [OF m(2)] buffer_holds_reads(1) [OF m'(1)] by simp
  with m m' show ?thesis unfolding child_buffer_ok_def by (auto simp: list_all_iff intro!: exI [of _ m])
qed

lemma in_split_wf:
  assumes wf: "in_wf lib node" and fan: "4 \<le> fanout node" and idx: "indexed node"
    and split: "in_split node = Some (l, r, pk, d, lpk)"
  shows "in_wf lib l" "in_wf lib r" "pivots (meta_data node) = pivots (meta_data l) @ pk # pivots (meta_data r)"
    "located lib (if key \<le> pk then l else r) key = located lib node key" "lpk = LRight pk"
    "fanout l + fanout r = fanout node" "2 \<le> fanout l" "2 \<le> fanout r"
    "keys_within lib (\<lambda>k. k \<le> pk) l" "keys_within lib (\<lambda>k. pk < k) r" "size_current l" "size_current r"
proof -
  define i ps where "i = fanout node div 2" and "ps = pivots (meta_data node)"
  note wfD = in_wfD [OF wf, folded ps_def]
  obtain cs' where parts: "relabel_first (drop i (children node)) (drop i ps) = Some cs'"
    "l = node\<lparr>meta_data := meta_invalidate ((meta_data node)\<lparr>pivots := take (i - 1) ps,
       entries_sizes := take i (entries_sizes (meta_data node)), entries_prefs := take i (entries_prefs (meta_data node))\<rparr>),
       children := take i (children node)\<rparr>"
    "r = \<lparr>meta_data = meta_invalidate \<lparr>current_size = 0, im_level = im_level (meta_data node), im_system_pref = im_system_pref (meta_data node),
       im_pref = atomic_unknown, pivots = drop i ps, entries_sizes = drop i (entries_sizes (meta_data node)),
       entries_prefs = drop i (entries_prefs (meta_data node))\<rparr>, children = cs'\<rparr>"
    "pk = ps ! (i - 1)" "lpk = LRight pk" "ps = take (i - 1) ps @ pk # drop i ps" "length cs' = length (children node) - i"
    "map cl_buffer cs' = map cl_buffer (drop i (children node))"
    "map (\<lambda>c. as_key (cl_ptr c)) cs' = map (\<lambda>c. as_key (cl_ptr c)) (drop i (children node))"
    by (rule in_split_parts [OF wf fan idx, folded i_def ps_def]) (use split in simp)
  have i: "2 \<le> i" "i < length ps" "i + 2 \<le> length (children node)"
    using fan wfD(2) by (auto simp: i_def fanout_def)
  have buf: "cl_buffer (cs' ! j) = cl_buffer (children node ! (i + j))"
    "as_key (cl_ptr (cs' ! j)) = as_key (cl_ptr (children node ! (i + j)))" if "j < length cs'" for j
    using arg_cong [OF parts(8), of "\<lambda>xs. xs ! j"] arg_cong [OF parts(9), of "\<lambda>xs. xs ! j"] that parts(7)
    by simp_all
  have sorted: "sorted_wrt (<) (take (i - 1) ps @ pk # drop i ps)" using wfD(1) parts(6) by simp
  have low: "pivots_below ps k = pivots_below (take (i - 1) ps) k" if "k \<le> pk" for k
    using pivots_below_middle(1) [OF sorted that] arg_cong [OF parts(6), of "\<lambda>qs. pivots_below qs k"] by (rule trans [rotated])
  have high: "pivots_below ps k = i + pivots_below (drop i ps) k" if "pk < k" for k
    using trans [OF arg_cong [OF parts(6), of "\<lambda>qs. pivots_below qs k"] pivots_below_middle(2) [OF sorted that]] i by simp
  show l: "in_wf lib l"
  proof (rule in_wfI)
    fix j assume j: "j < length (children l)"
    then have "j < i" "j < length (children node)" using i by (simp_all add: parts(2))
    have "pivots_below (take (i - 1) ps) k = j" if "pivots_below ps k = j" for k
      using that \<open>j < i\<close> low [of k] high [of k] by (cases "k \<le> pk") auto
    with wfD(5) [OF \<open>j < length (children node)\<close>] \<open>j < i\<close>
    show "child_buffer_ok lib (\<lambda>k. pivots_below (pivots (meta_data l)) k = j) (cl_buffer (children l ! j))"
      by (auto simp: parts(2) elim: child_buffer_ok_mono)
  qed (use sorted i wfD in \<open>simp_all add: parts(2) take_map sorted_wrt_append\<close>)
  show r: "in_wf lib r"
  proof (rule in_wfI)
    fix j assume "j < length (children r)"
    then have j: "j < length cs'" "i + j < length (children node)" by (simp_all add: parts(3,7))
    have "pivots_below (drop i ps) k = j" if "pivots_below ps k = i + j" for k
    proof (cases "k \<le> pk")
      case True
      then show ?thesis using low [OF True] that pivots_below_le [of "take (i - 1) ps" k] i by simp
    qed (use that high [of k] in simp)
    with wfD(5) [OF j(2)]
    show "child_buffer_ok lib (\<lambda>k. pivots_below (pivots (meta_data r)) k = j) (cl_buffer (children r ! j))"
      by (auto simp: parts(3) buf [OF j(1)] elim: child_buffer_ok_mono)
    next
    show "entries_sizes (meta_data r) = map (\<lambda>c. pcb_size (cl_buffer c)) (children r)"
      using arg_cong [OF parts(8), of "map pcb_size"] wfD(3) by (simp add: parts(3) o_def drop_map)
  qed (use sorted i wfD parts(7) in \<open>simp_all add: parts(3) sorted_wrt_append\<close>)
  have "child_buffer_ok lib (\<lambda>k. k \<le> pk) (cl_buffer (children l ! j))" if "j < length (children l)" for j
  proof -
    have "j < i" "j < length (children node)" using that i by (simp_all add: parts(2))
    then have "k \<le> pk" if "pivots_below ps k = j" for k
      using that high [of k] by (auto simp: not_less [symmetric])
    with wfD(5) [OF \<open>j < length (children node)\<close>] \<open>j < i\<close> show ?thesis
      by (auto simp: parts(2) elim: child_buffer_ok_mono)
  qed
  then show "keys_within lib (\<lambda>k. k \<le> pk) l" by (auto simp: keys_within_def list_all_length)
  have "child_buffer_ok lib (\<lambda>k. pk < k) (cl_buffer (children r ! j))" if "j < length (children r)" for j
  proof -
    have j: "j < length cs'" "i + j < length (children node)" using that by (simp_all add: parts(3,7))
    have "pk < k" if "pivots_below ps k = i + j" for k
    proof (rule ccontr)
      assume "\<not> pk < k"
      then have "k \<le> pk" by simp
      then show False using low [of k] that pivots_below_le [of "take (i - 1) ps" k] i by simp
    qed
    with wfD(5) [OF j(2)] show ?thesis by (auto simp: parts(3) buf [OF j(1)] elim: child_buffer_ok_mono)
  qed
  then show "keys_within lib (\<lambda>k. pk < k) r" by (auto simp: keys_within_def list_all_length)
  show "pivots (meta_data node) = pivots (meta_data l) @ pk # pivots (meta_data r)"
    using parts(6) by (simp add: parts(2,3) ps_def [symmetric])
  show "lpk = LRight pk" by (rule parts(5))
  show "size_current l" "size_current r" by (simp_all add: size_current_def parts(2,3))
  show "fanout l + fanout r = fanout node" "2 \<le> fanout l" "2 \<le> fanout r"
    using i parts(7) by (simp_all add: parts(2,3) fanout_def)
  show "located lib (if key \<le> pk then l else r) key = located lib node key"
  proof (cases "key \<le> pk")
    case True
    have "pivots_below (take (i - 1) ps) key < i" using pivots_below_le [of "take (i - 1) ps" key] i by simp
    with True low [OF True] show ?thesis
      by (simp add: located_wf [OF l] located_wf [OF wf] ps_def [symmetric] Let_def) (simp add: parts(2))
  next
    case False
    have "pivots_below (drop i ps) key < length cs'"
      using pivots_below_le [of "drop i ps" key] parts(7) wfD(2) i by simp
    with False high [of key] buf show ?thesis
      by (simp add: located_wf [OF r] located_wf [OF wf] ps_def [symmetric] Let_def) (simp add: parts(3))
  qed
qed

lemma in_merge_wf:
  assumes l: "in_wf lib l" "keys_within lib (\<lambda>k. k \<le> pk) l" and r: "in_wf lib r" "keys_within lib (\<lambda>k. pk < k) r"
    and sorted: "sorted_wrt (<) (pivots (meta_data l) @ pk # pivots (meta_data r))"
    and merge: "in_merge l r pk = (node, r', d)"
  shows "in_wf lib node" "located lib node key = located lib (if key \<le> pk then l else r) key"
    "pivots (meta_data node) = pivots (meta_data l) @ pk # pivots (meta_data r)"
    "children node = children l @ children r" "children r' = []"
    "size_current node" "int (in_size node) = int (in_size l) - d" "size_current l \<Longrightarrow> d < 0"
proof -
  let ?p = "pivots (meta_data l)" and ?q = "pivots (meta_data r)"
  have node: "pivots (meta_data node) = ?p @ pk # ?q" "children node = children l @ children r"
    "entries_sizes (meta_data node) = entries_sizes (meta_data l) @ entries_sizes (meta_data r)"
    "entries_prefs (meta_data node) = entries_prefs (meta_data l) @ entries_prefs (meta_data r)"
    "current_size (meta_data node) = recalc_size (meta_data node)" "d = int (in_size l) - int (in_size node)" "children r' = []"
    using merge by (auto simp: in_merge_def Let_def)
  note lD = in_wfD [OF l(1)] and rD = in_wfD [OF r(1)]
  note below = pivots_below_middle [OF sorted]
  show "pivots (meta_data node) = ?p @ pk # ?q" "children node = children l @ children r" "children r' = []" by (fact node)+
  show "int (in_size node) = int (in_size l) - d" using node(6) by simp
  have "recalc_size (meta_data l) \<le> recalc_size (meta_data node)" by (simp add: recalc_size_def node(1))
  then have "in_size l < in_size node" if "size_current l"
    unfolding in_size_def node(2,3,5) that [unfolded size_current_def] using rD(2)
    by (simp add: INTERNAL_INTEGRITY_CHECKSUM_SIZE_def add_mult_distrib)
  then show "size_current l \<Longrightarrow> d < 0" using node(6) by simp
  show "size_current node" using node(5) by (simp add: size_current_def)
  show wf: "in_wf lib node"
  proof (rule in_wfI)
    fix j assume j: "j < length (children node)"
    show "child_buffer_ok lib (\<lambda>k. pivots_below (pivots (meta_data node)) k = j) (cl_buffer (children node ! j))"
    proof (cases "j < length (children l)")
      case True
      with l(2) have "child_buffer_ok lib (\<lambda>k. k \<le> pk) (cl_buffer (children l ! j))"
        by (simp add: keys_within_def list_all_length)
      from child_buffer_ok_conj [OF this lD(5) [OF True]] True show ?thesis
        unfolding node(1,2) by (auto simp: nth_append below(1) simp del: pivots_below_simps elim: child_buffer_ok_mono)
    next
      case False
      define n where "n = j - length (children l)"
      have n: "n < length (children r)" "j = length ?p + 1 + n" using False j lD(2) by (simp_all add: node(2) n_def)
      with r(2) have "child_buffer_ok lib (\<lambda>k. pk < k) (cl_buffer (children r ! n))"
        by (simp add: keys_within_def list_all_length)
      from child_buffer_ok_conj [OF this rD(5) [OF n(1)]] False show ?thesis
        unfolding node(1,2) n(2) using lD(2)
        by (auto simp: nth_append below(2) simp del: pivots_below_simps elim: child_buffer_ok_mono)
    qed
  qed (use sorted lD rD node in auto)
  show "located lib node key = located lib (if key \<le> pk then l else r) key"
  proof (cases "key \<le> pk")
    case True
    have "pivots_below ?p key < length (children l)" using pivots_below_le [of ?p key] lD(2) by simp
    with True show ?thesis
      by (simp add: located_wf [OF wf] located_wf [OF l(1)] node(1,2) below(1) Let_def nth_append del: pivots_below_simps)
  next
    case False
    with lD(2) show ?thesis
      by (simp add: located_wf [OF wf] located_wf [OF r(1)] node(1,2) below(2) Let_def nth_append del: pivots_below_simps)
  qed
qed

text \<open>
  C4. Splitting an inner node keeps the mapping of every key: a well-formed node with at least
  four children splits without a panic into two well-formed nodes of at least two children
  each; a key up to the split pivot finds in the left node, and any other key in the right
  node, the same child object and the same pending message as in the node before.
\<close>

theorem internal_split:
  assumes "in_wf lib node" "4 \<le> fanout node" "indexed node"
  shows "\<exists>l r pk d. in_split node = Some (l, r, pk, d, LRight pk) \<and> in_wf lib l \<and> in_wf lib r
    \<and> size_current l \<and> size_current r \<and> 2 \<le> fanout l \<and> 2 \<le> fanout r \<and> fanout l + fanout r = fanout node \<and> pk \<in> set (pivots (meta_data node))
    \<and> (\<forall>key. located lib (if key \<le> pk then l else r) key = located lib node key)"
proof -
  obtain l r pk d where split: "in_split node = Some (l, r, pk, d, LRight pk)"
    using in_split_parts [OF assms] by metis
  note facts = in_split_wf [OF assms split]
  have "pk \<in> set (pivots (meta_data node))" by (simp add: facts(3))
  with split facts(1,2,4,6-8,11,12) show ?thesis by blast
qed

text \<open>
  C28. Merging two neighbours undoes the split: merging the halves of a split node at the split
  pivot gives a well-formed node with the pivots of the original, on which every key finds
  the same child object and message, and the right half is left empty. The size change the
  merge reports has the wrong sign: it is negative although the node grows.
\<close>

theorem internal_merge_after_split:
  assumes "in_wf lib node" "4 \<le> fanout node" "indexed node"
  shows "\<exists>l r pk d lpk node' r' d'. in_split node = Some (l, r, pk, d, lpk) \<and> in_merge l r pk = (node', r', d')
    \<and> in_wf lib node' \<and> pivots (meta_data node') = pivots (meta_data node) \<and> children r' = []
    \<and> (\<forall>key. located lib node' key = located lib node key)
    \<and> int (in_size node') = int (in_size l) - d' \<and> d' < 0"
proof -
  obtain l r pk d lpk where split: "in_split node = Some (l, r, pk, d, lpk)"
    using in_split_parts [OF assms] by metis
  note facts = in_split_wf [OF assms split]
  obtain node' r' d' where merge: "in_merge l r pk = (node', r', d')" by (cases "in_merge l r pk")
  have "sorted_wrt (<) (pivots (meta_data l) @ pk # pivots (meta_data r))"
    using in_wfD(1) [OF assms(1)] by (simp only: facts(3))
  note merged = in_merge_wf [OF facts(1,9) facts(2,10) this merge]
  have "located lib node' key = located lib node key" for key
    by (simp only: merged(2) facts(4))
  with split merge merged(1,3,5,7) merged(8) [OF facts(11)] facts(3) show ?thesis by metis
qed

definition example_child_buffer :: "entries \<Rightarrow> packed_child_buffer" where
  "example_child_buffer m = (pcb_new False)\<lparr>cb_buffer := Unpacked m, entries_size := entry_sum entry_size m\<rparr>"

definition example_node_of :: "(64 word \<Rightarrow> pivot_key \<Rightarrow> obj_ref) \<Rightarrow> internal_node" where
  "example_node_of ref = (let mk = (\<lambda>i pk m. \<lparr>cl_buffer = example_child_buffer m, cl_ptr = ref i pk\<rparr>);
       cs = [mk 1 (LeftOuter [2] 0) [([1], \<lparr>ki_pref = 1\<rparr>, [1, 10])], mk 2 (Right [2] 0) [],
         mk 3 (Right [4] 0) [([5], \<lparr>ki_pref = 1\<rparr>, [0]), ([6], \<lparr>ki_pref = 1\<rparr>, [1, 60])], mk 4 (Right [6] 0) []]
     in \<lparr>meta_data = meta_invalidate \<lparr>current_size = 0, im_level = 1, im_system_pref = system_from NONE, im_pref = atomic_unknown,
         pivots = [[2], [4], [6]], entries_sizes = map (\<lambda>c. pcb_size (cl_buffer c)) cs, entries_prefs = [NONE, NONE, NONE, NONE]\<rparr>,
       children = cs\<rparr>)"

definition example_node :: internal_node where
  "example_node = example_node_of (\<lambda>i. Modified \<lparr>moid = i, mo_pref = NONE\<rparr>)"

definition example_pointer :: "64 word \<Rightarrow> object_pointer" where
  "example_pointer i = \<lparr>op_decompression_tag = TagNone, op_checksum = 0, op_offset = i, op_size = 1,
     op_integrity_mode = Internal 0 0, op_info = 0, op_generation = 1\<rparr>"

definition example_disk_node :: internal_node where
  "example_disk_node = example_node_of (\<lambda>i. Unmodified (example_pointer i))"

lemma example_child_buffer_ok:
  "sorted_keys m \<Longrightarrow> list_all (\<lambda>e. P (fst e)) m \<Longrightarrow> child_buffer_ok lib P (example_child_buffer m)"
  by (simp add: child_buffer_ok_def buffer_holds_def example_child_buffer_def size_exact_def pcb_new_def)

lemma example_node_of_facts: "in_wf lib (example_node_of ref)" "fanout (example_node_of ref) = 4" "size_current (example_node_of ref)"
proof -
  show "in_wf lib (example_node_of ref)"
  proof (rule in_wfI)
    fix i assume "i < length (children (example_node_of ref))"
    then have "i \<in> {0, 1, 2, 3}" by (auto simp: example_node_of_def Let_def)
    then show "child_buffer_ok lib (\<lambda>k. pivots_below (pivots (meta_data (example_node_of ref))) k = i) (cl_buffer (children (example_node_of ref) ! i))"
      by (auto simp: example_node_of_def Let_def intro!: example_child_buffer_ok)
  qed (simp_all add: example_node_of_def Let_def)
  show "fanout (example_node_of ref) = 4" "size_current (example_node_of ref)"
    by (simp_all add: example_node_of_def Let_def fanout_def size_current_def)
qed

lemma example_node_facts: "in_wf lib example_node" "fanout example_node = 4" "indexed example_node"
  unfolding example_node_def by (simp_all only: example_node_of_facts) (simp add: indexed_def example_node_of_def Let_def)

theorem internal_split_witness:
  "\<exists>l r pk d. in_split example_node = Some (l, r, pk, d, LRight pk) \<and> in_wf example_lib l \<and> in_wf example_lib r
    \<and> 2 \<le> fanout l \<and> 2 \<le> fanout r"
proof -
  have "4 \<le> fanout example_node" by (simp add: example_node_facts)
  from internal_split [OF example_node_facts(1) this example_node_facts(3), of example_lib] show ?thesis by blast
qed

theorem internal_merge_after_split_witness:
  "\<exists>l r pk d lpk node' r' d'. in_split example_node = Some (l, r, pk, d, lpk) \<and> in_merge l r pk = (node', r', d')
    \<and> in_wf example_lib node' \<and> d' < 0"
proof -
  have "4 \<le> fanout example_node" by (simp add: example_node_facts)
  from internal_merge_after_split [OF example_node_facts(1) this example_node_facts(3), of example_lib] show ?thesis by blast
qed

end
