(* ===== verification/TakeChild.thy ===== *)
theory TakeChild
  imports InternalNode
begin

text \<open>
  The operations of \<^verbatim>\<open>TakeChildBuffer\<close> and \<^verbatim>\<open>PrepareMergeChild\<close> in
  \<^verbatim>\<open>betree/src/tree/imp/internal/copyless_internal.rs\<close> on well-formed nodes: splitting, merging
  and rebalancing children, taking a buffer for a flush, and the choice of the child to
  flush. Each keeps for every key the pending message and directs it to the right child.
\<close>

subsection \<open>Inserting, removing and replacing pivots\<close>

lemma pivots_below_mono: "k \<le> k' \<Longrightarrow> pivots_below ps k \<le> pivots_below ps k'"
  by (induction ps) auto

lemma pivots_below_less_iff: "pivots_below ps k < pivots_below ps k' \<Longrightarrow> k < k'"
  using pivots_below_mono [of k' k ps] by (auto simp: not_less [symmetric])

lemma pivots_below_take_drop:
  assumes "sorted_wrt (<) ps"
  shows "\<forall>p \<in> set (take (pivots_below ps k) ps). p < k" "\<forall>p \<in> set (drop (pivots_below ps k) ps). k \<le> p"
proof (atomize (full), use assms in \<open>induction ps\<close>)
  case (Cons p ps)
  show ?case
  proof (cases "p < k")
    case False
    with Cons.prems have "\<forall>q \<in> set (p # ps). k \<le> q" by auto
    then have "pivots_below (p # ps) k = 0" by (rule pivots_below_none)
    with \<open>\<forall>q \<in> set (p # ps). k \<le> q\<close> show ?thesis by simp
  qed (use Cons in auto)
qed simp

lemma sorted_insert_pivot:
  assumes "sorted_wrt (<) ps" "pk \<notin> set ps" "pivots_below ps pk = i"
  shows "sorted_wrt (<) (take i ps @ pk # drop i ps)"
    and "pivots_below (take i ps @ pk # drop i ps) k = pivots_below ps k + (if pk < k then 1 else 0)"
proof -
  have "\<forall>p \<in> set (take i ps). p < pk" "\<forall>p \<in> set (drop i ps). pk < p"
    using pivots_below_take_drop [OF assms(1), of pk] assms(2,3) by (auto simp: order.strict_iff_order dest: in_set_dropD)
  moreover have "sorted_wrt (<) (take i ps @ drop i ps)" using assms(1) by simp
  ultimately show "sorted_wrt (<) (take i ps @ pk # drop i ps)"
    unfolding sorted_wrt_append by auto
  have "pivots_below ps k = pivots_below (take i ps @ drop i ps) k" by simp
  then show "pivots_below (take i ps @ pk # drop i ps) k = pivots_below ps k + (if pk < k then 1 else 0)"
    unfolding pivots_below_simps by simp
qed

lemma sorted_remove_pivot:
  assumes "sorted_wrt (<) ps" "i < length ps"
  shows "sorted_wrt (<) (take i ps @ drop (Suc i) ps)"
    and "pivots_below (take i ps @ drop (Suc i) ps) k = (if pivots_below ps k \<le> i then pivots_below ps k else pivots_below ps k - 1)"
proof -
  have ps: "ps = take i ps @ ps ! i # drop (Suc i) ps" using assms(2) by (rule id_take_nth_drop)
  have sorted: "sorted_wrt (<) (take i ps @ ps ! i # drop (Suc i) ps)" using assms(1) by (simp only: ps [symmetric])
  then show "sorted_wrt (<) (take i ps @ drop (Suc i) ps)" by (auto simp: sorted_wrt_append)
  have rest: "pivots_below (take i ps @ drop (Suc i) ps) k = pivots_below (take i ps) k + pivots_below (drop (Suc i) ps) k" by simp
  have le: "pivots_below (take i ps) k \<le> i" using pivots_below_le [of "take i ps" k] by simp
  show "pivots_below (take i ps @ drop (Suc i) ps) k = (if pivots_below ps k \<le> i then pivots_below ps k else pivots_below ps k - 1)"
  proof (cases "k \<le> ps ! i")
    case True
    then have "pivots_below (take i ps @ ps ! i # drop (Suc i) ps) k = pivots_below (take i ps) k"
      by (rule pivots_below_middle(1) [OF sorted])
    then have "pivots_below ps k = pivots_below (take i ps) k" by (simp only: ps [symmetric])
    moreover from sorted True have "pivots_below (drop (Suc i) ps) k = 0"
      by (intro pivots_below_none) (auto simp: sorted_wrt_append)
    ultimately show ?thesis using rest le by simp
  next
    case False
    then have "pivots_below (take i ps @ ps ! i # drop (Suc i) ps) k = length (take i ps) + 1 + pivots_below (drop (Suc i) ps) k"
      by (intro pivots_below_middle(2) [OF sorted]) simp
    then have "pivots_below ps k = i + 1 + pivots_below (drop (Suc i) ps) k"
      using assms(2) by (simp only: ps [symmetric] length_take min.absorb2 less_imp_le)
    moreover from sorted False have "pivots_below (take i ps) k = length (take i ps)"
      by (intro pivots_below_all) (auto simp: sorted_wrt_append)
    ultimately show ?thesis using rest assms(2) by simp
  qed
qed

lemma pivots_below_parts:
  assumes "sorted_wrt (<) (ps @ p # qs)"
  shows "k \<le> p \<Longrightarrow> pivots_below qs k = 0" "p < k \<Longrightarrow> pivots_below ps k = length ps"
    "pivots_below (ps @ p # qs) k = pivots_below ps k + (if p < k then 1 else 0) + pivots_below qs k"
  using assms by (auto simp: sorted_wrt_append intro!: pivots_below_none pivots_below_all)

lemma sorted_replace_pivot:
  assumes "sorted_wrt (<) ps" "i < length ps" "sorted_wrt (<) (ps[i := pk])"
  shows "pivots_below (ps[i := pk]) k =
    (if pivots_below ps k = i \<or> pivots_below ps k = i + 1 then (if k \<le> pk then i else i + 1) else pivots_below ps k)"
proof -
  let ?l = "take i ps" and ?r = "drop (Suc i) ps"
  have ps: "ps = ?l @ ps ! i # ?r" "ps[i := pk] = ?l @ pk # ?r"
    using assms(2) by (rule id_take_nth_drop, rule upd_conv_take_nth_drop)
  have sorted: "sorted_wrt (<) (?l @ ps ! i # ?r)" "sorted_wrt (<) (?l @ pk # ?r)"
    using assms(1,3) by (simp only: ps(1) [symmetric], simp only: ps(2))
  note old = pivots_below_parts [OF sorted(1), of k] and new = pivots_below_parts [OF sorted(2), of k]
  define a b where "a = pivots_below ?l k" and "b = pivots_below ?r k"
  have "pivots_below ps k = a + (if ps ! i < k then 1 else 0) + b"
    using old(3) by (simp only: ps(1) [symmetric] a_def b_def)
  moreover have "pivots_below (ps[i := pk]) k = a + (if pk < k then 1 else 0) + b"
    using new(3) by (simp only: ps(2) a_def b_def)
  moreover have "a \<le> i" "length ?l = i" using pivots_below_le [of ?l k] assms(2) by (simp_all add: a_def)
  moreover have "\<not> ps ! i < k \<Longrightarrow> b = 0" "ps ! i < k \<Longrightarrow> a = i" "\<not> pk < k \<Longrightarrow> b = 0" "pk < k \<Longrightarrow> a = i"
    using old(1,2) new(1,2) \<open>length ?l = i\<close> by (simp_all only: not_less a_def b_def)
  ultimately show ?thesis
    by (cases "ps ! i < k"; cases "pk < k") (simp_all only: not_less [symmetric] if_True if_False simp_thms add_0_right, simp_all)
qed

subsection \<open>Children\<close>

lemma in_wf_child:
  assumes "in_wf lib node" "i < fanout node"
  obtains m where "buffer_holds lib (cl_buffer (children node ! i)) m" "size_exact (cl_buffer (children node ! i)) m"
    "\<not> is_leaf (cl_buffer (children node ! i))" "\<forall>k \<in> fst ` set m. pivots_below (pivots (meta_data node)) k = i"
  using in_wfD(5) [OF assms(1), of i] assms(2) by (auto simp: fanout_def child_buffer_ok_def list_all_iff)

lemma child_buffer_okI:
  "buffer_holds lib b m \<Longrightarrow> size_exact b m \<Longrightarrow> \<not> is_leaf b \<Longrightarrow> (\<And>k. k \<in> fst ` set m \<Longrightarrow> P k) \<Longrightarrow> child_buffer_ok lib P b"
  by (auto simp: child_buffer_ok_def list_all_iff)

lemma in_get_child:
  assumes "in_wf lib node"
  shows "in_idx node key = pivots_below (pivots (meta_data node)) key" "in_idx node key < fanout node"
    "in_get lib node key = (let c = children node ! in_idx node key in map_option (Pair (cl_ptr c)) (pcb_get lib (cl_buffer c) key))"
  using in_get_wf [OF assms] in_wfD(1,2) [OF assms] pivots_below_le [of "pivots (meta_data node)" key]
  by (simp_all add: in_idx_pivots_below fanout_def Let_def)

lemma vec_insert_nth:
  assumes "i \<le> length xs"
  shows "(take i xs @ x # drop i xs) ! j = (if j < i then xs ! j else if j = i then x else xs ! (j - 1))"
  using assms by (auto simp: nth_append nth_Cons' min_def)

lemma bt_get_filter_le:
  "bt_get (filter (\<lambda>e. fst e \<le> pk) m) k = (if k \<le> pk then bt_get m k else None)"
  "bt_get (filter (\<lambda>e. pk < fst e) m) k = (if pk < k then bt_get m k else None)" for pk :: bytes
  by (rule bt_get_filter [where P = "\<lambda>k. k \<le> pk"], rule bt_get_filter [where P = "\<lambda>k. pk < k"])

subsection \<open>Splitting a child\<close>

text \<open>The parts of a node in which a child was split.\<close>

lemma split_child_parts:
  assumes wf: "in_wf lib node" and i: "i < fanout node" and m: "cb_buffer (cl_buffer (children node ! i)) = Unpacked m"
    and idx: "in_idx node pk = i" and pk: "pk \<notin> set (pivots (meta_data node))"
  obtains node' l r d where "split_child node i np pk select_right = Some (node', (if select_right then i + 1 else i), d)"
    "pivots (meta_data node') = take i (pivots (meta_data node)) @ pk # drop i (pivots (meta_data node))"
    "children node' = take (i + 1) ((children node)[i := (children node ! i)\<lparr>cl_buffer := l\<rparr>])
       @ \<lparr>cl_buffer = r, cl_ptr = np\<rparr> # drop (i + 1) (children node)"
    "cb_buffer l = Unpacked (filter (\<lambda>e. fst e \<le> pk) m)" "cb_buffer r = Unpacked (filter (\<lambda>e. pk < fst e) m)"
    "size_exact l (filter (\<lambda>e. fst e \<le> pk) m)" "size_exact r (filter (\<lambda>e. pk < fst e) m)" "\<not> is_leaf l" "\<not> is_leaf r"
    "entries_sizes (meta_data node') = map (\<lambda>c. pcb_size (cl_buffer c)) (children node')"
    "length (entries_prefs (meta_data node')) = length (children node')"
    "current_size (meta_data node') = current_size (meta_data node)"
proof -
  note D = in_wfD [OF wf]
  have i': "i < length (children node)" "i \<le> length (pivots (meta_data node))" using i D(2) by (simp_all add: fanout_def)
  obtain m0 where m0: "buffer_holds lib (cl_buffer (children node ! i)) m0" "size_exact (cl_buffer (children node ! i)) m0"
    "\<not> is_leaf (cl_buffer (children node ! i))" using in_wf_child [OF wf i] by metis
  have "m0 = m" using m0(1) m by (simp add: buffer_holds_def)
  then have sorted: "sorted_keys m" "size_exact (cl_buffer (children node ! i)) m" using m0 by (simp_all add: buffer_holds_def)
  obtain l r where lr: "pcb_split_at (cl_buffer (children node ! i)) pk = Some (l, r)"
    "cb_buffer l = Unpacked (filter (\<lambda>e. fst e \<le> pk) m)" "cb_buffer r = Unpacked (filter (\<lambda>e. pk < fst e) m)"
    "size_exact l (filter (\<lambda>e. fst e \<le> pk) m)" "size_exact r (filter (\<lambda>e. pk < fst e) m)" "\<not> is_leaf l" "\<not> is_leaf r"
    using split_at_partition [OF m sorted, of pk] m0(3) by auto
  let ?cs = "take (i + 1) ((children node)[i := (children node ! i)\<lparr>cl_buffer := l\<rparr>]) @ \<lparr>cl_buffer = r, cl_ptr = np\<rparr> # drop (i + 1) (children node)"
  let ?es = "take (i + 1) ((entries_sizes (meta_data node))[i := pcb_size l]) @ pcb_size r # drop (i + 1) (entries_sizes (meta_data node))"
  let ?ps = "take i (pivots (meta_data node)) @ pk # drop i (pivots (meta_data node))"
  let ?pr = "take (i + 1) (entries_prefs (meta_data node)) @ (entries_prefs (meta_data node) ! i) # drop (i + 1) (entries_prefs (meta_data node))"
  let ?n = "node\<lparr>meta_data := (meta_data node)\<lparr>pivots := ?ps, entries_sizes := ?es, entries_prefs := ?pr\<rparr>, children := ?cs\<rparr>"
  have es: "?es = map (\<lambda>c. pcb_size (cl_buffer c)) ?cs"
    by (simp add: D(3) map_update drop_map flip: take_map)
  have "split_child node i np pk select_right = Some (?n, (if select_right then i + 1 else i), int (in_cache_size ?n) - int (in_cache_size node))"
    using i' lr(1) D(3,4) by (simp add: split_child_def nth_opt_def vec_insert_def vec_set_def Let_def)
  from that [OF this] lr es i' D(4) show ?thesis by simp
qed

lemma split_child_spec:
  assumes wf: "in_wf lib node" and i: "i < fanout node" and m: "cb_buffer (cl_buffer (children node ! i)) = Unpacked m"
    and idx: "in_idx node pk = i" and pk: "pk \<notin> set (pivots (meta_data node))"
    and split: "split_child node i np pk select_right = Some (node', j, d)"
  shows "in_wf lib node'" "pivots (meta_data node') = take i (pivots (meta_data node)) @ pk # drop i (pivots (meta_data node))"
    "current_size (meta_data node') = current_size (meta_data node)" "fanout node' = fanout node + 1"
    "in_get lib node' key = map_option (\<lambda>(p, msg). (if in_idx node key = i \<and> pk < key then np else p, msg)) (in_get lib node key)"
proof -
  let ?ps = "pivots (meta_data node)" and ?cs = "children node"
  obtain n l r d' where parts0: "split_child node i np pk select_right = Some (n, (if select_right then i + 1 else i), d')"
    "pivots (meta_data n) = take i ?ps @ pk # drop i ?ps"
    "children n = take (i + 1) (?cs[i := (?cs ! i)\<lparr>cl_buffer := l\<rparr>]) @ \<lparr>cl_buffer = r, cl_ptr = np\<rparr> # drop (i + 1) ?cs"
    "cb_buffer l = Unpacked (filter (\<lambda>e. fst e \<le> pk) m)" "cb_buffer r = Unpacked (filter (\<lambda>e. pk < fst e) m)"
    "size_exact l (filter (\<lambda>e. fst e \<le> pk) m)" "size_exact r (filter (\<lambda>e. pk < fst e) m)" "\<not> is_leaf l" "\<not> is_leaf r"
    "entries_sizes (meta_data n) = map (\<lambda>c. pcb_size (cl_buffer c)) (children n)"
    "length (entries_prefs (meta_data n)) = length (children n)"
    "current_size (meta_data n) = current_size (meta_data node)"
    by (rule split_child_parts [OF wf i m idx pk, of np select_right])
  then have "n = node'" using split by simp
  note parts = parts0(2-) [unfolded this]
  note D = in_wfD [OF wf]
  have i': "i < length ?cs" "i \<le> length ?ps" using i D(2) by (simp_all add: fanout_def)
  have below: "pivots_below ?ps pk = i" using idx in_get_child(1) [OF wf] by simp
  note ins = sorted_insert_pivot [OF D(1) pk below]
  have below': "pivots_below (pivots (meta_data node')) k = pivots_below ?ps k + (if pk < k then 1 else 0)" for k
    by (simp only: parts(1) ins(2))
  have len: "length (children node') = length ?cs + 1" using i' by (simp add: parts(2))
  have nth: "children node' ! n = (if n < i then ?cs ! n else if n = i then (?cs ! i)\<lparr>cl_buffer := l\<rparr>
      else if n = i + 1 then \<lparr>cl_buffer = r, cl_ptr = np\<rparr> else ?cs ! (n - 1))" for n
    using vec_insert_nth [of "i + 1" "?cs[i := (?cs ! i)\<lparr>cl_buffer := l\<rparr>]" "\<lparr>cl_buffer = r, cl_ptr = np\<rparr>" n] i'
    by (auto simp: parts(2) nth_list_update)
  obtain m0 where "buffer_holds lib (cl_buffer (?cs ! i)) m0" "\<forall>k \<in> fst ` set m0. pivots_below ?ps k = i"
    using in_wf_child [OF wf i] by metis
  then have m_keys: "\<forall>k \<in> fst ` set m. pivots_below ?ps k = i" and sorted: "sorted_keys m"
    using m by (auto simp: buffer_holds_def)
  have holds: "buffer_holds lib l (filter (\<lambda>e. fst e \<le> pk) m)" "buffer_holds lib r (filter (\<lambda>e. pk < fst e) m)"
    using parts(3,4) sorted_keys_filter [OF sorted] by (simp_all add: buffer_holds_def)
  have side: "\<not> pk < k" if "pivots_below ?ps k < i" for k
    using pivots_below_less_iff [of ?ps k pk] that below by auto
  have side': "pk < k" if "i < pivots_below ?ps k" for k
    using pivots_below_less_iff [of ?ps pk k] that below by auto
  show wf': "in_wf lib node'"
  proof (rule in_wfI)
    fix n assume n: "n < length (children node')"
    consider "n < i" | "n = i" | "n = i + 1" | "i + 1 < n" by linarith
    then show "child_buffer_ok lib (\<lambda>k. pivots_below (pivots (meta_data node')) k = n) (cl_buffer (children node' ! n))"
    proof cases
      case 1
      with D(5) [of n] i' have "child_buffer_ok lib (\<lambda>k. pivots_below ?ps k = n) (cl_buffer (?cs ! n))" by simp
      then show ?thesis using 1 side by (auto simp: nth below' elim!: child_buffer_ok_mono)
    next
      case 2
      show ?thesis unfolding nth 2
        by (rule child_buffer_okI) (use holds(1) parts(5,7) m_keys below' in auto)
    next
      case 3
      show ?thesis unfolding nth 3
        by (rule child_buffer_okI [where m = "filter (\<lambda>e. pk < fst e) m"]) (use holds(2) parts(6,8) m_keys below' in auto)
    next
      case 4
      with D(5) [of "n - 1"] n len have "child_buffer_ok lib (\<lambda>k. pivots_below ?ps k = n - 1) (cl_buffer (?cs ! (n - 1)))" by simp
      then show ?thesis using 4 side' by (auto simp: nth below' elim!: child_buffer_ok_mono)
    qed
  qed (use ins(1) parts(1,9,10) len D(2) i' in simp_all)
  show "pivots (meta_data node') = take i ?ps @ pk # drop i ?ps" "current_size (meta_data node') = current_size (meta_data node)"
    "fanout node' = fanout node + 1" using parts len by (simp_all add: fanout_def)
  have get: "pcb_get lib (cl_buffer (?cs ! i)) key = Some (bt_get m key)"
    "pcb_get lib l key = Some (if key \<le> pk then bt_get m key else None)"
    "pcb_get lib r key = Some (if pk < key then bt_get m key else None)"
    using m buffer_holds_reads(2) [OF holds(1)] buffer_holds_reads(2) [OF holds(2)]
    by (simp_all add: bt_get_filter_le pcb_get_def)
  have idx': "in_idx node' key = in_idx node key + (if pk < key then 1 else 0)"
    by (simp only: in_get_child(1) [OF wf'] in_get_child(1) [OF wf] parts(1) ins(2))
  consider "in_idx node key < i" | "in_idx node key = i" | "i < in_idx node key" by linarith
  then show "in_get lib node' key = map_option (\<lambda>(p, msg). (if in_idx node key = i \<and> pk < key then np else p, msg)) (in_get lib node key)"
  proof cases
    case 1
    then have "in_idx node' key = in_idx node key" "\<not> pk < key" using idx' side in_get_child(1) [OF wf] by auto
    with 1 show ?thesis
      by (simp add: in_get_child(3) [OF wf] in_get_child(3) [OF wf'] nth Let_def option.map_comp o_def)
  next
    case 2
    then show ?thesis
      using get by (auto simp: in_get_child(3) [OF wf] in_get_child(3) [OF wf'] idx' nth Let_def)
  next
    case 3
    then have "in_idx node' key = in_idx node key + 1" "pk < key" using idx' side' in_get_child(1) [OF wf] by auto
    with 3 show ?thesis
      by (simp add: in_get_child(3) [OF wf] in_get_child(3) [OF wf'] nth Let_def option.map_comp o_def)
  qed
qed

subsection \<open>Merging two children\<close>

lemma vec_remove_nth:
  assumes "i < length xs"
  shows "(take i xs @ drop (Suc i) xs) ! j = (if j < i then xs ! j else xs ! Suc j)"
  using assms by (auto simp: nth_append min_def)

text \<open>The buffers of two neighbours hold keys on different sides of their pivot.\<close>

lemma neighbours_append:
  assumes wf: "in_wf lib node" and i: "i + 1 < fanout node"
  obtains l r b r' d where "buffer_holds lib (cl_buffer (children node ! i)) l" "buffer_holds lib (cl_buffer (children node ! (i + 1))) r"
    "\<forall>k \<in> fst ` set l. pivots_below (pivots (meta_data node)) k = i"
    "\<forall>k \<in> fst ` set r. pivots_below (pivots (meta_data node)) k = i + 1"
    "pcb_append lib (cl_buffer (children node ! i)) (cl_buffer (children node ! (i + 1))) = Some (b, r', d)"
    "cb_buffer b = Unpacked (l @ r)" "size_exact b (l @ r)" "sorted_keys (l @ r)" "\<not> is_leaf b"
    "is_leaf r' = is_leaf (cl_buffer (children node ! (i + 1)))"
proof -
  let ?l = "cl_buffer (children node ! i)" and ?r = "cl_buffer (children node ! (i + 1))" and ?ps = "pivots (meta_data node)"
  obtain l where l: "buffer_holds lib ?l l" "size_exact ?l l" "\<not> is_leaf ?l" "\<forall>k \<in> fst ` set l. pivots_below ?ps k = i"
    using in_wf_child [OF wf, of i] i by auto
  obtain r where r: "buffer_holds lib ?r r" "size_exact ?r r" "\<not> is_leaf ?r" "\<forall>k \<in> fst ` set r. pivots_below ?ps k = i + 1"
    using in_wf_child [OF wf i] by auto
  have less: "\<forall>j \<in> fst ` set l. \<forall>k \<in> fst ` set r. j < k"
  proof (intro ballI)
    fix j k assume jk: "j \<in> fst ` set l" "k \<in> fst ` set r"
    have "pivots_below ?ps j < pivots_below ?ps k" using l(4) [rule_format, OF jk(1)] r(4) [rule_format, OF jk(2)] by simp
    then show "j < k" by (rule pivots_below_less_iff)
  qed
  note lr = buffer_holds_reads [OF l(1)] buffer_holds_reads [OF r(1)]
  obtain b r' d where b: "pcb_append lib ?l ?r = Some (b, r', d)" "cb_buffer b = Unpacked (l @ r)"
    "excess b (l @ r) = excess ?l l + excess ?r r" "is_leaf b = is_leaf ?l"
    using pcb_append_contents [OF lr(1,5,8) less] by blast
  have "is_leaf r' = is_leaf ?r" using b(1) by (auto simp: pcb_append_def bind_eq_Some_conv)
  moreover have "size_exact b (l @ r)" using b(3) l(2) r(2) by (simp add: size_exact_excess)
  moreover have "sorted_keys (l @ r)" using less lr(4,8) by (simp add: sorted_wrt_append)
  ultimately show ?thesis using that l r b by simp
qed

lemma merge_children_spec:
  assumes wf: "in_wf lib node" and i: "i + 1 < fanout node"
  obtains node' d where "merge_children lib node i = Some (node', pivots (meta_data node) ! i, cl_ptr (children node ! (i + 1)), d)"
    "in_wf lib node'" "size_current node'" "fanout node' = fanout node - 1"
    "\<And>key. in_get lib node' key = map_option (\<lambda>(p, msg). (if in_idx node key = i + 1 then cl_ptr (children node ! i) else p, msg)) (in_get lib node key)"
proof -
  let ?ps = "pivots (meta_data node)" and ?cs = "children node"
  note D = in_wfD [OF wf]
  have i': "i + 1 < length ?cs" "i < length ?ps" using i D(2) by (simp_all add: fanout_def)
  obtain l r b r' d where lr: "buffer_holds lib (cl_buffer (?cs ! i)) l" "buffer_holds lib (cl_buffer (?cs ! (i + 1))) r"
    "\<forall>k \<in> fst ` set l. pivots_below ?ps k = i" "\<forall>k \<in> fst ` set r. pivots_below ?ps k = i + 1"
    "pcb_append lib (cl_buffer (?cs ! i)) (cl_buffer (?cs ! (i + 1))) = Some (b, r', d)"
    "cb_buffer b = Unpacked (l @ r)" "size_exact b (l @ r)" "sorted_keys (l @ r)" "\<not> is_leaf b"
    using neighbours_append [OF wf i] by metis
  let ?rm = "take (i + 1) ?cs @ drop (Suc (i + 1)) ?cs"
  define n where "n = node\<lparr>meta_data := meta_invalidate ((meta_data node)\<lparr>pivots := take i ?ps @ drop (Suc i) ?ps,
      entries_prefs := take (i + 1) (entries_prefs (meta_data node)) @ drop (Suc (i + 1)) (entries_prefs (meta_data node)),
      entries_sizes := (take (i + 1) (entries_sizes (meta_data node)) @ drop (Suc (i + 1)) (entries_sizes (meta_data node)))[i := pcb_size b]\<rparr>),
    children := ?rm[i := (?cs ! i)\<lparr>cl_buffer := b\<rparr>]\<rparr>"
  let ?d = "- int (cow_size (?ps ! i) + or_static_size * 2 + 1 + 8)"
  have merge: "merge_children lib node i = Some (n, ?ps ! i, cl_ptr (?cs ! (i + 1)), ?d)"
    using i' D(3,4) lr(5) by (simp add: merge_children_def vec_remove_def vec_set_def nth_opt_def nth_append Let_def n_def)
  have below: "pivots_below (pivots (meta_data n)) k = (if pivots_below ?ps k \<le> i then pivots_below ?ps k else pivots_below ?ps k - 1)" for k
    using sorted_remove_pivot(2) [OF D(1) i'(2), of k] by (simp add: n_def del: pivots_below_simps)
  have len: "length (children n) = length ?cs - 1" using i' by (simp add: n_def)
  have nth: "children n ! j = (if j = i then (?cs ! i)\<lparr>cl_buffer := b\<rparr> else if j \<le> i then ?cs ! j else ?cs ! Suc j)" for j
    using vec_remove_nth [OF i'(1), of j] i' by (auto simp: nth_list_update n_def)
  have es: "entries_sizes (meta_data n) = map (\<lambda>c. pcb_size (cl_buffer c)) (children n)"
    by (simp add: D(3) map_update drop_map take_map n_def)
  have wf': "in_wf lib n"
  proof (rule in_wfI)
    fix j assume j: "j < length (children n)"
    consider "j < i" | "j = i" | "i < j" by linarith
    then show "child_buffer_ok lib (\<lambda>k. pivots_below (pivots (meta_data n)) k = j) (cl_buffer (children n ! j))"
    proof cases
      case 1
      with D(5) [of j] i' have "child_buffer_ok lib (\<lambda>k. pivots_below ?ps k = j) (cl_buffer (?cs ! j))" by simp
      then show ?thesis unfolding nth below using 1 by (auto elim!: child_buffer_ok_mono)
    next
      case 2
      show ?thesis unfolding nth below 2
        by (rule child_buffer_okI [where m = "l @ r"]) (use lr in \<open>auto simp: buffer_holds_def\<close>)
    next
      case 3
      with D(5) [of "Suc j"] j len have "child_buffer_ok lib (\<lambda>k. pivots_below ?ps k = Suc j) (cl_buffer (?cs ! Suc j))" by simp
      then show ?thesis unfolding nth below using 3 by (auto elim!: child_buffer_ok_mono)
    qed
  qed (use sorted_remove_pivot(1) [OF D(1) i'(2)] es len D(2,4) i' in \<open>simp_all add: n_def del: map_append\<close>)
  have idx: "in_idx n key = (if in_idx node key \<le> i then in_idx node key else in_idx node key - 1)" for key
    by (simp only: in_get_child(1) [OF wf'] in_get_child(1) [OF wf] below)
  have get: "pcb_get lib (cl_buffer (?cs ! i)) key = Some (bt_get l key)" "pcb_get lib (cl_buffer (?cs ! (i + 1))) key = Some (bt_get r key)"
    "pcb_get lib b key = Some (bt_get (l @ r) key)" for key
    using buffer_holds_reads(2) [OF lr(1)] buffer_holds_reads(2) [OF lr(2)] lr(6) by (simp_all add: pcb_get_def)
  have miss: "bt_get l key = None" if "in_idx node key = i + 1" for key
    using that lr(3) in_get_child(1) [OF wf] by (auto simp: bt_get_eq_None)
  have miss': "bt_get r key = None" if "in_idx node key = i" for key
    using that lr(4) in_get_child(1) [OF wf] by (auto simp: bt_get_eq_None)
  have "in_get lib n key = map_option (\<lambda>(p, msg). (if in_idx node key = i + 1 then cl_ptr (?cs ! i) else p, msg)) (in_get lib node key)" for key
  proof -
    consider "in_idx node key < i" | "in_idx node key = i" | "in_idx node key = i + 1" | "i + 1 < in_idx node key" by linarith
    then show ?thesis
    proof cases
      case 4
      then obtain x where "in_idx node key = Suc x" "i < x" by (cases "in_idx node key") auto
      then show ?thesis
        by (simp add: in_get_child(3) [OF wf] in_get_child(3) [OF wf'] idx nth Let_def option.map_comp o_def)
    qed (simp_all add: in_get_child(3) [OF wf] in_get_child(3) [OF wf'] idx nth Let_def option.map_comp o_def
          get [simplified] miss miss' bt_get_concat split: option.splits)
  qed
  moreover have "size_current n" by (simp add: size_current_def n_def)
  moreover have "fanout n = fanout node - 1" using len by (simp add: fanout_def)
  ultimately show ?thesis using that [OF merge wf'] by simp
qed

subsection \<open>Rebalancing two children\<close>

definition with_sizes :: "internal_node \<Rightarrow> internal_node" where
  "with_sizes node = node\<lparr>meta_data := (meta_data node)\<lparr>entries_sizes := map (\<lambda>c. pcb_size (cl_buffer c)) (children node)\<rparr>\<rparr>"

lemma with_sizes_simps [simp]:
  "children (with_sizes node) = children node" "pivots (meta_data (with_sizes node)) = pivots (meta_data node)"
  "entries_prefs (meta_data (with_sizes node)) = entries_prefs (meta_data node)"
  "entries_sizes (meta_data (with_sizes node)) = map (\<lambda>c. pcb_size (cl_buffer c)) (children node)"
  "in_get lib (with_sizes node) key = in_get lib node key" "in_idx (with_sizes node) key = in_idx node key"
  by (simp_all add: with_sizes_def in_get_def in_idx_def)

lemma rebalanced_spec:
  assumes wf: "in_wf lib node" and i: "i + 1 < fanout node" and pk: "sorted_wrt (<) ((pivots (meta_data node))[i := pk])"
  obtains n d where "rebalanced lib node i pk = Some (n, d)" "in_wf lib (with_sizes n)" "fanout n = fanout node"
    "pivots (meta_data n) = (pivots (meta_data node))[i := pk]"
    "entries_sizes (meta_data n) = (map (\<lambda>c. pcb_size (cl_buffer c)) (children n))[i + 1 := pcb_size (cl_buffer (children n ! i))]"
    "current_size (meta_data n) = current_size (meta_data node)" "map cl_ptr (children n) = map cl_ptr (children node)"
    "\<And>key. in_get lib n key = map_option (\<lambda>(p, msg). (if in_idx node key = i \<or> in_idx node key = i + 1
       then cl_ptr (children node ! (if key \<le> pk then i else i + 1)) else p, msg)) (in_get lib node key)"
proof -
  let ?ps = "pivots (meta_data node)" and ?cs = "children node"
  note D = in_wfD [OF wf]
  have i': "i + 1 < length ?cs" "i < length ?ps" using i D(2) by (simp_all add: fanout_def)
  obtain l r b r' d where lr: "buffer_holds lib (cl_buffer (?cs ! i)) l" "buffer_holds lib (cl_buffer (?cs ! (i + 1))) r"
    "\<forall>k \<in> fst ` set l. pivots_below ?ps k = i" "\<forall>k \<in> fst ` set r. pivots_below ?ps k = i + 1"
    "pcb_append lib (cl_buffer (?cs ! i)) (cl_buffer (?cs ! (i + 1))) = Some (b, r', d)"
    "cb_buffer b = Unpacked (l @ r)" "size_exact b (l @ r)" "sorted_keys (l @ r)" "\<not> is_leaf b"
    "is_leaf r' = is_leaf (cl_buffer (?cs ! (i + 1)))"
    using neighbours_append [OF wf i] by metis
  have "\<not> is_leaf (cl_buffer (?cs ! (i + 1)))" using in_wf_child [OF wf i] by metis
  then have leaf: "\<not> is_leaf r'" using lr(10) by simp
  let ?lo = "filter (\<lambda>e. fst e \<le> pk) (l @ r)" and ?hi = "filter (\<lambda>e. pk < fst e) (l @ r)"
  have "size_covers b (l @ r)" using lr(7) by (simp add: size_exact_def size_covers_def)
  then obtain b' where b': "pcb_split_off b pk = Some (b', ?hi, entry_sum entry_size ?hi)" "cb_buffer b' = Unpacked ?lo"
    "is_leaf b' = is_leaf b" "excess b' ?lo = excess b (l @ r)"
    using pcb_split_off_spec [OF lr(6,8), of pk] by blast
  define rb where "rb = r'\<lparr>cb_buffer := Unpacked ?hi, entries_size := entry_sum entry_size ?hi\<rparr>"
  define n where "n = node\<lparr>meta_data := (meta_data node)\<lparr>
      entries_sizes := (entries_sizes (meta_data node))[i := pcb_size b', i + 1 := pcb_size b'], pivots := ?ps[i := pk]\<rparr>,
    children := ?cs[i := (?cs ! i)\<lparr>cl_buffer := b'\<rparr>, i + 1 := (?cs ! (i + 1))\<lparr>cl_buffer := rb\<rparr>]\<rparr>"
  have reb: "rebalanced lib node i pk = Some (n, int (cow_size pk) - int (cow_size (?ps ! i)))"
    using i' D(3) lr(5) b'(1) by (simp add: rebalanced_def pcb_rebalance_def nth_opt_def vec_set_def n_def rb_def)
  have nth: "children n ! j = (if j = i then (?cs ! i)\<lparr>cl_buffer := b'\<rparr> else if j = i + 1 then (?cs ! (i + 1))\<lparr>cl_buffer := rb\<rparr> else ?cs ! j)" for j
    using i' by (simp add: n_def nth_list_update)
  have len: "length (children n) = length ?cs" "pivots (meta_data n) = ?ps[i := pk]" "entries_prefs (meta_data n) = entries_prefs (meta_data node)"
    by (simp_all add: n_def)
  have below: "pivots_below (pivots (meta_data n)) k = (if pivots_below ?ps k = i \<or> pivots_below ?ps k = i + 1
      then (if k \<le> pk then i else i + 1) else pivots_below ?ps k)" for k
    unfolding len(2) by (rule sorted_replace_pivot [OF D(1) i'(2) pk])
  have keys: "pivots_below ?ps k = i \<or> pivots_below ?ps k = i + 1" if "k \<in> fst ` set (l @ r)" for k
    using that lr(3,4) by auto
  have holds: "buffer_holds lib b' ?lo" "buffer_holds lib rb ?hi" "size_exact b' ?lo" "size_exact rb ?hi" "\<not> is_leaf b'" "\<not> is_leaf rb"
    using b' sorted_keys_filter [OF lr(8)] lr(7,9) leaf
    by (simp_all add: buffer_holds_def rb_def size_exact_excess) (simp add: excess_def)
  have wf': "in_wf lib (with_sizes n)"
  proof (rule in_wfI)
    fix j assume j: "j < length (children (with_sizes n))"
    consider "j = i" | "j = i + 1" | "j \<noteq> i" "j \<noteq> i + 1" by blast
    then show "child_buffer_ok lib (\<lambda>k. pivots_below (pivots (meta_data (with_sizes n))) k = j) (cl_buffer (children (with_sizes n) ! j))"
    proof cases
      case 1
      show ?thesis unfolding with_sizes_simps nth below 1
        by (rule child_buffer_okI [where m = ?lo]) (use holds keys in auto)
    next
      case 2
      show ?thesis unfolding with_sizes_simps nth below 2
        by (rule child_buffer_okI [where m = ?hi]) (use holds keys in auto)
    next
      case 3
      with D(5) [of j] j len(1) have "child_buffer_ok lib (\<lambda>k. pivots_below ?ps k = j) (cl_buffer (?cs ! j))" by simp
      then show ?thesis unfolding with_sizes_simps nth below using 3 by (auto elim!: child_buffer_ok_mono)
    qed
  qed (use len pk D(2,4) in simp_all)
  have idx: "in_idx n key = (if in_idx node key = i \<or> in_idx node key = i + 1 then (if key \<le> pk then i else i + 1) else in_idx node key)" for key
    using below [of key] in_get_child(1) [OF wf] in_get_child(1) [OF wf'] by simp
  have get: "pcb_get lib (cl_buffer (?cs ! i)) key = Some (bt_get l key)" "pcb_get lib (cl_buffer (?cs ! Suc i)) key = Some (bt_get r key)"
    "pcb_get lib b' key = Some (if key \<le> pk then bt_get (l @ r) key else None)"
    "pcb_get lib rb key = Some (if pk < key then bt_get (l @ r) key else None)" for key
    using buffer_holds_reads(2) [OF lr(1)] buffer_holds_reads(2) [OF lr(2)] buffer_holds_reads(2) [OF holds(1)] buffer_holds_reads(2) [OF holds(2)]
    by (simp_all only: bt_get_filter_le Suc_eq_plus1)
  have miss: "bt_get l key = None" if "in_idx node key = i + 1" for key
    using that lr(3) in_get_child(1) [OF wf] by (auto simp: bt_get_eq_None)
  have miss': "bt_get r key = None" if "in_idx node key = i" for key
    using that lr(4) in_get_child(1) [OF wf] by (auto simp: bt_get_eq_None)
  have node: "in_get lib node key = (let c = ?cs ! in_idx node key in map_option (Pair (cl_ptr c)) (pcb_get lib (cl_buffer c) key))"
    "in_get lib n key = (let c = children n ! in_idx n key in map_option (Pair (cl_ptr c)) (pcb_get lib (cl_buffer c) key))" for key
    using in_get_child(3) [OF wf] in_get_child(3) [OF wf'] by simp_all
  have "in_get lib n key = map_option (\<lambda>(p, msg). (if in_idx node key = i \<or> in_idx node key = i + 1
       then cl_ptr (children node ! (if key \<le> pk then i else i + 1)) else p, msg)) (in_get lib node key)" for key
    unfolding node idx nth Let_def
    by (simp add: option.map_comp o_def) (auto simp: get miss miss' bt_get_concat split: option.splits)
  moreover have "entries_sizes (meta_data n) = (map (\<lambda>c. pcb_size (cl_buffer c)) (children n))[i + 1 := pcb_size (cl_buffer (children n ! i))]"
    using i' D(3) by (simp add: n_def map_update)
  moreover have "map cl_ptr (children n) = map cl_ptr ?cs"
    using i' by (intro nth_equalityI) (simp_all add: nth len(1))
  moreover have "current_size (meta_data n) = current_size (meta_data node)" by (simp add: n_def)
  ultimately show ?thesis using that [OF reb wf'] len by (simp add: fanout_def)
qed

subsection \<open>Choosing and emptying a buffer\<close>

lemma last_max_spec:
  assumes "last_max i vs (b, v) = (b', v')"
  shows "v \<le> v'" "\<forall>w \<in> set vs. w \<le> v'" "(b', v') = (b, v) \<or> (i \<le> b' \<and> b' < i + length vs \<and> v' = vs ! (b' - i))"
  using assms
proof (atomize (full), induction vs arbitrary: i b v)
  case (Cons w vs)
  obtain b1 v1 where best: "(if v \<le> w then (i, w) else (b, v)) = (b1, v1)" by fastforce
  then have "last_max (i + 1) vs (b1, v1) = (b', v')" using Cons.prems by simp
  note IH = Cons.IH [OF this]
  show ?case
  proof (cases "(b', v') = (b1, v1)")
    case True
    with IH best show ?thesis by (auto split: if_splits)
  next
    case False
    with IH obtain x where "b' = i + 1 + x" "x < length vs" "v' = vs ! x"
      by (auto dest!: le_Suc_ex)
    with IH best show ?thesis by (auto split: if_splits)
  qed
qed simp

lemma max_entry_spec:
  assumes "vs \<noteq> []"
  obtains i where "max_entry vs = Some (i, vs ! i)" "i < length vs" "\<forall>v \<in> set vs. v \<le> vs ! i"
proof -
  obtain v vs' where vs: "vs = v # vs'" using assms by (cases vs) auto
  obtain b w where m: "last_max 1 vs' (0, v) = (b, w)" by fastforce
  note spec = last_max_spec [OF m]
  show ?thesis
  proof (cases "(b, w) = (0, v)")
    case True
    with that [of 0] spec m vs show ?thesis by (simp add: max_entry_def)
  next
    case False
    with spec(3) have "1 \<le> b" "b < 1 + length vs'" "w = vs' ! (b - 1)" by auto
    with that [of b] spec m vs show ?thesis by (auto simp: max_entry_def nth_Cons')
  qed
qed

lemma child_size_le_in_size:
  assumes "in_wf lib node" "i < fanout node"
  shows "pcb_size (cl_buffer (children node ! i)) \<le> in_size node"
proof -
  have "pcb_size (cl_buffer (children node ! i)) \<in> set (entries_sizes (meta_data node))"
    using assms(2) in_wfD(3) [OF assms(1)] by (simp add: fanout_def)
  then show ?thesis using member_le_sum_list by (fastforce simp: in_size_def)
qed

lemma take_buffer_spec:
  assumes wf: "in_wf lib node" and i: "i < fanout node" and m: "buffer_holds lib (cl_buffer (children node ! i)) m"
  obtains n where "take_buffer lib node i = Some (n, m, - int (entries_size (cl_buffer (children node ! i))))" "in_wf lib n"
    "fanout n = fanout node" "pivots (meta_data n) = pivots (meta_data node)" "map cl_ptr (children n) = map cl_ptr (children node)"
    "current_size (meta_data n) = current_size (meta_data node)"
    "\<And>key. in_get lib n key = map_option (\<lambda>(p, msg). (p, if in_idx node key = i then None else msg)) (in_get lib node key)"
proof -
  let ?cs = "children node"
  note D = in_wfD [OF wf]
  obtain u where u: "unpacked lib (cb_buffer (cl_buffer (?cs ! i))) = Some (m, u)"
    using buffer_holds_reads(1) [OF m] by (rule contents_cases)
  have leaf: "\<not> is_leaf (cl_buffer (?cs ! i))" using in_wf_child [OF wf i] by metis
  define b where "b = (cl_buffer (?cs ! i))\<lparr>messages_preference := atomic_invalidate (messages_preference (cl_buffer (?cs ! i))),
    cb_buffer := Unpacked [], entries_size := 0\<rparr>"
  define n where "n = node\<lparr>meta_data := (meta_data node)\<lparr>entries_sizes := (entries_sizes (meta_data node))[i := pcb_size b]\<rparr>,
    children := ?cs[i := (?cs ! i)\<lparr>cl_buffer := b\<rparr>]\<rparr>"
  have take: "take_buffer lib node i = Some (n, m, - int (entries_size (cl_buffer (?cs ! i))))"
    using i u D(3) by (simp add: take_buffer_def pcb_take_def nth_opt_def fanout_def after_insert_size_delta_def vec_set_def n_def b_def)
  have nth: "children n ! j = (if j = i then (?cs ! i)\<lparr>cl_buffer := b\<rparr> else ?cs ! j)" for j
    using i by (simp add: n_def fanout_def nth_list_update)
  have n: "length (children n) = length ?cs" "pivots (meta_data n) = pivots (meta_data node)" "in_idx n key = in_idx node key" for key
    by (simp_all add: n_def in_idx_def)
  have b: "child_buffer_ok lib P b" for P
    using leaf by (simp add: child_buffer_ok_def b_def buffer_holds_def size_exact_def)
  have wf': "in_wf lib n"
  proof (rule in_wfI)
    show "entries_sizes (meta_data n) = map (\<lambda>c. pcb_size (cl_buffer c)) (children n)" by (simp add: n_def D(3) map_update)
  next
    fix j assume "j < length (children n)"
    then show "child_buffer_ok lib (\<lambda>k. pivots_below (pivots (meta_data n)) k = j) (cl_buffer (children n ! j))"
      using D(5) [of j] b by (auto simp: nth n)
  qed (use D n in \<open>simp_all add: n_def\<close>)
  have "in_get lib n key = map_option (\<lambda>(p, msg). (p, if in_idx node key = i then None else msg)) (in_get lib node key)" for key
    using buffer_holds_reads(2) [OF m, of key]
    by (simp add: in_get_child(3) [OF wf] in_get_child(3) [OF wf'] nth n Let_def option.map_comp o_def) (simp add: b_def pcb_get_def)
  moreover have "map cl_ptr (children n) = map cl_ptr ?cs"
    by (rule nth_equalityI) (simp_all add: nth n)
  ultimately show ?thesis using that [OF take wf'] n by (simp add: fanout_def n_def)
qed

lemma sum_list_insert: "sum_list (map f (take i xs @ x # drop i xs)) = sum_list (map f xs) + (f x :: nat)"
proof -
  have "sum_list (map f xs) = sum_list (map f (take i xs)) + sum_list (map f (drop i xs))"
    by (metis append_take_drop_id map_append sum_list_append)
  then show ?thesis by simp
qed

lemma length_insert: "length (take i xs @ x # drop i xs) = length xs + 1"
  by (auto simp: min_def)

subsection \<open>Correctness\<close>

text \<open>
  C25. Splitting a child in its parent: for a pivot that belongs to the child and is not yet a
  pivot of the parent, the parent stays well-formed with one more child. Every key keeps its
  pending message; keys of the child above the new pivot are directed to the new sibling, all
  others to the child they had. The cached size of the metadata misses the new pivot.
\<close>

theorem split_child_routes:
  assumes "in_wf lib node" "i < fanout node" "cb_buffer (cl_buffer (children node ! i)) = Unpacked m"
    "in_idx node pk = i" "pk \<notin> set (pivots (meta_data node))" "size_current node"
  shows "\<exists>node' d. split_child node i np pk select_right = Some (node', (if select_right then i + 1 else i), d)
    \<and> in_wf lib node' \<and> fanout node' = fanout node + 1
    \<and> (\<forall>key. in_get lib node' key =
        map_option (\<lambda>(p, msg). (if in_idx node key = i \<and> pk < key then np else p, msg)) (in_get lib node key))
    \<and> recalc_size (meta_data node') = current_size (meta_data node') + (cow_size pk + 9)"
proof -
  let ?ps = "pivots (meta_data node)"
  obtain node' d where split: "split_child node i np pk select_right = Some (node', (if select_right then i + 1 else i), d)"
    using split_child_parts [OF assms(1-5)] by metis
  note spec = split_child_spec [OF assms(1-5) split]
  have "recalc_size (meta_data node') = recalc_size (meta_data node) + (cow_size pk + 9)"
    unfolding recalc_size_def spec(2) sum_list_insert length_insert by simp
  with assms(6) spec(3) have "recalc_size (meta_data node') = current_size (meta_data node') + (cow_size pk + 9)"
    by (simp add: size_current_def)
  with split spec(1,4,5) show ?thesis by blast
qed

text \<open>
  C26. Merging two neighbouring children in their parent: the parent stays well-formed with one
  child less, its cached size is refreshed, every key keeps its pending message and the keys
  of the right child are directed to the left one.
\<close>

theorem merge_children_routes:
  assumes "in_wf lib node" "i + 1 < fanout node"
  shows "\<exists>node' d. merge_children lib node i = Some (node', pivots (meta_data node) ! i, cl_ptr (children node ! (i + 1)), d)
    \<and> in_wf lib node' \<and> size_current node' \<and> fanout node' = fanout node - 1
    \<and> (\<forall>key. in_get lib node' key =
        map_option (\<lambda>(p, msg). (if in_idx node key = i + 1 then cl_ptr (children node ! i) else p, msg)) (in_get lib node key))"
  using merge_children_spec [OF assms] by metis

text \<open>
  C31. Moving the pivot between two children: every key keeps its pending message and is
  directed by the new pivot. But the maintained size of the right buffer is set to that of
  the left one, so that writing the node panics whenever the two sizes differ.
\<close>

theorem rebalanced_breaks_sizes:
  assumes "in_wf lib node" "i + 1 < fanout node" "sorted_wrt (<) ((pivots (meta_data node))[i := pk])"
    "option_all or_serialize (map cl_ptr (children node)) = Some ptrs"
  shows "\<exists>node' d. rebalanced lib node i pk = Some (node', d)
    \<and> (\<forall>key. in_get lib node' key = map_option (\<lambda>(p, msg). (if in_idx node key = i \<or> in_idx node key = i + 1
        then cl_ptr (children node ! (if key \<le> pk then i else i + 1)) else p, msg)) (in_get lib node key))
    \<and> (pcb_size (cl_buffer (children node' ! i)) = pcb_size (cl_buffer (children node' ! (i + 1))) \<or> in_pack nc lib node' = None)"
proof -
  obtain n d where reb: "rebalanced lib node i pk = Some (n, d)" "fanout n = fanout node"
    "entries_sizes (meta_data n) = (map (\<lambda>c. pcb_size (cl_buffer c)) (children n))[i + 1 := pcb_size (cl_buffer (children n ! i))]"
    "map cl_ptr (children n) = map cl_ptr (children node)"
    "\<And>key. in_get lib n key = map_option (\<lambda>(p, msg). (if in_idx node key = i \<or> in_idx node key = i + 1
       then cl_ptr (children node ! (if key \<le> pk then i else i + 1)) else p, msg)) (in_get lib node key)"
    using rebalanced_spec [OF assms(1-3)] by metis
  have "in_pack nc lib n = None" if "pcb_size (cl_buffer (children n ! i)) \<noteq> pcb_size (cl_buffer (children n ! (i + 1)))"
  proof -
    have i: "i + 1 < length (children n)" using assms(2) reb(2) by (simp add: fanout_def)
    have "\<not> list_all (\<lambda>(size, child). size = pcb_size (cl_buffer child)) (zip (entries_sizes (meta_data n)) (children n))"
      using i that unfolding list_all_length reb(3) by (auto intro!: exI [of _ "i + 1"])
    with assms(4) reb(4) show ?thesis by (simp add: in_pack_def Let_def)
  qed
  with reb(1,5) show ?thesis by blast
qed

text \<open>
  The choice of the buffer to flush: on a well-formed node it never panics. If it picks a
  child, no other child has a larger buffer; it picks none only if the node has enough
  children to be split.
\<close>

theorem flush_candidate_largest:
  assumes "in_wf lib node"
  shows "\<exists>r. try_find_flush_candidate root node min_flush_size max_node_size min_fanout = Some r
    \<and> (case r of None \<Rightarrow> 2 * min_fanout \<le> fanout node
       | Some i \<Rightarrow> i < fanout node \<and> (\<forall>j < fanout node.
           pcb_size (cl_buffer (children node ! j)) \<le> pcb_size (cl_buffer (children node ! i))))"
proof -
  note D = in_wfD [OF assms]
  have "entries_sizes (meta_data node) \<noteq> []" using D(2,3) by auto
  then obtain i where i: "max_entry (entries_sizes (meta_data node)) = Some (i, entries_sizes (meta_data node) ! i)"
    "i < length (entries_sizes (meta_data node))" "\<forall>v \<in> set (entries_sizes (meta_data node)). v \<le> entries_sizes (meta_data node) ! i"
    by (rule max_entry_spec)
  have i': "i < fanout node" "entries_sizes (meta_data node) ! i = pcb_size (cl_buffer (children node ! i))"
    using i(2) D(3) by (simp_all add: fanout_def)
  have "pcb_size (cl_buffer (children node ! j)) \<le> pcb_size (cl_buffer (children node ! i))" if "j < fanout node" for j
    using i(3) that unfolding i'(2) by (simp add: D(3) fanout_def)
  moreover have "pcb_size (cl_buffer (children node ! i)) \<le> in_size node"
    by (rule child_size_le_in_size [OF assms i'(1)])
  ultimately show ?thesis using i(1) i'
    by (auto simp: try_find_flush_candidate_def nth_opt_def checked_sub_def fanout_def not_less split: option.splits)
qed

lemma example_idx: "in_idx (example_node_of ref) [5] = 2" "cb_buffer (cl_buffer (children (example_node_of ref) ! 2)) =
    Unpacked [([5], \<lparr>ki_pref = 1\<rparr>, [0]), ([6], \<lparr>ki_pref = 1\<rparr>, [1, 60])]" "pivots (meta_data (example_node_of ref)) = [[2], [4], [6]]"
  by (simp_all add: example_node_of_def Let_def in_idx_def example_child_buffer_def)

theorem split_child_routes_witness:
  "\<exists>node' d. split_child example_node 2 (Modified \<lparr>moid = 9, mo_pref = NONE\<rparr> (Right [5] 0)) [5] True = Some (node', 3, d)
    \<and> in_wf example_lib node' \<and> fanout node' = 5"
proof -
  have "2 < fanout example_node" "[5] \<notin> set (pivots (meta_data example_node))"
    by (simp_all add: example_node_facts) (simp add: example_node_def example_idx)
  from split_child_routes [OF example_node_facts(1) [of example_lib] this(1) example_idx(2,1) [of "\<lambda>i. Modified \<lparr>moid = i, mo_pref = NONE\<rparr>", folded example_node_def]
      this(2) example_node_of_facts(3) [of "\<lambda>i. Modified \<lparr>moid = i, mo_pref = NONE\<rparr>", folded example_node_def],
      of "Modified \<lparr>moid = 9, mo_pref = NONE\<rparr> (Right [5] 0)" True]
  show ?thesis by (auto simp: example_node_facts)
qed

theorem merge_children_routes_witness:
  "\<exists>node' d np. merge_children example_lib example_node 1 = Some (node', [4], np, d) \<and> in_wf example_lib node' \<and> fanout node' = 3"
proof -
  have "1 + 1 < fanout example_node" "pivots (meta_data example_node) ! 1 = [4]"
    by (simp_all add: example_node_facts) (simp add: example_node_def example_idx)
  with merge_children_routes [OF example_node_facts(1) this(1), of example_lib] show ?thesis by (auto simp: example_node_facts)
qed

theorem rebalanced_breaks_sizes_witness:
  "\<exists>node' d. rebalanced example_lib example_disk_node 1 [5] = Some (node', d)
    \<and> in_pack \<lparr>nc_meta_ser = \<lambda>_. [], nc_meta_de = \<lambda>_. None, nc_links_ser = \<lambda>_. [], nc_links_de = \<lambda>_. None,
           nc_mode_ser = \<lambda>_. [], nc_mode_de = \<lambda>_. None\<rparr> example_lib node' = None"
proof -
  let ?ref = "\<lambda>i. Unmodified (example_pointer i)"
  have *: "1 + 1 < fanout example_disk_node" "sorted_wrt (<) ((pivots (meta_data example_disk_node))[1 := [5]])"
    by (simp_all add: example_disk_node_def example_node_of_facts example_idx)
  have **: "option_all or_serialize (map cl_ptr (children example_disk_node)) = Some (map example_pointer [1, 2, 3, 4])"
    by (simp add: example_disk_node_def example_node_of_def Let_def)
  have "\<exists>node' d. rebalanced example_lib example_disk_node 1 [5] = Some (node', d)
      \<and> pcb_size (cl_buffer (children node' ! 1)) \<noteq> pcb_size (cl_buffer (children node' ! (1 + 1)))"
    by (simp add: example_disk_node_def example_node_of_def Let_def rebalanced_def nth_opt_def vec_set_def pcb_rebalance_def
        pcb_append_def example_child_buffer_def pcb_split_off_def bt_append_def bt_insert_all_def bt_split_off_def checked_sub_def
        pcb_size_def entry_size_def value_size_def cow_size_def)
  then show ?thesis
    using rebalanced_breaks_sizes [OF example_node_of_facts(1) [of example_lib ?ref, folded example_disk_node_def] * **] by fastforce
qed

theorem flush_candidate_largest_witness:
  "\<exists>r. try_find_flush_candidate (\<lambda>n. n) example_node 16 256 2 = Some r
    \<and> (case r of None \<Rightarrow> 4 \<le> fanout example_node | Some i \<Rightarrow> i < 4)"
  using flush_candidate_largest [OF example_node_facts(1), of "\<lambda>n. n" 16 256 2] unfolding example_node_facts(2)
  by (fastforce split: option.splits)

end
