(* ===== verification/InternalLayout.thy ===== *)
theory InternalLayout
  imports InternalNode
begin

text \<open>
  Writing and reading an inner node (\<^verbatim>\<open>CopylessInternalNode::pack\<close> and \<^verbatim>\<open>unpack\<close> in
  \<^verbatim>\<open>betree/src/tree/imp/internal/copyless_internal.rs\<close>): the metadata and the pointers come back
  unchanged, every buffer comes back in packed form at its place behind the checksums, and
  after \<^verbatim>\<open>complete_object_refs\<close> every key finds the same child and the same message.
\<close>

lemma read_modes_concat:
  assumes "node_codec_ok nc md ps" "\<forall>m \<in> set ms. \<exists>c n. m = Internal c n \<and> n < 2 ^ 32" "length pre = cursor"
  shows "read_modes nc (pre @ concat (map (nc_mode_ser nc) ms) @ rest) cursor (length ms) = Some (Some ms)"
  using assms(2,3)
proof (induction ms arbitrary: pre cursor)
  case (Cons m ms)
  obtain c n where m: "m = Internal c n" "n < 2 ^ 32" using Cons.prems(1) by auto
  have ser: "length (nc_mode_ser nc m) = INTERNAL_INTEGRITY_CHECKSUM_SIZE" "nc_mode_de nc (nc_mode_ser nc m) = Some m"
    using assms(1) m by (simp_all add: node_codec_ok_def)
  have IH: "read_modes nc ((pre @ nc_mode_ser nc m) @ concat (map (nc_mode_ser nc) ms) @ rest)
      (cursor + INTERNAL_INTEGRITY_CHECKSUM_SIZE) (length ms) = Some (Some ms)"
    using Cons.prems ser(1) by (intro Cons.IH) auto
  have "cut (pre @ nc_mode_ser nc m @ concat (map (nc_mode_ser nc) ms) @ rest) cursor INTERNAL_INTEGRITY_CHECKSUM_SIZE
      = Some (nc_mode_ser nc m)"
    using Cons.prems(2) ser(1) by (rule cut_append_middle)
  with IH ser(2) show ?case by simp
qed simp

text \<open>A buffer read from a node: a view of the node's bytes that starts with what was packed.\<close>

definition reloaded_as :: "csum_lib \<Rightarrow> packed_child_buffer \<times> entries \<Rightarrow> packed_child_buffer \<Rightarrow> bool" where
  "reloaded_as lib bm b' \<longleftrightarrow> (\<exists>d. b' = reloaded (fst bm) (snd bm) d) \<and> buffer_holds lib b' (snd bm) \<and> packable lib b' (snd bm)"

lemma read_buffers_concat:
  assumes codec: "csum_codec lib" and buf: "sliced_wf buf"
    and bms: "\<forall>(b, m) \<in> set bms. packable lib b m \<and> pcb_size b < 2 ^ 32"
    and bytes: "sliced_bytes buf = pre @ concat (map (\<lambda>(b, m). packed_bytes lib b m) bms) @ pad"
    and sizes: "drop idx sizes = map (\<lambda>(b, m). pcb_size b) bms" and cursor: "length pre = cursor"
  shows "\<exists>bs. read_buffers lib buf sizes cursor idx (map (\<lambda>(b, m). packed_mode lib b m) bms) = Some (Some bs)
    \<and> list_all2 (reloaded_as lib) bms bs"
  using bms bytes sizes cursor
proof (induction bms arbitrary: pre cursor idx)
  case (Cons bm bms)
  obtain b m where bm: "bm = (b, m)" by fastforce
  have b: "packable lib b m" "pcb_size b < 2 ^ 32" using Cons.prems(1) bm by auto
  note pack = pcb_pack_packable [OF codec b]
  let ?rest = "concat (map (\<lambda>(b, m). packed_bytes lib b m) bms) @ pad"
  have len: "length (sliced_bytes buf) = scb_len buf" by (rule length_sliced_bytes [OF buf])
  then have cur: "cursor \<le> scb_len buf" "cursor < 2 ^ 32" using Cons.prems(2,4) buf by (auto simp: sliced_wf_def)
  obtain d where d: "slice_from buf cursor = Some d" "sliced_wf d" "sliced_bytes d = drop cursor (sliced_bytes buf)"
    using slice_from_wf [OF buf cur(1)] by blast
  then have "sliced_bytes d = packed_bytes lib b m @ ?rest" using Cons.prems(2,4) bm by simp
  note un = pcb_unpack_packable [OF codec b d(2) this]
  have sorted: "sorted_keys m" using b(1) by (simp add: packable_def)
  have size: "pcb_size (reloaded b m d) = pcb_size b" by (simp add: reloaded_def pcb_size_def)
  have idx: "nth_opt sizes idx = Some (pcb_size b)" "drop (idx + 1) sizes = map (\<lambda>(b, m). pcb_size b) bms"
  proof -
    have "idx < length sizes" using Cons.prems(3) bm by (metis drop_all list.discI list.simps(9) not_le)
    then have "sizes ! idx # drop (Suc idx) sizes = pcb_size b # map (\<lambda>(b, m). pcb_size b) bms"
      using Cons.prems(3) bm by (simp add: Cons_nth_drop_Suc)
    with \<open>idx < length sizes\<close> show "nth_opt sizes idx = Some (pcb_size b)" "drop (idx + 1) sizes = map (\<lambda>(b, m). pcb_size b) bms"
      by (simp_all add: nth_opt_def)
  qed
  have "\<exists>bs. read_buffers lib buf sizes (cursor + pcb_size b) (idx + 1) (map (\<lambda>(b, m). packed_mode lib b m) bms) = Some (Some bs)
      \<and> list_all2 (reloaded_as lib) bms bs"
    by (rule Cons.IH [where pre = "pre @ packed_bytes lib b m"])
      (use Cons.prems bm pack(2) idx(2) in auto)
  then obtain bs where bs: "read_buffers lib buf sizes (cursor + pcb_size b) (idx + 1) (map (\<lambda>(b, m). packed_mode lib b m) bms) = Some (Some bs)"
    "list_all2 (reloaded_as lib) bms bs" by blast
  have "reloaded_as lib (b, m) (reloaded b m d)"
    using un(3) reloaded_holds [OF un(2) sorted d(2)] by (auto simp: reloaded_as_def)
  with bs d(1) un(1) idx(1) cur(2) size bm show ?case by simp
qed simp

lemma option_all_Some_map: "\<forall>x \<in> set xs. f x = Some (g x) \<Longrightarrow> option_all f xs = Some (map g xs)"
  by (induction xs) auto

lemma option_all_comp: "option_all f (map g xs) = option_all (\<lambda>x. f (g x)) xs"
  by (induction xs) auto

text \<open>What packing writes, as a function of the entries.\<close>

definition node_head :: "node_codec \<Rightarrow> csum_lib \<Rightarrow> internal_node \<Rightarrow> object_pointer list \<Rightarrow> (packed_child_buffer \<times> entries) list \<Rightarrow> bytes" where
  "node_head nc lib node ptrs bms = to_le 4 (length (nc_meta_ser nc (meta_data node))) @ nc_meta_ser nc (meta_data node)
     @ to_le 4 (length (nc_links_ser nc ptrs)) @ nc_links_ser nc ptrs
     @ concat (map (nc_mode_ser nc) (map (\<lambda>(b, m). packed_mode lib b m) bms))"

definition node_storable :: "csum_lib \<Rightarrow> internal_node \<Rightarrow> object_pointer list \<Rightarrow> entries list \<Rightarrow> bool" where
  "node_storable lib node ptrs ms \<longleftrightarrow> option_all or_serialize (map cl_ptr (children node)) = Some ptrs
     \<and> entries_sizes (meta_data node) = map (\<lambda>c. pcb_size (cl_buffer c)) (children node)
     \<and> list_all2 (\<lambda>c m. packable lib (cl_buffer c) m \<and> pcb_size (cl_buffer c) < 2 ^ 32) (children node) ms"

lemma packed_mode_Internal:
  assumes "csum_codec lib" "packable lib b m" "pcb_size b < 2 ^ 32"
  shows "\<exists>c n. packed_mode lib b m = Internal c n \<and> n < 2 ^ 32"
proof -
  let ?tmp = "pack_head lib (is_leaf b) (entries_size b) (system_storage_preference b) m"
  have "length ?tmp \<le> length (packed_bytes lib b m)" by (simp add: packed_bytes_def)
  then have "length ?tmp < 2 ^ 32" using pcb_pack_packable(2) [OF assms] assms(3) by simp
  then show ?thesis by (simp add: packed_mode_def Let_def)
qed

lemma packable_holds:
  assumes "csum_codec lib" "packable lib b m" "pcb_size b < 2 ^ 32"
  shows "buffer_holds lib b m"
proof (cases "cb_buffer b")
  case (Packed n d)
  with assms(2) have d: "sliced_wf d" "take (pcb_size b) (sliced_bytes d) = packed_bytes lib b m" "n = length m" "sorted_keys m"
    by (simp_all add: packable_def)
  have "sliced_bytes d = packed_bytes lib b m @ drop (pcb_size b) (sliced_bytes d)" using d(2) by (metis append_take_drop_id)
  from pcb_unpack_packable(2) [OF assms d(1) this] Packed d show ?thesis by (simp add: buffer_holds_def)
qed (use assms(2) in \<open>simp add: packable_def buffer_holds_def\<close>)

lemma node_storable_bms:
  assumes "node_storable lib node ptrs ms"
  defines "bms \<equiv> zip (map cl_buffer (children node)) ms"
  shows "\<forall>(b, m) \<in> set bms. packable lib b m \<and> pcb_size b < 2 ^ 32" "map fst bms = map cl_buffer (children node)" "map snd bms = ms"
    "map (\<lambda>(b, m). pcb_size b) bms = entries_sizes (meta_data node)" "length ptrs = length bms" "length (children node) = length bms"
proof -
  have st: "list_all2 (\<lambda>c m. packable lib (cl_buffer c) m \<and> pcb_size (cl_buffer c) < 2 ^ 32) (children node) ms"
    "option_all or_serialize (map cl_ptr (children node)) = Some ptrs"
    "entries_sizes (meta_data node) = map (\<lambda>c. pcb_size (cl_buffer c)) (children node)"
    using assms(1) by (simp_all add: node_storable_def)
  have len: "length ms = length (children node)" using list_all2_lengthD [OF st(1)] by simp
  have "length ys = length xs" if "option_all or_serialize xs = Some ys" for xs ys
    using that by (induction xs arbitrary: ys) (auto simp: bind_eq_Some_conv)
  from this [OF st(2)] show "length ptrs = length bms" "length (children node) = length bms"
    using len by (simp_all add: bms_def)
  show "\<forall>(b, m) \<in> set bms. packable lib b m \<and> pcb_size b < 2 ^ 32"
    using st(1) len by (auto simp: bms_def list_all2_conv_all_nth set_zip)
  show fst: "map fst bms = map cl_buffer (children node)" and "map snd bms = ms"
    using len by (simp_all add: bms_def)
  show "map (\<lambda>(b, m). pcb_size b) bms = entries_sizes (meta_data node)"
    using arg_cong [OF fst, of "map pcb_size"] by (simp add: st(3) case_prod_unfold o_def)
qed

lemma in_pack_storable:
  assumes nc: "node_codec_ok nc (meta_data node) ptrs" and codec: "csum_codec lib" and st: "node_storable lib node ptrs ms"
  defines "bms \<equiv> zip (map cl_buffer (children node)) ms"
  defines "tmp \<equiv> node_head nc lib node ptrs bms"
  shows "in_pack nc lib node = Some (Some (tmp @ concat (map (\<lambda>(b, m). packed_bytes lib b m) bms), Internal (cl_hash lib tmp) (length tmp mod 2 ^ 32)))"
proof -
  note B = node_storable_bms [OF st, folded bms_def]
  have "option_all (pcb_pack lib) (map fst bms) = option_all (\<lambda>(b, m). pcb_pack lib b) bms"
    by (simp add: option_all_comp case_prod_unfold)
  also have "\<dots> = Some (map (\<lambda>(b, m). (packed_bytes lib b m, packed_mode lib b m)) bms)"
    using B(1) pcb_pack_packable(1) [OF codec] by (intro option_all_Some_map) auto
  also have "option_all (pcb_pack lib) (map fst bms) = option_all (\<lambda>child. pcb_pack lib (cl_buffer child)) (children node)"
    unfolding B(2) by (rule option_all_comp)
  finally have pack: "option_all (\<lambda>child. pcb_pack lib (cl_buffer child)) (children node)
      = Some (map (\<lambda>(b, m). (packed_bytes lib b m, packed_mode lib b m)) bms)" .
  have "length (nc_mode_ser nc (packed_mode lib b m)) = INTERNAL_INTEGRITY_CHECKSUM_SIZE" if "(b, m) \<in> set bms" for b m
  proof -
    have "packable lib b m" "pcb_size b < 2 ^ 32" using B(1) that by auto
    then obtain c n where "packed_mode lib b m = Internal c n" "n < 2 ^ 32" using packed_mode_Internal [OF codec] by blast
    then show ?thesis using nc by (simp add: node_codec_ok_def)
  qed
  then have modes: "list_all (\<lambda>(_, integrity). length (nc_mode_ser nc integrity) = INTERNAL_INTEGRITY_CHECKSUM_SIZE)
      (map (\<lambda>(b, m). (packed_bytes lib b m, packed_mode lib b m)) bms)"
    by (auto simp: list_all_iff)
  have sizes: "list_all (\<lambda>(size, child). size = pcb_size (cl_buffer child)) (zip (entries_sizes (meta_data node)) (children node))"
    using st by (auto simp: node_storable_def list_all_iff set_zip)
  have "option_all or_serialize (map cl_ptr (children node)) = Some ptrs" using st by (simp add: node_storable_def)
  with pack modes sizes show ?thesis
    by (simp add: in_pack_def Let_def tmp_def node_head_def case_prod_unfold o_def)
qed

lemma length_modes:
  assumes nc: "node_codec_ok nc md ps" and "\<forall>m \<in> set ms. \<exists>c n. m = Internal c n \<and> n < 2 ^ 32"
  shows "length (concat (map (nc_mode_ser nc) ms)) = length ms * INTERNAL_INTEGRITY_CHECKSUM_SIZE"
  using assms(2)
proof (induction ms)
  case (Cons m ms)
  then obtain c n where "m = Internal c n" "n < 2 ^ 32" by auto
  then have "length (nc_mode_ser nc m) = INTERNAL_INTEGRITY_CHECKSUM_SIZE" using nc by (simp add: node_codec_ok_def)
  with Cons show ?case by simp
qed simp

lemma in_unpack_storable:
  assumes nc: "node_codec_ok nc (meta_data node) ptrs" and codec: "csum_codec lib" and st: "node_storable lib node ptrs ms"
    and buf: "sliced_wf buf" "sliced_bytes buf = prefix @ out @ pad" "length prefix = 4"
    and pack: "in_pack nc lib node = Some (Some (out, mode))"
  shows "\<exists>bs. in_unpack nc lib buf mode = Some (Some \<lparr>meta_data = meta_data node,
      children = map2 (\<lambda>p b. \<lparr>cl_buffer = b, cl_ptr = or_deserialize p\<rparr>) ptrs bs\<rparr>)
    \<and> list_all2 (reloaded_as lib) (zip (map cl_buffer (children node)) ms) bs"
proof -
  define bms where "bms = zip (map cl_buffer (children node)) ms"
  define tmp where "tmp = node_head nc lib node ptrs bms"
  define modes where "modes = map (\<lambda>(b, m). packed_mode lib b m) bms"
  define bufs where "bufs = concat (map (\<lambda>(b, m). packed_bytes lib b m) bms)"
  let ?M = "nc_meta_ser nc (meta_data node)" and ?L = "nc_links_ser nc ptrs" and ?C = "concat (map (nc_mode_ser nc) modes)"
  note B = node_storable_bms [OF st, folded bms_def]
  have out: "out = tmp @ bufs" "mode = Internal (cl_hash lib tmp) (length tmp mod 2 ^ 32)"
    using in_pack_storable [OF nc codec st] pack by (simp_all add: bms_def tmp_def bufs_def)
  have tmp: "tmp = to_le 4 (length ?M) @ ?M @ to_le 4 (length ?L) @ ?L @ ?C"
    by (simp add: tmp_def node_head_def modes_def)
  have data: "sliced_bytes buf = prefix @ tmp @ bufs @ pad" by (simp add: buf(2) out(1))
  have small: "length (sliced_bytes buf) < 2 ^ 32" using length_sliced_bytes [OF buf(1)] buf(1) by (simp add: sliced_wf_def)
  then have small': "length tmp < 2 ^ 32" "length ?M < 256 ^ 4" "length ?L < 256 ^ 4" by (simp_all add: data tmp)
  have lens: "length modes = length ptrs" by (simp add: modes_def B(5))
  have modes: "\<forall>m \<in> set modes. \<exists>c n. m = Internal c n \<and> n < 2 ^ 32"
    using B(1) packed_mode_Internal [OF codec] by (fastforce simp: modes_def)
  have cuts: "cut (sliced_bytes buf) 4 (length tmp) = Some tmp" "cut (sliced_bytes buf) 4 4 = Some (to_le 4 (length ?M))"
    "cut (sliced_bytes buf) 8 (length ?M) = Some ?M" "cut (sliced_bytes buf) (8 + length ?M) 4 = Some (to_le 4 (length ?L))"
    "cut (sliced_bytes buf) (12 + length ?M) (length ?L) = Some ?L"
    unfolding data tmp using buf(3) by (simp_all add: cut_def)
  have read: "read_modes nc (sliced_bytes buf) (12 + length ?M + length ?L) (length ptrs) = Some (Some modes)"
    using read_modes_concat [OF nc modes, of "prefix @ to_le 4 (length ?M) @ ?M @ to_le 4 (length ?L) @ ?L" "12 + length ?M + length ?L" "bufs @ pad"] buf(3)
    by (simp add: data tmp lens)
  have sizes: "drop 0 (entries_sizes (meta_data node)) = map (\<lambda>(b, m). pcb_size b) bms" using B(4) by simp
  have "\<exists>bs. read_buffers lib buf (entries_sizes (meta_data node)) (12 + length ?M + length ?L + length ptrs * INTERNAL_INTEGRITY_CHECKSUM_SIZE) 0 modes
      = Some (Some bs) \<and> list_all2 (reloaded_as lib) bms bs"
    unfolding modes_def
    by (rule read_buffers_concat [OF codec buf(1) B(1) _ sizes, where pre = "prefix @ tmp" and pad = pad])
      (use buf(3) length_modes [OF nc modes] lens in \<open>simp_all add: data bufs_def, simp add: tmp modes_def\<close>)
  then obtain bs where bs: "read_buffers lib buf (entries_sizes (meta_data node)) (12 + length ?M + length ?L + length ptrs * INTERNAL_INTEGRITY_CHECKSUM_SIZE) 0 modes
      = Some (Some bs)" "list_all2 (reloaded_as lib) bms bs" by blast
  have "in_unpack nc lib buf mode = Some (Some \<lparr>meta_data = meta_data node,
      children = map2 (\<lambda>p b. \<lparr>cl_buffer = b, cl_ptr = or_deserialize p\<rparr>) ptrs bs\<rparr>)"
    using nc cuts read bs(1) small'
    by (simp add: in_unpack_def sliced_deref_wf [OF buf(1)] out(2) csum_verify_self from_le_to_le node_codec_ok_def)
  with bs(2) show ?thesis by (auto simp: bms_def)
qed

subsection \<open>Reading a node back\<close>

text \<open>The index of each child: the first is left of the first pivot, the others right of one.\<close>

fun child_labels :: "dataset_id \<Rightarrow> bytes list \<Rightarrow> pivot_key list" where
  "child_labels d_id [] = []"
| "child_labels d_id (p # ps) = LeftOuter p d_id # map (\<lambda>p. Right p d_id) (p # ps)"

definition labelled :: "dataset_id \<Rightarrow> internal_node \<Rightarrow> bool" where
  "labelled d_id node \<longleftrightarrow> map (\<lambda>c. or_index (cl_ptr c)) (children node) = map Some (child_labels d_id (pivots (meta_data node)))"

definition node_len :: "node_codec \<Rightarrow> internal_node \<Rightarrow> object_pointer list \<Rightarrow> nat" where
  "node_len nc node ptrs = 4 + length (nc_meta_ser nc (meta_data node)) + 4 + length (nc_links_ser nc ptrs)
     + fanout node * INTERNAL_INTEGRITY_CHECKSUM_SIZE + sum_list (entries_sizes (meta_data node))"

lemma complete_object_refs_eq:
  assumes "length (children node) = length (pivots (meta_data node)) + 1" "pivots (meta_data node) \<noteq> []"
  shows "complete_object_refs node d_id = Some (node\<lparr>children :=
    map2 (\<lambda>c pk. c\<lparr>cl_ptr := set_index (cl_ptr c) pk\<rparr>) (children node) (child_labels d_id (pivots (meta_data node)))\<rparr>)"
  using assms by (cases "pivots (meta_data node)") (simp_all add: complete_object_refs_def Let_def)

lemma length_child_labels: "ps \<noteq> [] \<Longrightarrow> length (child_labels d_id ps) = length ps + 1"
  by (cases ps) auto

lemma option_all_nth: "option_all f xs = Some ys \<Longrightarrow> i < length xs \<Longrightarrow> length ys = length xs \<and> f (xs ! i) = Some (ys ! i)"
proof (induction xs arbitrary: ys i)
  case (Cons x xs)
  then show ?case
  proof (cases i)
    case 0
    have "length zs = length xs" if "option_all f xs = Some zs" for zs
      using that by (induction xs arbitrary: zs) (auto simp: bind_eq_Some_conv)
    with 0 Cons.prems show ?thesis by (auto simp: bind_eq_Some_conv)
  qed (use Cons in \<open>auto simp: bind_eq_Some_conv\<close>)
qed simp

lemma length_node_out:
  assumes nc: "node_codec_ok nc (meta_data node) ptrs" and codec: "csum_codec lib" and st: "node_storable lib node ptrs ms"
    and pack: "in_pack nc lib node = Some (Some (out, mode))"
  shows "length out = node_len nc node ptrs"
proof -
  define bms where "bms = zip (map cl_buffer (children node)) ms"
  note B = node_storable_bms [OF st, folded bms_def]
  let ?modes = "map (\<lambda>(b, m). packed_mode lib b m) bms"
  have "\<forall>m \<in> set ?modes. \<exists>c n. m = Internal c n \<and> n < 2 ^ 32"
    using B(1) packed_mode_Internal [OF codec] by fastforce
  from length_modes [OF nc this]
  have "length (concat (map (nc_mode_ser nc) ?modes)) = fanout node * INTERNAL_INTEGRITY_CHECKSUM_SIZE"
    unfolding length_map fanout_def B(6) .
  moreover have "length (concat (map (\<lambda>(b, m). packed_bytes lib b m) bms)) = sum_list (map (\<lambda>(b, m). pcb_size b) bms)"
    using B(1) pcb_pack_packable(2) [OF codec] by (induction bms) auto
  ultimately show ?thesis
    using in_pack_storable [OF nc codec st] pack B(4) by (auto simp: node_len_def node_head_def bms_def)
qed

text \<open>
  A well-formed node whose children are on disk and whose buffers are in memory or still packed
  is written without a panic in the length its sizes say. Reading these bytes after any
  four-byte tag and before any padding, and setting the indices of the references, gives a
  node with the same metadata, references and messages, which can be written again.
\<close>

definition same_buffer :: "csum_lib \<Rightarrow> packed_child_buffer \<Rightarrow> packed_child_buffer \<Rightarrow> bool" where
  "same_buffer lib b b' \<longleftrightarrow> is_leaf b' = is_leaf b \<and> entries_size b' = entries_size b
     \<and> system_storage_preference b' = system_storage_preference b \<and> (\<exists>m. buffer_holds lib b m \<and> buffer_holds lib b' m)"

definition same_inner :: "csum_lib \<Rightarrow> internal_node \<Rightarrow> internal_node \<Rightarrow> bool" where
  "same_inner lib n n' \<longleftrightarrow> meta_data n' = meta_data n
     \<and> list_all2 (\<lambda>c c'. cl_ptr c' = cl_ptr c \<and> same_buffer lib (cl_buffer c) (cl_buffer c')) (children n) (children n')"

lemma in_pack_unpack:
  assumes nc: "node_codec_ok nc (meta_data node) ptrs" and codec: "csum_codec lib" and wf: "in_wf lib node"
    and st: "node_storable lib node ptrs ms" and labels: "labelled d_id node" "pivots (meta_data node) \<noteq> []"
    and small: "length tag = 4" "node_len nc node ptrs + 4 + length pad < 2 ^ 32"
  shows "\<exists>out mode node' node''. in_pack nc lib node = Some (Some (out, mode)) \<and> length out = node_len nc node ptrs
    \<and> in_unpack nc lib (sliced_of_cow (tag @ out @ pad)) mode = Some (Some node')
    \<and> complete_object_refs node' d_id = Some node'' \<and> same_inner lib node node'' \<and> node_storable lib node'' ptrs ms"
proof -
  let ?ps = "pivots (meta_data node)" and ?cs = "children node"
  define bms where "bms = zip (map cl_buffer ?cs) ms"
  note D = in_wfD [OF wf] and B = node_storable_bms [OF st, folded bms_def]
  obtain out mode where pack: "in_pack nc lib node = Some (Some (out, mode))"
    using in_pack_storable [OF nc codec st] by blast
  have len: "length out = node_len nc node ptrs" by (rule length_node_out [OF nc codec st pack])
  then have "length (tag @ out @ pad) < 2 ^ 32" using small by simp
  then have "sliced_wf (sliced_of_cow (tag @ out @ pad))" "sliced_bytes (sliced_of_cow (tag @ out @ pad)) = tag @ out @ pad"
    by (rule sliced_of_cow_wf, rule sliced_of_cow_bytes)
  from in_unpack_storable [OF nc codec st this small(1) pack]
  obtain bs where bs: "in_unpack nc lib (sliced_of_cow (tag @ out @ pad)) mode = Some (Some \<lparr>meta_data = meta_data node,
      children = map2 (\<lambda>p b. \<lparr>cl_buffer = b, cl_ptr = or_deserialize p\<rparr>) ptrs bs\<rparr>)" "list_all2 (reloaded_as lib) bms bs"
    unfolding bms_def by blast
  have lens: "length bs = length ?cs" "length ptrs = length ?cs" "length (child_labels d_id ?ps) = length ?cs" "length bms = length ?cs"
    using list_all2_lengthD [OF bs(2)] B(5,6) D(2) length_child_labels [OF labels(2)] by simp_all
  let ?n' = "\<lparr>meta_data = meta_data node, children = map2 (\<lambda>p b. \<lparr>cl_buffer = b, cl_ptr = or_deserialize p\<rparr>) ptrs bs\<rparr>"
  define n where "n = ?n'\<lparr>children := map2 (\<lambda>c pk. c\<lparr>cl_ptr := set_index (cl_ptr c) pk\<rparr>) (children ?n') (child_labels d_id ?ps)\<rparr>"
  have complete: "complete_object_refs ?n' d_id = Some n"
    using complete_object_refs_eq [of ?n' d_id] lens D(2) labels(2) by (simp add: n_def)
  have n: "meta_data n = meta_data node" "length (children n) = length ?cs" using lens by (simp_all add: n_def)
  have ptr: "cl_ptr (children n ! i) = cl_ptr (?cs ! i)" if "i < length ?cs" for i
  proof -
    have "or_serialize (cl_ptr (?cs ! i)) = Some (ptrs ! i)"
      using option_all_nth [of or_serialize "map cl_ptr ?cs" ptrs i] st that by (simp add: node_storable_def)
    moreover have "or_index (cl_ptr (?cs ! i)) = Some (child_labels d_id ?ps ! i)"
      using arg_cong [OF labels(1) [unfolded labelled_def], of "\<lambda>xs. xs ! i"] that lens by simp
    ultimately show ?thesis using that lens by (simp add: n_def or_serialize_roundtrip)
  qed
  have buf: "buffer_holds lib (cl_buffer (children n ! i)) m \<and> (\<exists>d. cl_buffer (children n ! i) = reloaded (cl_buffer (?cs ! i)) m d)"
    if "i < length ?cs" "buffer_holds lib (cl_buffer (?cs ! i)) m" for i m
  proof -
    have pk: "packable lib (cl_buffer (?cs ! i)) (ms ! i)" "pcb_size (cl_buffer (?cs ! i)) < 2 ^ 32"
      using st that(1) by (simp_all add: node_storable_def list_all2_conv_all_nth)
    have "ms ! i = m"
      using buffer_holds_reads(1) [OF packable_holds [OF codec pk]] buffer_holds_reads(1) [OF that(2)] by simp
    moreover have "reloaded_as lib (bms ! i) (bs ! i)" using list_all2_nthD [OF bs(2), of i] that(1) lens by simp
    moreover have "cl_buffer (children n ! i) = bs ! i" using that(1) lens by (simp add: n_def)
    moreover have "bms ! i = (cl_buffer (?cs ! i), ms ! i)" using that(1) lens by (simp add: bms_def)
    ultimately show ?thesis by (simp add: reloaded_as_def)
  qed
  have same: "same_buffer lib (cl_buffer (?cs ! i)) (cl_buffer (children n ! i))" if i: "i < length ?cs" for i
  proof -
    obtain m where m: "buffer_holds lib (cl_buffer (?cs ! i)) m" using D(5) [OF i] by (auto simp: child_buffer_ok_def)
    from buf [OF i m] m show ?thesis by (auto simp: same_buffer_def reloaded_def)
  qed
  then have "same_inner lib node n" using n ptr by (simp add: same_inner_def list_all2_conv_all_nth)
  moreover have "node_storable lib n ptrs ms" unfolding node_storable_def
  proof (intro conjI)
    have ptrs: "map cl_ptr (children n) = map cl_ptr ?cs" by (rule nth_equalityI) (simp_all add: n(2) ptr)
    show "option_all or_serialize (map cl_ptr (children n)) = Some ptrs" unfolding ptrs using st by (simp add: node_storable_def)
    show "entries_sizes (meta_data n) = map (\<lambda>c. pcb_size (cl_buffer c)) (children n)"
      unfolding n(1) D(3) by (rule nth_equalityI) (use same in \<open>simp_all add: n(2) same_buffer_def pcb_size_def\<close>)
    show "list_all2 (\<lambda>c m. packable lib (cl_buffer c) m \<and> pcb_size (cl_buffer c) < 2 ^ 32) (children n) ms"
    proof (rule list_all2_all_nthI)
      show len: "length (children n) = length ms" using B(3) lens n(2) by auto
      fix i assume "i < length (children n)"
      then have i: "i < length ?cs" by (simp add: n(2))
      have "reloaded_as lib (bms ! i) (bs ! i)" using list_all2_nthD [OF bs(2), of i] i lens by simp
      moreover have "cl_buffer (children n ! i) = bs ! i" using i lens by (simp add: n_def)
      moreover have "bms ! i = (cl_buffer (?cs ! i), ms ! i)" using i lens len n(2) by (simp add: bms_def)
      moreover have "pcb_size (cl_buffer (?cs ! i)) < 2 ^ 32" using st i by (simp add: node_storable_def list_all2_conv_all_nth)
      ultimately show "packable lib (cl_buffer (children n ! i)) (ms ! i) \<and> pcb_size (cl_buffer (children n ! i)) < 2 ^ 32"
        using same [OF i] by (simp add: reloaded_as_def same_buffer_def pcb_size_def)
    qed
  qed
  ultimately show ?thesis using pack len bs(1) complete by blast
qed

definition example_mode_ser :: "integrity_mode \<Rightarrow> bytes" where
  "example_mode_ser m = (case m of External \<Rightarrow> [0, 0, 0, 0] | Internal c n \<Rightarrow> [1, 0, 0, 0] @ to_le 8 (unat c) @ to_le 4 n)"

definition example_mode_de :: "bytes \<Rightarrow> integrity_mode option" where
  "example_mode_de bs = (if length bs = 16 then Some (Internal (word_of_nat (from_le (take 8 (drop 4 bs)))) (from_le (drop 12 bs))) else None)"

definition example_codec :: node_codec where
  "example_codec = \<lparr>nc_meta_ser = \<lambda>_. [7], nc_meta_de = \<lambda>bs. if bs = [7] then Some (meta_data example_disk_node) else None,
     nc_links_ser = \<lambda>_. [8], nc_links_de = \<lambda>bs. if bs = [8] then Some (map example_pointer [1, 2, 3, 4]) else None,
     nc_mode_ser = example_mode_ser, nc_mode_de = example_mode_de\<rparr>"

lemma example_codec_ok: "node_codec_ok example_codec (meta_data example_disk_node) (map example_pointer [1, 2, 3, 4])"
proof -
  have "example_mode_de (example_mode_ser (Internal c n)) = Some (Internal c n)" if "n < 2 ^ 32" for c n
  proof -
    have "unat c < 256 ^ 8" using unsigned_less [of c, where ?'a = nat] by simp
    with that show ?thesis by (simp add: example_mode_de_def example_mode_ser_def from_le_to_le)
  qed
  moreover have "length (example_mode_ser (Internal c n)) = INTERNAL_INTEGRITY_CHECKSUM_SIZE" for c n
    by (simp add: example_mode_ser_def INTERNAL_INTEGRITY_CHECKSUM_SIZE_def)
  ultimately show ?thesis by (simp add: node_codec_ok_def example_codec_def)
qed

definition example_messages :: "entries list" where
  "example_messages = [[([1], \<lparr>ki_pref = 1\<rparr>, [1, 10])], [], [([5], \<lparr>ki_pref = 1\<rparr>, [0]), ([6], \<lparr>ki_pref = 1\<rparr>, [1, 60])], []]"

lemma example_node_storable: "node_storable lib example_disk_node (map example_pointer [1, 2, 3, 4]) example_messages"
proof -
  have "storable (example_child_buffer m) m \<and> pcb_size (example_child_buffer m) < 2 ^ 32" if "m \<in> set example_messages" for m
    using that by (auto simp: example_messages_def storable_def example_child_buffer_def size_exact_def prefs_valid_def valid_pref_def
        pcb_new_def system_from_def NONE_def pcb_size_def HEADER_def entry_size_def cow_size_def value_size_def key_info_size_def CSUM_SIZE_def)
  then have "packable lib (example_child_buffer m) m \<and> pcb_size (example_child_buffer m) < 2 ^ 32" if "m \<in> set example_messages" for m
    using that storable_packable by blast
  then show ?thesis
    by (simp add: node_storable_def example_disk_node_def example_node_of_def Let_def example_messages_def)
qed

end
