(* ===== verification/Node.thy ===== *)
theory Node
  imports TakeChild InternalLayout
begin

text \<open>
  \<^verbatim>\<open>betree/src/tree/imp/node.rs\<close>: the wrapper that is either a leaf or an inner node, the sizes a
  node may have on each kind of storage (\<^verbatim>\<open>StorageMap\<close>), and every operation of a node. A call of
  \<^verbatim>\<open>correct_preference\<close> may cache the recomputed preference and therefore returns the node.
  \<open>None\<close> is a panic, an inner \<open>None\<close> of \<open>node_pack\<close> and \<open>node_unpack_at\<close> an I/O error.
\<close>

subsection \<open>Storage kinds and the storage map\<close>

datatype storage_kind = Hdd | Memory | Ssd

record storage_map =
  sm_map :: "storage_kind list"
  sm_default :: storage_kind

definition storage_map_get :: "storage_map \<Rightarrow> storage_preference \<Rightarrow> storage_kind" where
  "storage_map_get sm pref = (case nth_opt (sm_map sm) (unat pref) of Some k \<Rightarrow> k | None \<Rightarrow> sm_default sm)"

definition MIN_FLUSH_RATIO :: nat where "MIN_FLUSH_RATIO = 16"
definition kib :: "nat \<Rightarrow> nat" where "kib n = n * 1024"
definition mib :: "nat \<Rightarrow> nat" where "mib n = n * 1024 * 1024"

subsection \<open>The node\<close>

datatype node = MemLeaf packed_child_buffer | CopylessInternal internal_node

fun node_current_preference :: "node \<Rightarrow> storage_preference option option" where
  "node_current_preference (MemLeaf b) = pcb_current_preference b"
| "node_current_preference (CopylessInternal n) = in_current_preference n"

fun node_recalculate :: "node \<Rightarrow> (storage_preference \<times> node) option" where
  "node_recalculate (MemLeaf b) = map_option (map_prod id MemLeaf) (pcb_recalculate b)"
| "node_recalculate (CopylessInternal n) = Some (map_prod id CopylessInternal (in_recalculate n))"

definition node_correct_preference :: "node \<Rightarrow> (storage_preference \<times> node) option" where
  "node_correct_preference node = do {
     cur \<leftarrow> node_current_preference node;
     case cur of Some pref \<Rightarrow> Some (pref, node) | None \<Rightarrow> node_recalculate node }"

fun node_system_storage_preference :: "node \<Rightarrow> storage_preference" where
  "node_system_storage_preference (MemLeaf b) = system_storage_preference b"
| "node_system_storage_preference (CopylessInternal n) = im_system_pref (meta_data n)"

fun node_size :: "node \<Rightarrow> nat" where
  "node_size (MemLeaf b) = 4 + pcb_size b"
| "node_size (CopylessInternal n) = 4 + in_size n"

fun node_cache_size :: "node \<Rightarrow> nat" where
  "node_cache_size (MemLeaf b) = pcb_cache_size b"
| "node_cache_size (CopylessInternal n) = in_cache_size n"

fun inner_size :: "node \<Rightarrow> nat" where
  "inner_size (MemLeaf b) = pcb_size b"
| "inner_size (CopylessInternal n) = in_size n"

fun node_is_leaf :: "node \<Rightarrow> bool" where
  "node_is_leaf (MemLeaf _) = True"
| "node_is_leaf (CopylessInternal _) = False"

fun node_level :: "node \<Rightarrow> nat" where
  "node_level (MemLeaf _) = 0"
| "node_level (CopylessInternal n) = im_level (meta_data n)"

fun node_fanout :: "node \<Rightarrow> nat option" where
  "node_fanout (MemLeaf _) = None"
| "node_fanout (CopylessInternal n) = Some (fanout n)"

fun has_too_low_fanout :: "node \<Rightarrow> bool" where
  "has_too_low_fanout (MemLeaf _) = False"
| "has_too_low_fanout (CopylessInternal n) = (fanout n < MIN_FANOUT)"

fun node_has_too_high_fanout :: "(nat \<Rightarrow> nat) \<Rightarrow> node \<Rightarrow> nat \<Rightarrow> bool" where
  "node_has_too_high_fanout root (CopylessInternal n) max_size = has_too_high_fanout root n max_size"
| "node_has_too_high_fanout root (MemLeaf _) max_size = False"

fun root_needs_merge :: "node \<Rightarrow> bool" where
  "root_needs_merge (MemLeaf _) = False"
| "root_needs_merge (CopylessInternal n) = (fanout n = 1)"

definition empty_leaf :: node where
  "empty_leaf = MemLeaf (pcb_new True)"

definition node_take :: "node \<Rightarrow> node \<times> node" where
  "node_take node = (node, empty_leaf)"

fun ensure_unpacked :: "csum_lib \<Rightarrow> node \<Rightarrow> (node \<times> int) option" where
  "ensure_unpacked lib (MemLeaf b) = do {
     (b', _) \<leftarrow> pcb_unpack_data lib b;
     Some (MemLeaf b', int (pcb_cache_size b') - int (pcb_cache_size b)) }"
| "ensure_unpacked lib (CopylessInternal n) = Some (CopylessInternal n, 0)"

definition node_set_system_storage_preference :: "csum_lib \<Rightarrow> node \<Rightarrow> storage_preference \<Rightarrow> node option" where
  "node_set_system_storage_preference lib node pref = do {
     (node', _) \<leftarrow> ensure_unpacked lib node;
     Some (case node' of
         MemLeaf b \<Rightarrow> MemLeaf (b\<lparr>system_storage_preference := pref\<rparr>)
       | CopylessInternal n \<Rightarrow> CopylessInternal (n\<lparr>meta_data := (meta_data n)\<lparr>im_system_pref := pref\<rparr>\<rparr>)) }"

subsection \<open>Sizes that are allowed\<close>

definition min_size :: "storage_map \<Rightarrow> node \<Rightarrow> (nat option \<times> node) option" where
  "min_size sm node = do {
     (pref, node') \<leftarrow> node_correct_preference node;
     Some (if node_is_leaf node
           then Some (case storage_map_get sm pref of Hdd \<Rightarrow> mib 1 | Ssd \<Rightarrow> kib 512 | Memory \<Rightarrow> kib 128)
           else None, node') }"

definition max_size :: "storage_map \<Rightarrow> node \<Rightarrow> (nat option \<times> node) option" where
  "max_size sm node = do {
     (pref, node') \<leftarrow> node_correct_preference node;
     Some (Some (case storage_map_get sm pref of Hdd \<Rightarrow> mib 4 | Ssd \<Rightarrow> mib 2 | Memory \<Rightarrow> kib 512), node') }"

definition node_is_too_large :: "(nat \<Rightarrow> nat) \<Rightarrow> storage_map \<Rightarrow> node \<Rightarrow> (bool \<times> node) option" where
  "node_is_too_large root sm node = do {
     (mx, node') \<leftarrow> max_size sm node;
     Some (case mx of None \<Rightarrow> False
       | Some n \<Rightarrow> inner_size node' > n \<or> node_has_too_high_fanout root node' n, node') }"

definition leaf_is_too_large :: "(nat \<Rightarrow> nat) \<Rightarrow> storage_map \<Rightarrow> node \<Rightarrow> (bool \<times> node) option" where
  "leaf_is_too_large root sm node =
     (if node_is_leaf node then node_is_too_large root sm node else Some (False, node))"

definition leaf_is_too_small :: "storage_map \<Rightarrow> node \<Rightarrow> (bool \<times> node) option" where
  "leaf_is_too_small sm node =
     (if node_is_leaf node then do {
        (mn, node') \<leftarrow> min_size sm node;
        Some (case mn of None \<Rightarrow> False | Some n \<Rightarrow> inner_size node' < n, node') }
      else Some (False, node))"

subsection \<open>Serialisation\<close>

definition COPYLESS_LEAF :: nat where "COPYLESS_LEAF = 1"
definition COPYLESS_INTERNAL :: nat where "COPYLESS_INTERNAL = 2"
definition NODE_PREFIX_LEN :: nat where "NODE_PREFIX_LEN = 4"

text \<open>The tag is written in big-endian order.\<close>

definition node_tag :: "nat \<Rightarrow> bytes" where
  "node_tag n = rev (to_le NODE_PREFIX_LEN n)"

fun node_pack :: "node_codec \<Rightarrow> csum_lib \<Rightarrow> node \<Rightarrow> (bytes \<times> integrity_mode) option option" where
  "node_pack nc lib (MemLeaf b) = do {
     (out, mode) \<leftarrow> pcb_pack lib b;
     Some (Some (node_tag COPYLESS_LEAF @ out, mode)) }"
| "node_pack nc lib (CopylessInternal n) = do {
     r \<leftarrow> in_pack nc lib n;
     Some (map_option (\<lambda>(out, mode). (node_tag COPYLESS_INTERNAL @ out, mode)) r) }"

text \<open>\<open>data\<close> is the buffer as a slice of itself.\<close>

definition node_unpack_at ::
  "node_codec \<Rightarrow> csum_lib \<Rightarrow> dataset_id \<Rightarrow> bytes \<Rightarrow> integrity_mode \<Rightarrow> node option option" where
  "node_unpack_at nc lib d_id data mode = do {
     tag \<leftarrow> cut data 0 NODE_PREFIX_LEN;
     if tag = node_tag COPYLESS_INTERNAL then do {
       r \<leftarrow> in_unpack nc lib (sliced_of_cow data) mode;
       case r of
         None \<Rightarrow> Some None
       | Some n \<Rightarrow> do { n' \<leftarrow> complete_object_refs n d_id; Some (Some (CopylessInternal n')) } }
     else if tag = node_tag COPYLESS_LEAF then do {
       d \<leftarrow> slice_from (sliced_of_cow data) 4;
       r \<leftarrow> pcb_unpack lib d mode;
       Some (map_option MemLeaf r) }
     else None }"

subsection \<open>Access\<close>

datatype get_result = GData "(key_info \<times> bytes) option" | GNextNode obj_ref

text \<open>The messages of the inner nodes on the path are pushed to \<open>msgs\<close>.\<close>

fun node_get ::
  "csum_lib \<Rightarrow> node \<Rightarrow> bytes \<Rightarrow> (key_info \<times> bytes) list \<Rightarrow> (get_result \<times> (key_info \<times> bytes) list) option" where
  "node_get lib (MemLeaf b) key msgs = do { r \<leftarrow> pcb_get lib b key; Some (GData r, msgs) }"
| "node_get lib (CopylessInternal n) key msgs = do {
     (child_np, msg) \<leftarrow> in_get lib n key;
     Some (GNextNode child_np, case msg of Some m \<Rightarrow> msgs @ [m] | None \<Rightarrow> msgs) }"

type_synonym msg_map = "(bytes, (key_info \<times> bytes) list) btree_map"

definition push_msg :: "entry \<Rightarrow> msg_map \<Rightarrow> msg_map" where
  "push_msg e all_msgs = bt_insert (fst e)
     ((case bt_get all_msgs (fst e) of Some ms \<Rightarrow> ms | None \<Rightarrow> []) @ [snd e]) all_msgs"

datatype get_range_result = RData "entry list" | RNextNode obj_ref

text \<open>The prefetch option is disabled in the source (\<^verbatim>\<open>level() == 1 && false\<close>) and left out.\<close>

fun node_get_range ::
  "node \<Rightarrow> bytes \<Rightarrow> bytes option \<Rightarrow> bytes option \<Rightarrow> msg_map
    \<Rightarrow> (get_range_result \<times> bytes option \<times> bytes option \<times> msg_map) option" where
  "node_get_range (MemLeaf b) key left right all_msgs = do {
     es \<leftarrow> get_all_messages b; Some (RData es, left, right, all_msgs) }"
| "node_get_range (CopylessInternal n) key left right all_msgs = do {
     (c, left', right') \<leftarrow> in_get_range n key left right;
     es \<leftarrow> get_all_messages (cl_buffer c);
     Some (RNextNode (cl_ptr c), left', right', fold push_msg es all_msgs) }"

fun node_pivot_get :: "node \<Rightarrow> pivot_key \<Rightarrow> pivot_get_result option option" where
  "node_pivot_get node pk = (if pk_is_root pk then Some (Some (PTarget None))
     else case node of MemLeaf _ \<Rightarrow> Some None
     | CopylessInternal n \<Rightarrow> map_option Some (pivot_get n pk))"

text \<open>The mutable variant: \<open>None\<close> inside is the node itself, otherwise the child and whether it is
  the target.\<close>

fun node_pivot_get_mut :: "node \<Rightarrow> pivot_key \<Rightarrow> (nat \<times> bool) option option option" where
  "node_pivot_get_mut node pk = (if pk_is_root pk then Some (Some None)
     else case node of MemLeaf _ \<Rightarrow> Some None
     | CopylessInternal n \<Rightarrow> map_option (Some \<circ> Some) (pivot_get_mut n pk))"

fun node_try_walk :: "node \<Rightarrow> bytes \<Rightarrow> nat option" where
  "node_try_walk (MemLeaf _) key = None"
| "node_try_walk (CopylessInternal n) key = Some (in_try_walk n key)"

definition node_try_find_flush_candidate ::
  "(nat \<Rightarrow> nat) \<Rightarrow> storage_map \<Rightarrow> node \<Rightarrow> (nat option \<times> node) option" where
  "node_try_find_flush_candidate root sm node = do {
     (mx, node') \<leftarrow> max_size sm node;
     mx' \<leftarrow> mx;
     case node' of
       MemLeaf _ \<Rightarrow> Some (None, node')
     | CopylessInternal n \<Rightarrow> do {
         c \<leftarrow> try_find_flush_candidate root n (mx' div MIN_FLUSH_RATIO) mx' MIN_FANOUT;
         Some (c, node') } }"

fun child_pointers :: "node \<Rightarrow> obj_ref list option" where
  "child_pointers (MemLeaf _) = None"
| "child_pointers (CopylessInternal n) = Some (map cl_ptr (children n))"

fun node_drain_children :: "node \<Rightarrow> child_link list option \<times> node" where
  "node_drain_children (MemLeaf b) = (None, MemLeaf b)"
| "node_drain_children (CopylessInternal n) =
     (let (cs, n') = in_drain_children n in (Some cs, CopylessInternal n'))"

subsection \<open>Insertion\<close>

definition buffer_insert ::
  "csum_lib \<Rightarrow> msg_action \<Rightarrow> bytes \<Rightarrow> key_info \<Rightarrow> bytes \<Rightarrow> internal_node \<Rightarrow> (internal_node \<times> int) option" where
  "buffer_insert lib ma key keyinfo msg n = do {
     (idx, c) \<leftarrow> in_get_mut n key;
     (b, delta) \<leftarrow> pcb_insert lib ma key keyinfo msg (cl_buffer c);
     n' \<leftarrow> after_insert_size_delta (n\<lparr>children := (children n)[idx := c\<lparr>cl_buffer := b\<rparr>]\<rparr>) idx;
     Some (n', delta) }"

definition node_insert ::
  "csum_lib \<Rightarrow> msg_action \<Rightarrow> bytes \<Rightarrow> bytes \<Rightarrow> storage_preference \<Rightarrow> node \<Rightarrow> (node \<times> int) option" where
  "node_insert lib ma key msg pref node = do {
     (node', size_delta) \<leftarrow> ensure_unpacked lib node;
     let keyinfo = \<lparr>ki_pref = pref\<rparr>;
     case node' of
       MemLeaf b \<Rightarrow> do {
         (b', d) \<leftarrow> pcb_insert lib ma key keyinfo msg b;
         Some (MemLeaf b', size_delta + d) }
     | CopylessInternal n \<Rightarrow> do {
         (n', d) \<leftarrow> buffer_insert lib ma key keyinfo msg n;
         Some (CopylessInternal n', size_delta + d) } }"

primrec buffer_insert_all ::
  "csum_lib \<Rightarrow> msg_action \<Rightarrow> entry list \<Rightarrow> internal_node \<Rightarrow> (internal_node \<times> int) option" where
  "buffer_insert_all lib ma [] n = Some (n, 0)"
| "buffer_insert_all lib ma (e # es) n = do {
     (n', d) \<leftarrow> buffer_insert lib ma (fst e) (fst (snd e)) (snd (snd e)) n;
     (n'', d') \<leftarrow> buffer_insert_all lib ma es n';
     Some (n'', d + d') }"

definition node_insert_msg_buffer ::
  "csum_lib \<Rightarrow> msg_action \<Rightarrow> entry list \<Rightarrow> node \<Rightarrow> (node \<times> int) option" where
  "node_insert_msg_buffer lib ma msgs node = do {
     (node', size_delta) \<leftarrow> ensure_unpacked lib node;
     case node' of
       MemLeaf b \<Rightarrow> do {
         (b', d) \<leftarrow> pcb_insert_msg_buffer lib ma msgs b;
         Some (MemLeaf b', size_delta + d) }
     | CopylessInternal n \<Rightarrow> do {
         (n', d) \<leftarrow> buffer_insert_all lib ma msgs n;
         Some (CopylessInternal n', size_delta + d) } }"

datatype apply_result = ALeaf "key_info option" | ANextNode nat

definition node_apply_with_info ::
  "csum_lib \<Rightarrow> bytes \<Rightarrow> storage_preference \<Rightarrow> node \<Rightarrow> (node \<times> apply_result) option" where
  "node_apply_with_info lib key pref node = do {
     (node', _) \<leftarrow> ensure_unpacked lib node;
     case node' of
       MemLeaf b \<Rightarrow> do {
         (b', info, _) \<leftarrow> pcb_apply_with_info lib b key pref;
         Some (MemLeaf b', ALeaf info) }
     | CopylessInternal n \<Rightarrow> do {
         (n', idx) \<leftarrow> in_apply_with_info n key pref;
         Some (CopylessInternal n', ANextNode idx) } }"

subsection \<open>Splitting and merging\<close>

fun split_siblings ::
  "csum_lib \<Rightarrow> nat option \<Rightarrow> nat option \<Rightarrow> node \<Rightarrow> (node \<times> node \<times> bytes \<times> nat) option" where
  "split_siblings lib mn mx (MemLeaf b) = do {
     mn' \<leftarrow> mn;
     mx' \<leftarrow> mx;
     (b', (r, pivot_key, _), _) \<leftarrow> pcb_split lib b mn' mx';
     Some (MemLeaf b', MemLeaf r, pivot_key, 0) }"
| "split_siblings lib mn mx (CopylessInternal n) = do {
     (n', r, pivot_key, _, _) \<leftarrow> in_split n;
     Some (CopylessInternal n', CopylessInternal r, pivot_key, im_level (meta_data n')) }"

text \<open>The closure \<^verbatim>\<open>allocate_obj\<close> creates the two children; it is a parameter with a state.\<close>

definition split_root_mut ::
  "csum_lib \<Rightarrow> storage_map \<Rightarrow> ('s \<Rightarrow> node \<Rightarrow> local_pivot_key \<Rightarrow> 's \<times> obj_ref) \<Rightarrow> 's \<Rightarrow> node
    \<Rightarrow> ('s \<times> node \<times> int) option" where
  "split_root_mut lib sm allocate_obj s node = do {
     (_, node) \<leftarrow> node_correct_preference node;
     let size_before = node_cache_size node;
     (node, _) \<leftarrow> ensure_unpacked lib node;
     let (left_sibling, _) = node_take node;
     (mn, left_sibling) \<leftarrow> min_size sm left_sibling;
     (mx, left_sibling) \<leftarrow> max_size sm left_sibling;
     (left_sibling, right_sibling, pivot_key, cur_level) \<leftarrow> split_siblings lib mn mx left_sibling;
     assert_that (\<not> has_too_low_fanout left_sibling);
     assert_that (\<not> has_too_low_fanout right_sibling);
     let (s, left_child) = allocate_obj s left_sibling (LLeftOuter pivot_key);
     let (s, right_child) = allocate_obj s right_sibling (LRight pivot_key);
     let buffer = pcb_new False;
     let left_link = \<lparr>lk_ptr = left_child, lk_buffer = buffer, lk_buffer_size = pcb_size buffer\<rparr>;
     let right_link = \<lparr>lk_ptr = right_child, lk_buffer = buffer, lk_buffer_size = pcb_size buffer\<rparr>;
     let node' = CopylessInternal (in_new left_link right_link pivot_key (cur_level + 1));
     Some (s, node', int (node_cache_size node') - int size_before) }"

text \<open>\<^verbatim>\<open>Node::split\<close> and \<^verbatim>\<open>leaf_rebalance\<close> ask for the minimal size twice.\<close>

definition node_split ::
  "csum_lib \<Rightarrow> storage_map \<Rightarrow> node \<Rightarrow> (node \<times> node \<times> bytes \<times> int \<times> local_pivot_key) option" where
  "node_split lib sm node = do {
     (node, _) \<leftarrow> ensure_unpacked lib node;
     (mn, node) \<leftarrow> min_size sm node;
     (mx, node) \<leftarrow> min_size sm node;
     case node of
       MemLeaf b \<Rightarrow> do {
         mn' \<leftarrow> mn;
         mx' \<leftarrow> mx;
         (b', (r, pivot_key, pk), size_delta) \<leftarrow> pcb_split lib b mn' mx';
         Some (MemLeaf b', MemLeaf r, pivot_key, size_delta, pk) }
     | CopylessInternal n \<Rightarrow> do {
         assert_that (fanout n \<ge> 2 * MIN_FANOUT);
         (n', r, pivot_key, size_delta, pk) \<leftarrow> in_split n;
         Some (CopylessInternal n', CopylessInternal r, pivot_key, size_delta, pk) } }"

definition node_merge :: "csum_lib \<Rightarrow> node \<Rightarrow> node \<Rightarrow> bytes \<Rightarrow> (node \<times> node \<times> int) option" where
  "node_merge lib node right_sibling pivot_key = do {
     (node, d0) \<leftarrow> ensure_unpacked lib node;
     (right_sibling, _) \<leftarrow> ensure_unpacked lib right_sibling;
     case (node, right_sibling) of
       (MemLeaf left, MemLeaf right) \<Rightarrow> do {
         (left', right', d) \<leftarrow> pcb_append lib left right;
         Some (MemLeaf left', MemLeaf right', d0 + d) }
     | (CopylessInternal left, CopylessInternal right) \<Rightarrow>
         (let (left', right', d) = in_merge left right pivot_key
          in Some (CopylessInternal left', CopylessInternal right', d0 + d))
     | _ \<Rightarrow> None }"

definition leaf_rebalance ::
  "csum_lib \<Rightarrow> storage_map \<Rightarrow> node \<Rightarrow> node \<Rightarrow> (node \<times> node \<times> fill_up_result) option" where
  "leaf_rebalance lib sm node right_sibling = do {
     (node, _) \<leftarrow> ensure_unpacked lib node;
     (right_sibling, _) \<leftarrow> ensure_unpacked lib right_sibling;
     (mn, node) \<leftarrow> min_size sm node;
     (mx, node) \<leftarrow> min_size sm node;
     case (node, right_sibling) of
       (MemLeaf left, MemLeaf right) \<Rightarrow> do {
         mn' \<leftarrow> mn;
         mx' \<leftarrow> mx;
         (left', right', r) \<leftarrow> pcb_rebalance_size lib left right mn' mx';
         Some (MemLeaf left', MemLeaf right', r) }
     | _ \<Rightarrow> None }"


subsection \<open>What a node does to a key\<close>

text \<open>
  \<open>pending\<close> is what the messages of an inner node make of the value that comes from below. A node is
  well formed (\<open>node_ok\<close>) when its parts are and all its buffered messages are valid.
\<close>

definition msg_effect :: "msg_action \<Rightarrow> bytes \<Rightarrow> (key_info \<times> bytes) option \<Rightarrow> bytes option \<Rightarrow> bytes option option" where
  "msg_effect ma k msg d = (case msg of None \<Rightarrow> Some d | Some (_, m) \<Rightarrow> ma_apply ma k m d)"

definition pending :: "csum_lib \<Rightarrow> msg_action \<Rightarrow> internal_node \<Rightarrow> bytes \<Rightarrow> bytes option \<Rightarrow> bytes option option" where
  "pending lib ma n k d = (case in_get lib n k of None \<Rightarrow> None | Some (_, msg) \<Rightarrow> msg_effect ma k msg d)"

definition msgs_valid :: "csum_lib \<Rightarrow> (bytes \<Rightarrow> bytes \<Rightarrow> bool) \<Rightarrow> internal_node \<Rightarrow> bool" where
  "msgs_valid lib valid n \<longleftrightarrow> (\<forall>c \<in> set (children n). \<exists>m. contents lib (cl_buffer c) = Some m \<and> valid_entries valid m)"

definition inner_ok :: "csum_lib \<Rightarrow> (bytes \<Rightarrow> bytes \<Rightarrow> bool) \<Rightarrow> internal_node \<Rightarrow> bool" where
  "inner_ok lib valid n \<longleftrightarrow> in_wf lib n \<and> msgs_valid lib valid n"

definition leaf_ok :: "csum_lib \<Rightarrow> packed_child_buffer \<Rightarrow> entries \<Rightarrow> bool" where
  "leaf_ok lib b m \<longleftrightarrow> is_leaf b \<and> buffer_holds lib b m \<and> size_floor b m"

lemma msg_effect_buffer: "msg_effect ma k (bt_get m k) = buffer_effect ma m k"
  by (simp add: msg_effect_def buffer_effect_def fun_eq_iff)

lemma inner_child:
  assumes "inner_ok lib valid n" "i < fanout n"
  obtains m where "buffer_holds lib (cl_buffer (children n ! i)) m" "size_exact (cl_buffer (children n ! i)) m"
    "\<not> is_leaf (cl_buffer (children n ! i))" "\<forall>k \<in> fst ` set m. pivots_below (pivots (meta_data n)) k = i"
    "valid_entries valid m"
proof -
  obtain m where m: "buffer_holds lib (cl_buffer (children n ! i)) m" "size_exact (cl_buffer (children n ! i)) m"
    "\<not> is_leaf (cl_buffer (children n ! i))" "\<forall>k \<in> fst ` set m. pivots_below (pivots (meta_data n)) k = i"
    using in_wf_child [of lib n i] assms by (auto simp: inner_ok_def)
  have "children n ! i \<in> set (children n)" using assms(2) by (simp add: fanout_def)
  then obtain m' where "contents lib (cl_buffer (children n ! i)) = Some m'" "valid_entries valid m'"
    using assms(1) by (auto simp: inner_ok_def msgs_valid_def)
  with buffer_holds_reads(1) [OF m(1)] m show ?thesis using that by simp
qed

lemma pending_child:
  assumes "in_wf lib n" "buffer_holds lib (cl_buffer (children n ! in_idx n k)) m"
  shows "pending lib ma n k = buffer_effect ma m k"
  using in_get_child(3) [OF assms(1), of k] buffer_holds_reads(2) [OF assms(2), of k]
  by (simp add: pending_def Let_def msg_effect_buffer fun_eq_iff)

text \<open>Replacing the buffer of one child by one that holds keys of the same child.\<close>

definition set_buffer :: "internal_node \<Rightarrow> nat \<Rightarrow> packed_child_buffer \<Rightarrow> internal_node" where
  "set_buffer n i b = n\<lparr>children := (children n)[i := (children n ! i)\<lparr>cl_buffer := b\<rparr>],
     meta_data := (meta_data n)\<lparr>entries_sizes := (entries_sizes (meta_data n))[i := pcb_size b]\<rparr>\<rparr>"

lemma set_buffer_simps [simp]:
  "pivots (meta_data (set_buffer n i b)) = pivots (meta_data n)" "fanout (set_buffer n i b) = fanout n"
  "in_idx (set_buffer n i b) k = in_idx n k" "current_size (meta_data (set_buffer n i b)) = current_size (meta_data n)"
  "im_level (meta_data (set_buffer n i b)) = im_level (meta_data n)"
  by (simp_all add: set_buffer_def fanout_def in_idx_def)

lemma set_buffer_ptrs [simp]: "map cl_ptr (children (set_buffer n i b)) = map cl_ptr (children n)"
proof (cases "i < length (children n)")
  case True
  then have "(map cl_ptr (children n))[i := cl_ptr (children n ! i)] = map cl_ptr (children n)"
    by (metis list_update_id nth_map)
  then show ?thesis by (simp add: set_buffer_def map_update)
qed (simp add: set_buffer_def list_update_beyond)

lemma after_insert_set_buffer:
  assumes "in_wf lib n" "i < fanout n"
  shows "after_insert_size_delta (n\<lparr>children := (children n)[i := (children n ! i)\<lparr>cl_buffer := b\<rparr>]\<rparr>) i = Some (set_buffer n i b)"
  using assms in_wfD(3) [OF assms(1)]
  by (simp add: after_insert_size_delta_def nth_opt_def vec_set_def fanout_def set_buffer_def)

lemma set_buffer_wf:
  assumes wf: "in_wf lib n" and i: "i < fanout n" and m: "buffer_holds lib b m" "size_exact b m" "\<not> is_leaf b"
    "\<forall>k \<in> fst ` set m. pivots_below (pivots (meta_data n)) k = i"
  shows "in_wf lib (set_buffer n i b)"
    and "msgs_valid lib valid n \<Longrightarrow> valid_entries valid m \<Longrightarrow> msgs_valid lib valid (set_buffer n i b)"
    and "pending lib ma (set_buffer n i b) k = (if in_idx n k = i then buffer_effect ma m k else pending lib ma n k)"
    and "map_option fst (in_get lib (set_buffer n i b) k) = map_option fst (in_get lib n k)"
proof -
  note D = in_wfD [OF wf]
  show wf': "in_wf lib (set_buffer n i b)"
  proof (rule in_wfI)
    fix j assume "j < length (children (set_buffer n i b))"
    then show "child_buffer_ok lib (\<lambda>k. pivots_below (pivots (meta_data (set_buffer n i b))) k = j) (cl_buffer (children (set_buffer n i b) ! j))"
      using D(5) [of j] m by (cases "j = i") (auto simp: set_buffer_def nth_list_update intro!: child_buffer_okI [of lib b m])
  qed (use D i in \<open>simp_all add: set_buffer_def fanout_def map_update\<close>)
  show "msgs_valid lib valid n \<Longrightarrow> valid_entries valid m \<Longrightarrow> msgs_valid lib valid (set_buffer n i b)"
    using buffer_holds_reads(1) [OF m(1)] by (auto simp: msgs_valid_def set_buffer_def dest!: set_update_subset_insert [THEN subsetD])
  have child: "children (set_buffer n i b) ! in_idx n k = (if in_idx n k = i then (children n ! i)\<lparr>cl_buffer := b\<rparr> else children n ! in_idx n k)"
    using i by (simp add: set_buffer_def fanout_def)
  obtain m0 where m0: "buffer_holds lib (cl_buffer (children n ! in_idx n k)) m0"
    using in_wf_child [OF wf in_get_child(2) [OF wf, of k]] by metis
  show "pending lib ma (set_buffer n i b) k = (if in_idx n k = i then buffer_effect ma m k else pending lib ma n k)"
    using pending_child [OF wf m0] pending_child [OF wf', of k m0] pending_child [OF wf', of k m] m(1) m0 child by simp
  show "map_option fst (in_get lib (set_buffer n i b) k) = map_option fst (in_get lib n k)"
    using in_get_child(3) [OF wf, of k] in_get_child(3) [OF wf', of k] buffer_holds_reads(2) [OF m0, of k]
      buffer_holds_reads(2) [OF m(1), of k] child by (simp add: Let_def)
qed

subsection \<open>Inserting messages\<close>

lemma pcb_insert_unpacked:
  assumes "pcb_insert lib ma key info msg b = Some (b', d)" "contents lib b' = Some m"
  shows "cb_buffer b' = Unpacked m"
proof -
  have "\<exists>m'. cb_buffer b' = Unpacked m'"
    using assms(1) by (auto simp: pcb_insert_def Let_def bind_eq_Some_conv split: option.splits if_splits)
  then show ?thesis using assms(2) by (auto simp: contents_def)
qed

lemma pcb_insert_msg_buffer_unpacked:
  "pcb_insert_msg_buffer lib ma es b = Some (b', d) \<Longrightarrow> contents lib b' = Some m
    \<Longrightarrow> \<exists>m0. cb_buffer b = Unpacked m0 \<Longrightarrow> cb_buffer b' = Unpacked m"
proof (induction es arbitrary: b d)
  case Nil
  then show ?case by (auto simp: contents_def)
next
  case (Cons e es)
  obtain b1 d1 d2 where b1: "pcb_insert lib ma (fst e) (fst (snd e)) (snd (snd e)) b = Some (b1, d1)"
    "pcb_insert_msg_buffer lib ma es b1 = Some (b', d2)"
    using Cons.prems(1) by (auto simp: bind_eq_Some_conv)
  have "\<exists>m0. cb_buffer b1 = Unpacked m0"
    using b1(1) by (auto simp: pcb_insert_def Let_def bind_eq_Some_conv split: option.splits if_splits)
  then show ?case by (rule Cons.IH [OF b1(2) Cons.prems(2)])
qed

context message_action
begin

lemma buffer_insert_spec:
  assumes ok: "inner_ok lib valid n" and v: "valid key msg"
  obtains b d where "buffer_insert lib ma key info msg n = Some (set_buffer n (in_idx n key) b, d)"
    "inner_ok lib valid (set_buffer n (in_idx n key) b)"
    "\<And>k x. pending lib ma (set_buffer n (in_idx n key) b) k x =
       (if k = key then pending lib ma n k x \<bind> ma_apply ma k msg else pending lib ma n k x)"
    "\<And>k. map_option fst (in_get lib (set_buffer n (in_idx n key) b) k) = map_option fst (in_get lib n k)"
proof -
  have wf: "in_wf lib n" "msgs_valid lib valid n" using ok by (simp_all add: inner_ok_def)
  let ?i = "in_idx n key"
  have i: "?i < fanout n" by (rule in_get_child(2) [OF wf(1)])
  obtain m where m: "buffer_holds lib (cl_buffer (children n ! ?i)) m" "size_exact (cl_buffer (children n ! ?i)) m"
    "\<not> is_leaf (cl_buffer (children n ! ?i))" "\<forall>k \<in> fst ` set m. pivots_below (pivots (meta_data n)) k = ?i" "valid_entries valid m"
    using inner_child [OF ok i] .
  have covers: "size_covers (cl_buffer (children n ! ?i)) m" using m(2) by (simp add: size_exact_def size_covers_def)
  obtain b d m' where b: "pcb_insert lib ma key info msg (cl_buffer (children n ! ?i)) = Some (b, d)" "contents lib b = Some m'"
    "sorted_keys m'" "\<not> is_leaf b" "valid_entries valid m'" "excess b m' = excess (cl_buffer (children n ! ?i)) m"
    "fst ` set m' = insert key (fst ` set m)"
    "\<And>k x. buffer_effect ma m' k x = (if k = key then buffer_effect ma m k x \<bind> ma_apply ma k msg else buffer_effect ma m k x)"
    using pcb_insert_buffer [OF buffer_holds_reads(1,4) [OF m(1)] covers m(3,5) v, of info] by (elim exE conjE) blast
  have b': "buffer_holds lib b m'" "size_exact b m'" using b pcb_insert_unpacked [OF b(1,2)] m(2) by (simp_all add: buffer_holds_def size_exact_excess)
  have keys: "\<forall>k \<in> fst ` set m'. pivots_below (pivots (meta_data n)) k = ?i"
    using m(4) in_get_child(1) [OF wf(1), of key] by (simp add: b(7))
  note set = set_buffer_wf [OF wf(1) i b' b(4) keys]
  have "buffer_insert lib ma key info msg n = Some (set_buffer n ?i b, d)"
    using i b(1) after_insert_set_buffer [OF wf(1) i, of b] by (simp add: buffer_insert_def in_get_mut_def nth_opt_def fanout_def)
  moreover have "inner_ok lib valid (set_buffer n ?i b)" using set(1) set(2) [OF wf(2) b(5)] by (simp add: inner_ok_def)
  moreover have "pending lib ma (set_buffer n ?i b) k x = (if k = key then pending lib ma n k x \<bind> ma_apply ma k msg else pending lib ma n k x)" for k x
  proof (cases "in_idx n k = ?i")
    case True
    then have "pending lib ma n k = buffer_effect ma m k" using pending_child [OF wf(1), of k m] m(1) by simp
    then show ?thesis using set(3) True b(8) [of k x] by (cases "k = key") simp_all
  qed (use set(3) in auto)
  ultimately show ?thesis using that set(4) by blast
qed

lemma buffer_insert_all_spec:
  assumes "inner_ok lib valid n" "sorted_keys es" "valid_entries valid es"
  obtains n' d where "buffer_insert_all lib ma es n = Some (n', d)" "inner_ok lib valid n'"
    "\<And>k x. pending lib ma n' k x = pending lib ma n k x \<bind> buffer_effect ma es k"
    "\<And>k. map_option fst (in_get lib n' k) = map_option fst (in_get lib n k)"
    "map cl_ptr (children n') = map cl_ptr (children n)" "im_level (meta_data n') = im_level (meta_data n)"
    "pivots (meta_data n') = pivots (meta_data n)" "current_size (meta_data n') = current_size (meta_data n)"
  using assms
proof (induction es arbitrary: n thesis)
  case Nil
  then show ?case by (auto simp: buffer_effect_absent Option.bind_rzero)
next
  case (Cons e es)
  have e: "valid (fst e) (snd (snd e))" "sorted_keys es" "valid_entries valid es"
    using Cons.prems(3,4) by (auto simp: valid_entries_def)
  obtain b d where 1: "buffer_insert lib ma (fst e) (fst (snd e)) (snd (snd e)) n = Some (set_buffer n (in_idx n (fst e)) b, d)"
    "inner_ok lib valid (set_buffer n (in_idx n (fst e)) b)"
    "\<And>k x. pending lib ma (set_buffer n (in_idx n (fst e)) b) k x =
       (if k = fst e then pending lib ma n k x \<bind> ma_apply ma k (snd (snd e)) else pending lib ma n k x)"
    "\<And>k. map_option fst (in_get lib (set_buffer n (in_idx n (fst e)) b) k) = map_option fst (in_get lib n k)"
    using buffer_insert_spec [OF Cons.prems(2) e(1)] by metis
  obtain n' d' where 2: "buffer_insert_all lib ma es (set_buffer n (in_idx n (fst e)) b) = Some (n', d')" "inner_ok lib valid n'"
    "\<And>k x. pending lib ma n' k x = pending lib ma (set_buffer n (in_idx n (fst e)) b) k x \<bind> buffer_effect ma es k"
    "\<And>k. map_option fst (in_get lib n' k) = map_option fst (in_get lib (set_buffer n (in_idx n (fst e)) b) k)"
    "map cl_ptr (children n') = map cl_ptr (children n)" "im_level (meta_data n') = im_level (meta_data n)"
    "pivots (meta_data n') = pivots (meta_data n)" "current_size (meta_data n') = current_size (meta_data n)"
    using Cons.IH [OF _ 1(2) e(2,3)] by (metis set_buffer_simps(1,4,5) set_buffer_ptrs)
  have "pending lib ma n' k x = pending lib ma n k x \<bind> buffer_effect ma (e # es) k" for k x
  proof (cases "k = fst e")
    case True
    then have "k \<notin> fst ` set es" using Cons.prems(3) by auto
    then show ?thesis using True 1(3) 2(3)
      by (simp add: buffer_effect_absent buffer_effect_Cons_same Option.bind_rzero)
  next
    case False
    then show ?thesis using 1(3) 2(3) by (simp add: buffer_effect_Cons_other)
  qed
  moreover have "buffer_insert_all lib ma (e # es) n = Some (n', d + d')" using 1(1) 2(1) by simp
  moreover have "map_option fst (in_get lib n' k) = map_option fst (in_get lib n k)" for k using 1(4) 2(4) by simp
  ultimately show ?case using 2(2,5-8) by (intro Cons.prems(1))
qed

end

subsection \<open>Nodes\<close>

fun node_child :: "csum_lib \<Rightarrow> node \<Rightarrow> bytes \<Rightarrow> obj_ref option" where
  "node_child lib (MemLeaf b) k = None"
| "node_child lib (CopylessInternal n) k = map_option fst (in_get lib n k)"

text \<open>The value of a key at a node, given the value \<open>d\<close> of the key in the child it is directed to.\<close>

fun node_value :: "csum_lib \<Rightarrow> msg_action \<Rightarrow> node \<Rightarrow> bytes \<Rightarrow> bytes option \<Rightarrow> bytes option option" where
  "node_value lib ma (MemLeaf b) k d = map_option (map_option snd) (pcb_get lib b k)"
| "node_value lib ma (CopylessInternal n) k d = pending lib ma n k d"

fun node_ok :: "csum_lib \<Rightarrow> (bytes \<Rightarrow> bytes \<Rightarrow> bool) \<Rightarrow> node \<Rightarrow> bool" where
  "node_ok lib valid (MemLeaf b) = (\<exists>m. leaf_ok lib b m)"
| "node_ok lib valid (CopylessInternal n) = inner_ok lib valid n"

lemma leaf_node_value: "leaf_ok lib b m \<Longrightarrow> node_value lib ma (MemLeaf b) k d = Some (leaf_value m k)"
  using buffer_holds_reads(2) [of lib b m k] by (simp add: leaf_ok_def leaf_value_def)

lemma leaf_okI: "cb_buffer b = Unpacked m \<Longrightarrow> sorted_keys m \<Longrightarrow> is_leaf b \<Longrightarrow> size_floor b m \<Longrightarrow> leaf_ok lib b m"
  by (simp add: leaf_ok_def buffer_holds_def)

lemma leaf_ok_contents: "leaf_ok lib b m \<Longrightarrow> contents lib b = Some m" "leaf_ok lib b m \<Longrightarrow> sorted_keys m"
  using buffer_holds_reads(1,4) [of lib b m] by (simp_all add: leaf_ok_def)

lemma ensure_unpacked_leaf:
  assumes "leaf_ok lib b m"
  obtains d where "ensure_unpacked lib (MemLeaf b) = Some (MemLeaf (b\<lparr>cb_buffer := Unpacked m\<rparr>), d)"
    "leaf_ok lib (b\<lparr>cb_buffer := Unpacked m\<rparr>) m"
proof -
  obtain u where u: "unpacked lib (cb_buffer b) = Some (m, u)" using leaf_ok_contents(1) [OF assms] by (rule contents_cases)
  then show ?thesis
    using assms leaf_ok_contents(2) [OF assms] that
    by (auto simp: pcb_unpack_data_def leaf_ok_def buffer_holds_def size_floor_def)
qed

context message_action
begin

lemma node_insert_spec:
  assumes ok: "node_ok lib valid node" and v: "valid key msg"
  obtains node' d where "node_insert lib ma key msg pref node = Some (node', d)" "node_ok lib valid node'"
    "\<And>k x. node_value lib ma node' k x =
       (if k = key then node_value lib ma node k x \<bind> ma_apply ma k msg else node_value lib ma node k x)"
    "\<And>k. node_child lib node' k = node_child lib node k" "child_pointers node' = child_pointers node"
    "node_level node' = node_level node"
proof (cases node)
  case (MemLeaf b)
  then obtain m where m: "leaf_ok lib b m" using ok by auto
  obtain d0 where d0: "ensure_unpacked lib (MemLeaf b) = Some (MemLeaf (b\<lparr>cb_buffer := Unpacked m\<rparr>), d0)"
    "leaf_ok lib (b\<lparr>cb_buffer := Unpacked m\<rparr>) m" by (rule ensure_unpacked_leaf [OF m])
  obtain r where r: "ma_apply ma key msg (leaf_value m key) = Some r" using apply_total [OF v] by blast
  obtain b' d m' where b': "pcb_insert lib ma key \<lparr>ki_pref = pref\<rparr> msg (b\<lparr>cb_buffer := Unpacked m\<rparr>) = Some (b', d)"
    "sorted_keys m'" "is_leaf b'" "leaf_value m' = (leaf_value m)(key := r)" "size_floor b' m'" "cb_buffer b' = Unpacked m'"
    using pcb_insert_leaf [OF leaf_ok_contents [OF d0(2)] _ _ r, of "\<lparr>ki_pref = pref\<rparr>"] d0(2)
    by (auto simp: leaf_ok_def)
  have ok': "leaf_ok lib b' m'" using b' by (intro leaf_okI)
  show ?thesis
  proof (rule that)
    show "node_insert lib ma key msg pref node = Some (MemLeaf b', d0 + d)"
      using d0(1) b'(1) by (simp add: node_insert_def MemLeaf Let_def)
  qed (use ok' MemLeaf r in \<open>auto simp: leaf_node_value [OF m] leaf_node_value [OF ok'] b'(4) simp del: node_value.simps\<close>)
next
  case (CopylessInternal n)
  then have n: "inner_ok lib valid n" using ok by simp
  obtain b d where b: "buffer_insert lib ma key \<lparr>ki_pref = pref\<rparr> msg n = Some (set_buffer n (in_idx n key) b, d)"
    "inner_ok lib valid (set_buffer n (in_idx n key) b)"
    "\<And>k x. pending lib ma (set_buffer n (in_idx n key) b) k x =
       (if k = key then pending lib ma n k x \<bind> ma_apply ma k msg else pending lib ma n k x)"
    "\<And>k. map_option fst (in_get lib (set_buffer n (in_idx n key) b) k) = map_option fst (in_get lib n k)"
    using buffer_insert_spec [OF n v] by metis
  show ?thesis
  proof (rule that)
    show "node_insert lib ma key msg pref node = Some (CopylessInternal (set_buffer n (in_idx n key) b), 0 + d)"
      using b(1) by (simp add: node_insert_def CopylessInternal Let_def)
  qed (use b CopylessInternal in simp_all)
qed

lemma node_insert_msg_buffer_spec:
  assumes ok: "node_ok lib valid node" and es: "sorted_keys es" "valid_entries valid es"
  obtains node' d where "node_insert_msg_buffer lib ma es node = Some (node', d)" "node_ok lib valid node'"
    "\<And>k x. node_value lib ma node' k x = node_value lib ma node k x \<bind> buffer_effect ma es k"
    "\<And>k. node_child lib node' k = node_child lib node k" "child_pointers node' = child_pointers node"
    "node_level node' = node_level node"
proof (cases node)
  case (MemLeaf b)
  then obtain m where m: "leaf_ok lib b m" using ok by auto
  obtain d0 where d0: "ensure_unpacked lib (MemLeaf b) = Some (MemLeaf (b\<lparr>cb_buffer := Unpacked m\<rparr>), d0)"
    "leaf_ok lib (b\<lparr>cb_buffer := Unpacked m\<rparr>) m" by (rule ensure_unpacked_leaf [OF m])
  obtain b' d m' where b': "pcb_insert_msg_buffer lib ma es (b\<lparr>cb_buffer := Unpacked m\<rparr>) = Some (b', d)"
    "contents lib b' = Some m'" "sorted_keys m'" "is_leaf b'" "size_floor b' m'"
    "\<And>k. Some (leaf_value m' k) = buffer_effect ma es k (leaf_value m k)"
    using pcb_insert_msgs_leaf [OF es leaf_ok_contents [OF d0(2)]] d0(2) unfolding leaf_ok_def by metis
  have "cb_buffer b' = Unpacked m'"
    using b'(1,2) by (rule pcb_insert_msg_buffer_unpacked) simp
  then have ok': "leaf_ok lib b' m'" using b' by (intro leaf_okI)
  show ?thesis
  proof (rule that)
    show "node_insert_msg_buffer lib ma es node = Some (MemLeaf b', d0 + d)"
      using d0(1) b'(1) by (simp add: node_insert_msg_buffer_def MemLeaf)
  qed (use ok' MemLeaf in \<open>auto simp: leaf_node_value [OF m] leaf_node_value [OF ok'] b'(6) simp del: node_value.simps\<close>)
next
  case (CopylessInternal n)
  then have n: "inner_ok lib valid n" using ok by simp
  obtain n' d where n': "buffer_insert_all lib ma es n = Some (n', d)" "inner_ok lib valid n'"
    "\<And>k x. pending lib ma n' k x = pending lib ma n k x \<bind> buffer_effect ma es k"
    "\<And>k. map_option fst (in_get lib n' k) = map_option fst (in_get lib n k)"
    "map cl_ptr (children n') = map cl_ptr (children n)" "im_level (meta_data n') = im_level (meta_data n)"
    using buffer_insert_all_spec [OF n es] by metis
  show ?thesis
  proof (rule that)
    show "node_insert_msg_buffer lib ma es node = Some (CopylessInternal n', 0 + d)"
      using n'(1) by (simp add: node_insert_msg_buffer_def CopylessInternal)
  qed (use n' CopylessInternal in simp_all)
qed

end

end
