(* ===== verification/NodeSplit.thy ===== *)
theory NodeSplit
  imports Node
begin

text \<open>
  Splitting, merging and storing nodes (\<^verbatim>\<open>Node::split\<close>, \<^verbatim>\<open>split_root_mut\<close>, \<^verbatim>\<open>merge\<close>, \<^verbatim>\<open>leaf_rebalance\<close>,
  \<^verbatim>\<open>pack\<close> and \<^verbatim>\<open>unpack_at\<close> in \<^verbatim>\<open>betree/src/tree/imp/node.rs\<close>): when a leaf can be split, and that
  the two halves together do to every key what the node did.
\<close>

subsection \<open>When a leaf can be split\<close>

lemma split_scan_append:
  "snd (snd (split_scan mn es sz p)) \<noteq> None \<Longrightarrow> split_scan mn (es @ es') sz p = split_scan mn es sz p"
  by (induction mn es sz p rule: split_scan.induct) (auto simp: Let_def)

lemma split_scan_None:
  "es \<noteq> [] \<Longrightarrow> snd (snd (split_scan mn es sz p)) = None \<longleftrightarrow> sz + scan_size es < mn"
proof (induction mn es sz p rule: split_scan.induct)
  case (2 mn k info v es sz p)
  show ?case
  proof (cases "es = []")
    case True
    then show ?thesis by (auto simp: Let_def scan_size_def)
  next
    case False
    with 2 show ?thesis by (auto simp: Let_def scan_size_def)
  qed
qed simp

lemma scan_size_append: "scan_size (es @ es') = scan_size es + scan_size es'"
  by (simp add: scan_size_def)

lemma pcb_split_None_iff:
  assumes m: "buffer_holds lib b m" "size_floor b m" and large: "mx < pcb_size b" "2 < length m"
  shows "pcb_split lib b mn mx = None \<longleftrightarrow> scan_size (tl m) < mn"
proof
  obtain u where u: "unpacked lib (cb_buffer b) = Some (m, u)"
    using buffer_holds_reads(1) [OF m(1)] by (rule contents_cases)
  have sorted: "sorted_keys m" by (rule buffer_holds_reads(4) [OF m(1)])
  have len: "map_len (cb_buffer b) = length m" using m(1) by (auto simp: buffer_holds_def split: cb_map.splits)
  show "scan_size (tl m) < mn" if none: "pcb_split lib b mn mx = None"
  proof (rule ccontr)
    assume enough: "\<not> scan_size (tl m) < mn"
    have ne: "rev (tl m) \<noteq> []" using large(2) by (cases m) auto
    with enough have found: "snd (snd (split_scan mn (rev (tl m)) 0 NONE)) \<noteq> None"
      using split_scan_None [OF ne, of mn 0 NONE] by (simp add: scan_size_rev)
    then obtain sz pref k where scan': "split_scan mn (rev (tl m)) 0 NONE = (sz, pref, Some k)"
      by (cases "split_scan mn (rev (tl m)) 0 NONE") auto
    have "rev m = rev (tl m) @ [hd m]" using large(2) by (cases m) auto
    then have scan: "split_scan mn (rev m) 0 NONE = (sz, pref, Some k)"
      using split_scan_append [OF found, of "[hd m]"] scan' by simp
    obtain n where n: "n < length (tl m)" "fst (rev (tl m) ! n) = k" "sz = scan_size (take (Suc n) (rev (tl m)))"
      using split_scan_spec [OF scan'] by auto
    have "scan_size (tl m) = scan_size (take (Suc n) (rev (tl m))) + scan_size (drop (Suc n) (rev (tl m)))"
      by (simp only: scan_size_append [symmetric] append_take_drop_id scan_size_rev)
    moreover have "scan_size (tl m) \<le> scan_size m" by (cases m) (auto simp: scan_size_def)
    moreover have "scan_size m \<le> entries_size b"
      using m(2) scan_size_entry_sum [of m] by (simp add: size_floor_def)
    ultimately have le: "sz \<le> entries_size b" using n(3) by simp
    have "k \<in> fst ` set (tl m)" using n(1,2) nth_mem [of n "rev (tl m)"] by auto
    moreover have "m = hd m # tl m" using large(2) by (cases m) auto
    then have "sorted_keys (hd m # tl m)" using sorted by simp
    ultimately have "fst (hd m) < k" by auto
    moreover have "hd m \<in> set m" using large(2) by (cases m) auto
    ultimately have L: "filter (\<lambda>e. fst e < k) m \<noteq> []" by (auto simp: filter_empty_conv)
    show False
      using none u scan le L large len by (simp add: pcb_split_def bt_split_off_def checked_sub_def Let_def)
  qed
  show "pcb_split lib b mn mx = None" if few: "scan_size (tl m) < mn"
  proof (rule ccontr)
    assume "pcb_split lib b mn mx \<noteq> None"
    then obtain b' r pk lpk d where "pcb_split lib b mn mx = Some (b', (r, pk, lpk), d)" by (metis not_None_eq prod_cases3)
    from pcb_split_spec [OF buffer_holds_reads(1) [OF m(1)] sorted this] obtain L R where
      R: "m = L @ R" "L \<noteq> []" "mn \<le> entries_size r" "entries_size r + 8 * length R = entry_sum entry_size R" by blast
    have "scan_size R \<le> scan_size (tl m)" using R(1,2) by (cases L) (simp_all add: scan_size_append)
    with R(3,4) few scan_size_entry_sum [of R] show False by simp
  qed
qed

subsection \<open>The limits of a leaf\<close>

text \<open>The two sizes that \<^verbatim>\<open>split\<close> and \<^verbatim>\<open>leaf_rebalance\<close> compute; both ask for the minimal size.\<close>

definition leaf_limits :: "csum_lib \<Rightarrow> storage_map \<Rightarrow> node \<Rightarrow> (nat \<times> nat \<times> node) option" where
  "leaf_limits lib sm node = do {
     (node, _) \<leftarrow> ensure_unpacked lib node;
     (mn, node) \<leftarrow> min_size sm node;
     (mx, node) \<leftarrow> min_size sm node;
     mn' \<leftarrow> mn;
     mx' \<leftarrow> mx;
     Some (mn', mx', node) }"

lemma weak_bound_total: "valid_pref v \<Longrightarrow> \<exists>q. weak_bound v p = Some q"
  by (auto simp: weak_bound_def valid_pref_def pref_from_u8_def)

lemma min_size_leaf:
  assumes "cb_buffer b = Unpacked m" "valid_pref (system_storage_preference b)"
  obtains s p where "min_size sm (MemLeaf b) = Some (Some s, MemLeaf (b\<lparr>messages_preference := p\<rparr>))"
    "s \<in> {mib 1, kib 512, kib 128}"
proof -
  obtain pref p where "node_correct_preference (MemLeaf b) = Some (pref, MemLeaf (b\<lparr>messages_preference := p\<rparr>))"
  proof (cases "as_option (messages_preference b)")
    case None
    then show ?thesis using that assms(1)
      by (auto simp: node_correct_preference_def pcb_current_preference_def pcb_recalculate_def Let_def)
  next
    case (Some q)
    obtain pref where "weak_bound (system_storage_preference b) q = Some pref" using weak_bound_total [OF assms(2)] by blast
    with Some show ?thesis using that [of pref "messages_preference b"]
      by (simp add: node_correct_preference_def pcb_current_preference_def)
  qed
  then show ?thesis using that by (auto simp: min_size_def split: storage_kind.splits)
qed

lemma leaf_limits_leaf:
  assumes "leaf_ok lib b m" "valid_pref (system_storage_preference b)"
  obtains mn mx p where "leaf_limits lib sm (MemLeaf b) = Some (mn, mx, MemLeaf (b\<lparr>cb_buffer := Unpacked m, messages_preference := p\<rparr>))"
    "mn \<in> {mib 1, kib 512, kib 128}" "mx \<in> {mib 1, kib 512, kib 128}"
proof -
  obtain d where d: "ensure_unpacked lib (MemLeaf b) = Some (MemLeaf (b\<lparr>cb_buffer := Unpacked m\<rparr>), d)"
    by (rule ensure_unpacked_leaf [OF assms(1)])
  obtain mn p where p: "min_size sm (MemLeaf (b\<lparr>cb_buffer := Unpacked m\<rparr>)) = Some (Some mn, MemLeaf (b\<lparr>cb_buffer := Unpacked m, messages_preference := p\<rparr>))"
    "mn \<in> {mib 1, kib 512, kib 128}"
    using min_size_leaf [of "b\<lparr>cb_buffer := Unpacked m\<rparr>" m sm] assms(2) by auto
  obtain mx q where q: "min_size sm (MemLeaf (b\<lparr>cb_buffer := Unpacked m, messages_preference := p\<rparr>)) = Some (Some mx, MemLeaf (b\<lparr>cb_buffer := Unpacked m, messages_preference := q\<rparr>))"
    "mx \<in> {mib 1, kib 512, kib 128}"
    using min_size_leaf [of "b\<lparr>cb_buffer := Unpacked m, messages_preference := p\<rparr>" m sm] assms(2) by auto
  show ?thesis by (rule that [of mn mx q]) (use d p q in \<open>simp_all add: leaf_limits_def\<close>)
qed

lemma node_split_leaf:
  assumes "leaf_ok lib b m" "leaf_limits lib sm (MemLeaf b) = Some (mn, mx, node)"
  obtains b' where "node = MemLeaf b'" "cb_buffer b' = Unpacked m" "leaf_ok lib b' m" "pcb_size b' = pcb_size b"
    "node_split lib sm (MemLeaf b) = map_option (\<lambda>(l, (r, pk, lpk), d). (MemLeaf l, MemLeaf r, pk, d, lpk)) (pcb_split lib b' mn mx)"
proof -
  obtain d0 where d0: "ensure_unpacked lib (MemLeaf b) = Some (MemLeaf (b\<lparr>cb_buffer := Unpacked m\<rparr>), d0)"
    "leaf_ok lib (b\<lparr>cb_buffer := Unpacked m\<rparr>) m" by (rule ensure_unpacked_leaf [OF assms(1)])
  have pref: "\<exists>q. n' = MemLeaf (c\<lparr>messages_preference := q\<rparr>)" if "min_size sm (MemLeaf c) = Some (s, n')" for c s n'
  proof -
    have "\<exists>q. c = c\<lparr>messages_preference := q\<rparr>" by (rule exI [of _ "messages_preference c"]) simp
    then show ?thesis
      using that by (auto simp: min_size_def node_correct_preference_def pcb_recalculate_def bind_eq_Some_conv Let_def
          split: option.splits cb_map.splits)
  qed
  obtain s1 n1 s2 where s: "min_size sm (MemLeaf (b\<lparr>cb_buffer := Unpacked m\<rparr>)) = Some (s1, n1)" "min_size sm n1 = Some (s2, node)"
    "s1 = Some mn" "s2 = Some mx"
    using assms(2) d0(1) by (auto simp: leaf_limits_def bind_eq_Some_conv)
  from pref [OF s(1)] obtain p where n1: "n1 = MemLeaf (b\<lparr>cb_buffer := Unpacked m, messages_preference := p\<rparr>)" by auto
  from pref [OF s(2) [unfolded n1]] obtain q where node: "node = MemLeaf (b\<lparr>cb_buffer := Unpacked m, messages_preference := q\<rparr>)" by auto
  show ?thesis
  proof (rule that [OF node])
    show "node_split lib sm (MemLeaf b) = map_option (\<lambda>(l, (r, pk, lpk), d). (MemLeaf l, MemLeaf r, pk, d, lpk))
        (pcb_split lib (b\<lparr>cb_buffer := Unpacked m, messages_preference := q\<rparr>) mn mx)"
      using d0(1) s node by (cases "pcb_split lib (b\<lparr>cb_buffer := Unpacked m, messages_preference := q\<rparr>) mn mx") (auto simp: node_split_def)
  qed (use d0(2) in \<open>auto simp: leaf_ok_def buffer_holds_def size_floor_def pcb_size_def\<close>)
qed

subsection \<open>Both halves of a node\<close>

text \<open>The keys a node holds itself, in its entries or its buffers.\<close>

fun node_keys_within :: "csum_lib \<Rightarrow> (bytes \<Rightarrow> bool) \<Rightarrow> node \<Rightarrow> bool" where
  "node_keys_within lib P (MemLeaf b) = (\<exists>m. contents lib b = Some m \<and> list_all (\<lambda>e. P (fst e)) m)"
| "node_keys_within lib P (CopylessInternal n) = keys_within lib P n"

definition child_keys :: "node \<Rightarrow> object_key option list" where
  "child_keys node = (case child_pointers node of None \<Rightarrow> [] | Some ps \<Rightarrow> map as_key ps)"

lemma pcb_split_halves:
  assumes ok: "leaf_ok lib b m" and split: "pcb_split lib b mn mx = Some (l, (r, pk, lpk), d)"
  shows "\<exists>L. leaf_ok lib l L" "\<exists>R. leaf_ok lib r R" "lpk = LRight pk" "mn \<le> pcb_size r"
    "node_value lib ma (MemLeaf (if k \<le> pk then l else r)) k x = node_value lib ma (MemLeaf b) k x"
    "node_keys_within lib (\<lambda>k. k \<le> pk) (MemLeaf l)" "node_keys_within lib (\<lambda>k. pk < k) (MemLeaf r)"
proof -
  obtain L R where LR: "m = L @ R" "L \<noteq> []" "cb_buffer l = Unpacked L" "cb_buffer r = Unpacked R"
    "pk = fst (last L)" "lpk = LRight pk" "is_leaf l = is_leaf b" "is_leaf r = is_leaf b"
    "mn \<le> entries_size r" "entries_size l + entries_size r = entries_size b"
    "entries_size r + 8 * length R = entry_sum entry_size R"
    using pcb_split_spec [OF leaf_ok_contents [OF ok] split] by blast
  have sorted: "sorted_keys (L @ R)" using leaf_ok_contents(2) [OF ok] LR(1) by simp
  have floor: "size_floor b (L @ R)" "is_leaf b" using ok LR(1) by (simp_all add: leaf_ok_def)
  have l: "leaf_ok lib l L"
    using LR(3,7,10,11) sorted floor by (intro leaf_okI) (auto simp: sorted_wrt_append size_floor_def)
  have r: "leaf_ok lib r R"
    using LR(4,8,11) sorted floor by (intro leaf_okI) (auto simp: sorted_wrt_append size_floor_def)
  show "\<exists>L. leaf_ok lib l L" "\<exists>R. leaf_ok lib r R" "lpk = LRight pk" "mn \<le> pcb_size r"
    using l r LR(6,9) by (auto simp: pcb_size_def)
  have "sorted_keys (butlast L @ [last L])" using sorted LR(2) by (simp add: sorted_wrt_append)
  then have "\<forall>e \<in> set (butlast L @ [last L]). fst e \<le> pk" by (auto simp: sorted_wrt_append LR(5))
  then have low: "\<forall>e \<in> set L. fst e \<le> pk" using LR(2) by simp
  have high: "\<forall>e \<in> set R. pk < fst e" using sorted LR(2,5) by (auto simp: sorted_wrt_append)
  show "node_keys_within lib (\<lambda>k. k \<le> pk) (MemLeaf l)" "node_keys_within lib (\<lambda>k. pk < k) (MemLeaf r)"
    using low high leaf_ok_contents(1) [OF l] leaf_ok_contents(1) [OF r] by (auto simp: list_all_iff)
  have "k \<le> pk \<Longrightarrow> bt_get R k = None" "\<not> k \<le> pk \<Longrightarrow> bt_get L k = None"
    using low high by (auto simp: bt_get_eq_None)
  then have "leaf_value m k = (if k \<le> pk then leaf_value L k else leaf_value R k)"
    by (auto simp: leaf_value_def LR(1) bt_get_concat split: option.splits)
  then show "node_value lib ma (MemLeaf (if k \<le> pk then l else r)) k x = node_value lib ma (MemLeaf b) k x"
    by (simp add: leaf_node_value [OF l] leaf_node_value [OF r] leaf_node_value [OF ok] del: node_value.simps)
qed

lemma in_split_children:
  assumes "in_wf lib node" "4 \<le> fanout node" "indexed node" "in_split node = Some (l, r, pk, d, lpk)"
  shows "map cl_buffer (children l) @ map cl_buffer (children r) = map cl_buffer (children node)"
    "map (\<lambda>c. as_key (cl_ptr c)) (children l) @ map (\<lambda>c. as_key (cl_ptr c)) (children r) = map (\<lambda>c. as_key (cl_ptr c)) (children node)"
    "im_level (meta_data l) = im_level (meta_data node)" "im_level (meta_data r) = im_level (meta_data node)"
proof -
  define i where "i = fanout node div 2"
  obtain cs' where parts: "children l = take i (children node)" "children r = cs'"
    "im_level (meta_data l) = im_level (meta_data node)" "im_level (meta_data r) = im_level (meta_data node)"
    "map cl_buffer cs' = map cl_buffer (drop i (children node))"
    "map (\<lambda>c. as_key (cl_ptr c)) cs' = map (\<lambda>c. as_key (cl_ptr c)) (drop i (children node))"
    by (rule in_split_parts [OF assms(1-3), folded i_def]) (use assms(4) in simp)
  show "map cl_buffer (children l) @ map cl_buffer (children r) = map cl_buffer (children node)"
    "map (\<lambda>c. as_key (cl_ptr c)) (children l) @ map (\<lambda>c. as_key (cl_ptr c)) (children r) = map (\<lambda>c. as_key (cl_ptr c)) (children node)"
    by (simp_all only: parts(1,2,5,6) map_append [symmetric] append_take_drop_id)
  show "im_level (meta_data l) = im_level (meta_data node)" "im_level (meta_data r) = im_level (meta_data node)"
    by (rule parts(3), rule parts(4))
qed

lemma pending_located: "pending lib ma n k d = (case located lib n k of None \<Rightarrow> None | Some (_, msg) \<Rightarrow> msg_effect ma k msg d)"
  by (simp add: pending_def located_def split: option.splits prod.splits)

lemma child_located: "map_option as_key (map_option fst (in_get lib n k)) = map_option fst (located lib n k)"
  by (simp add: located_def option.map_comp o_def case_prod_unfold)

lemma msgs_valid_buffers:
  "msgs_valid lib valid n \<longleftrightarrow> (\<forall>b \<in> set (map cl_buffer (children n)). \<exists>m. contents lib b = Some m \<and> valid_entries valid m)"
  by (simp add: msgs_valid_def)

text \<open>What a split promises of the halves \<open>l\<close> and \<open>r\<close> of a node.\<close>

definition halves :: "csum_lib \<Rightarrow> (bytes \<Rightarrow> bytes \<Rightarrow> bool) \<Rightarrow> msg_action \<Rightarrow> node \<Rightarrow> node \<Rightarrow> node \<Rightarrow> bytes \<Rightarrow> bool" where
  "halves lib valid ma node l r pk \<longleftrightarrow> node_ok lib valid l \<and> node_ok lib valid r
     \<and> node_level l = node_level node \<and> node_level r = node_level node
     \<and> node_keys_within lib (\<lambda>k. k \<le> pk) l \<and> node_keys_within lib (\<lambda>k. pk < k) r
     \<and> child_keys l @ child_keys r = child_keys node
     \<and> (\<forall>k. map_option as_key (node_child lib (if k \<le> pk then l else r) k) = map_option as_key (node_child lib node k))
     \<and> (\<forall>k d. node_value lib ma (if k \<le> pk then l else r) k d = node_value lib ma node k d)"

lemma leaf_halves:
  assumes ok: "leaf_ok lib b m" and split: "pcb_split lib b mn mx = Some (l, (r, pk, lpk), d)"
  shows "halves lib valid ma (MemLeaf b) (MemLeaf l) (MemLeaf r) pk"
  using pcb_split_halves [OF ok split]
  by (auto simp: halves_def child_keys_def if_distrib [of MemLeaf] simp del: node_value.simps node_keys_within.simps split: if_splits)

lemma inner_halves:
  assumes ok: "inner_ok lib valid n" and n: "4 \<le> fanout n" "indexed n" and split: "in_split n = Some (l, r, pk, d, lpk)"
  shows "halves lib valid ma (CopylessInternal n) (CopylessInternal l) (CopylessInternal r) pk"
proof -
  have wf: "in_wf lib n" using ok by (simp add: inner_ok_def)
  note facts = in_split_wf [OF wf n split] and cs = in_split_children [OF wf n split]
  have "set (map cl_buffer (children n)) = set (map cl_buffer (children l)) \<union> set (map cl_buffer (children r))"
    by (simp only: cs(1) [symmetric] set_append)
  then have "msgs_valid lib valid l" "msgs_valid lib valid r" using ok by (simp_all add: inner_ok_def msgs_valid_buffers)
  moreover have "pending lib ma (if k \<le> pk then l else r) k x = pending lib ma n k x" for k x
    by (simp only: pending_located facts(4))
  moreover have "map_option as_key (map_option fst (in_get lib (if k \<le> pk then l else r) k)) = map_option as_key (map_option fst (in_get lib n k))" for k
    by (simp only: child_located facts(4))
  ultimately show ?thesis
    using facts(1,2,9,10) cs(2-4)
    by (simp add: halves_def inner_ok_def child_keys_def o_def if_distrib [of CopylessInternal, symmetric] del: option.map_comp)
qed

subsection \<open>A new root\<close>

lemma buffer_holds_new: "buffer_holds lib (pcb_new False) []" "size_exact (pcb_new False) []" "\<not> is_leaf (pcb_new False)"
  "pcb_get lib (pcb_new False) k = Some None"
  by (simp_all add: pcb_new_def buffer_holds_def size_exact_def pcb_get_def)

lemma in_new_spec:
  fixes left right pk lv
  defines "b \<equiv> pcb_new False"
  defines "n \<equiv> in_new \<lparr>lk_ptr = left, lk_buffer = b, lk_buffer_size = pcb_size b\<rparr>
    \<lparr>lk_ptr = right, lk_buffer = b, lk_buffer_size = pcb_size b\<rparr> pk lv"
  shows "inner_ok lib valid n" "size_current n" "fanout n = 2" "pivots (meta_data n) = [pk]" "im_level (meta_data n) = lv"
    "in_get lib n k = Some (if k \<le> pk then left else right, None)" "map cl_ptr (children n) = [left, right]"
proof -
  have ok: "child_buffer_ok lib P b" for P unfolding b_def by (rule child_buffer_okI [OF buffer_holds_new(1-3)]) simp
  have wf: "in_wf lib n"
    by (rule in_wfI) (auto simp: n_def in_new_def ok less_Suc_eq)
  moreover have "msgs_valid lib valid n"
    using buffer_holds_reads(1) [OF buffer_holds_new(1), of lib] by (auto simp: msgs_valid_def n_def in_new_def valid_entries_def b_def)
  ultimately show "inner_ok lib valid n" by (simp add: inner_ok_def)
  show "size_current n" "fanout n = 2" "pivots (meta_data n) = [pk]" "im_level (meta_data n) = lv" "map cl_ptr (children n) = [left, right]"
    by (simp_all add: n_def in_new_def size_current_def recalc_size_def fanout_def)
  have "in_idx n k = (if k \<le> pk then 0 else 1)" by (auto simp: n_def in_new_def in_idx_def)
  then show "in_get lib n k = Some (if k \<le> pk then left else right, None)"
    using in_get_child(3) [OF wf, of k] by (auto simp: n_def in_new_def b_def buffer_holds_new)
qed

text \<open>Caching a preference does not change what a node means.\<close>

definition same_node :: "csum_lib \<Rightarrow> node \<Rightarrow> node \<Rightarrow> bool" where
  "same_node lib node node' \<longleftrightarrow> (case (node, node') of
     (MemLeaf b, MemLeaf b') \<Rightarrow> \<forall>m. leaf_ok lib b m \<longrightarrow> leaf_ok lib b' m \<and> pcb_size b' = pcb_size b
       \<and> system_storage_preference b' = system_storage_preference b
   | (CopylessInternal n, CopylessInternal n') \<Rightarrow> \<exists>p. n' = n\<lparr>meta_data := (meta_data n)\<lparr>im_pref := p\<rparr>\<rparr>
   | _ \<Rightarrow> False)"

lemma im_pref_irrelevant:
  fixes n p
  defines "n' \<equiv> n\<lparr>meta_data := (meta_data n)\<lparr>im_pref := p\<rparr>\<rparr>"
  shows "in_wf lib n' = in_wf lib n" "msgs_valid lib valid n' = msgs_valid lib valid n" "in_get lib n' k = in_get lib n k"
    "fanout n' = fanout n" "indexed n' = indexed n" "in_idx n' k = in_idx n k" "pending lib ma n' k x = pending lib ma n k x"
    "keys_within lib P n' = keys_within lib P n"
  by (simp_all add: n'_def in_wf_def msgs_valid_def in_get_def fanout_def indexed_def in_idx_def pending_def keys_within_def Let_def)

lemma same_node_refl: "same_node lib node node"
proof (cases node)
  case (CopylessInternal n)
  have "n = n\<lparr>meta_data := (meta_data n)\<lparr>im_pref := im_pref (meta_data n)\<rparr>\<rparr>" by simp
  then have "\<exists>p. n = n\<lparr>meta_data := (meta_data n)\<lparr>im_pref := p\<rparr>\<rparr>" by (rule exI)
  then show ?thesis by (simp add: same_node_def CopylessInternal)
qed (simp add: same_node_def)

lemma same_node_trans: "same_node lib a b \<Longrightarrow> same_node lib b c \<Longrightarrow> same_node lib a c"
  by (cases a; cases b; cases c) (auto simp: same_node_def)

lemma same_node_pref:
  assumes "node_correct_preference node = Some (p, node')"
  shows "same_node lib node node'"
proof (cases node)
  case (MemLeaf b)
  then have "node' = node \<or> (\<exists>q. node' = MemLeaf (b\<lparr>messages_preference := q\<rparr>))"
    using assms by (auto simp: node_correct_preference_def pcb_recalculate_def bind_eq_Some_conv Let_def split: option.splits cb_map.splits)
  then show ?thesis
    using MemLeaf same_node_refl [of lib node]
    by (auto simp: same_node_def leaf_ok_def buffer_holds_def size_floor_def pcb_size_def)
next
  case (CopylessInternal n)
  then have "node' = node \<or> (\<exists>q. node' = CopylessInternal (n\<lparr>meta_data := (meta_data n)\<lparr>im_pref := q\<rparr>\<rparr>))"
    using assms by (auto simp: node_correct_preference_def in_recalculate_def bind_eq_Some_conv Let_def split: option.splits)
  then show ?thesis using CopylessInternal same_node_refl [of lib node] by (auto simp: same_node_def)
qed

lemma same_node_sizes:
  "min_size sm node = Some (s, node') \<Longrightarrow> same_node lib node node'"
  "max_size sm node = Some (s, node') \<Longrightarrow> same_node lib node node'"
  using same_node_pref by (fastforce simp: min_size_def max_size_def bind_eq_Some_conv)+

lemma same_node_unpacked:
  assumes "node_ok lib valid node" "ensure_unpacked lib node = Some (node', d)"
  shows "same_node lib node node'"
proof (cases node)
  case (MemLeaf b)
  then obtain m where m: "leaf_ok lib b m" using assms(1) by auto
  obtain d' where "ensure_unpacked lib (MemLeaf b) = Some (MemLeaf (b\<lparr>cb_buffer := Unpacked m\<rparr>), d')"
    "leaf_ok lib (b\<lparr>cb_buffer := Unpacked m\<rparr>) m" by (rule ensure_unpacked_leaf [OF m])
  moreover have "m' = m" if "leaf_ok lib b m'" for m' using leaf_ok_contents(1) [OF m] leaf_ok_contents(1) [OF that] by simp
  ultimately show ?thesis using assms(2) MemLeaf by (auto simp: same_node_def pcb_size_def)
next
  case (CopylessInternal n)
  then show ?thesis using assms(2) same_node_refl by simp
qed

lemma same_node_meaning:
  assumes "same_node lib node node'" "node_ok lib valid node"
  shows "node_ok lib valid node'" "node_value lib ma node' k x = node_value lib ma node k x" "node_child lib node' k = node_child lib node k"
    "child_pointers node' = child_pointers node" "node_level node' = node_level node" "inner_size node' = inner_size node"
proof -
  have "node_ok lib valid node' \<and> node_value lib ma node' k x = node_value lib ma node k x \<and> node_child lib node' k = node_child lib node k
    \<and> child_pointers node' = child_pointers node \<and> node_level node' = node_level node \<and> inner_size node' = inner_size node"
  proof (cases node)
    case (MemLeaf b)
    then obtain b' m where "node' = MemLeaf b'" "leaf_ok lib b m" "leaf_ok lib b' m" "pcb_size b' = pcb_size b"
      using assms by (cases node') (auto simp: same_node_def)
    then show ?thesis using MemLeaf leaf_node_value [of lib b m ma k x] leaf_node_value [of lib b' m ma k x] by auto
  next
    case (CopylessInternal n)
    then obtain p where "node' = CopylessInternal (n\<lparr>meta_data := (meta_data n)\<lparr>im_pref := p\<rparr>\<rparr>)"
      using assms by (cases node') (auto simp: same_node_def)
    then show ?thesis using assms(2) CopylessInternal
      by (simp add: im_pref_irrelevant inner_ok_def in_size_def)
  qed
  then show "node_ok lib valid node'" "node_value lib ma node' k x = node_value lib ma node k x" "node_child lib node' k = node_child lib node k"
    "child_pointers node' = child_pointers node" "node_level node' = node_level node" "inner_size node' = inner_size node" by simp_all
qed

lemma halves_same_node:
  assumes "same_node lib node node'" "node_ok lib valid node" "halves lib valid ma node' l r pk"
  shows "halves lib valid ma node l r pk"
  using assms(3) same_node_meaning [OF assms(1,2)] by (simp add: halves_def child_keys_def)

definition splittable :: "node \<Rightarrow> bool" where
  "splittable node \<longleftrightarrow> (case node of MemLeaf _ \<Rightarrow> True | CopylessInternal n \<Rightarrow> 4 \<le> fanout n \<and> indexed n)"

lemma same_node_splittable: "same_node lib node node' \<Longrightarrow> splittable node' = splittable node"
  by (cases node; cases node') (auto simp: same_node_def splittable_def im_pref_irrelevant)

lemma node_split_spec:
  assumes ok: "node_ok lib valid node" "splittable node" and split: "node_split lib sm node = Some (l, r, pk, d, lpk)"
  shows "halves lib valid ma node l r pk" "lpk = LRight pk"
proof -
  obtain n0 d0 mn n1 mx n2 where n: "ensure_unpacked lib node = Some (n0, d0)" "min_size sm n0 = Some (mn, n1)" "min_size sm n1 = Some (mx, n2)"
    using split by (auto simp: node_split_def bind_eq_Some_conv)
  have same: "same_node lib node n2"
    by (rule same_node_trans [OF same_node_unpacked [OF ok(1) n(1)] same_node_trans [OF same_node_sizes(1) [OF n(2)] same_node_sizes(1) [OF n(3)]]])
  note ok' = same_node_meaning(1) [OF same ok(1)] and sp = same_node_splittable [OF same]
  have "halves lib valid ma n2 l r pk \<and> lpk = LRight pk"
  proof (cases n2)
    case (MemLeaf b)
    then obtain m where m: "leaf_ok lib b m" using ok' by auto
    from split n MemLeaf obtain mn' mx' l' r' where "pcb_split lib b mn' mx' = Some (l', (r', pk, lpk), d)" "l = MemLeaf l'" "r = MemLeaf r'"
      by (auto simp: node_split_def bind_eq_Some_conv)
    then show ?thesis using leaf_halves [OF m] pcb_split_halves(3) [OF m] MemLeaf by auto
  next
    case (CopylessInternal i)
    from split n CopylessInternal obtain l' r' where s: "in_split i = Some (l', r', pk, d, lpk)" "l = CopylessInternal l'" "r = CopylessInternal r'"
      by (auto simp: node_split_def bind_eq_Some_conv split: if_splits)
    have i: "inner_ok lib valid i" "4 \<le> fanout i" "indexed i" using ok' sp ok(2) CopylessInternal by (simp_all add: splittable_def)
    then have "in_wf lib i" by (simp add: inner_ok_def)
    then show ?thesis using inner_halves [OF i s(1)] in_split_wf(5) [OF _ i(2,3) s(1)] s CopylessInternal by simp
  qed
  then show "halves lib valid ma node l r pk" "lpk = LRight pk" using halves_same_node [OF same ok(1)] by auto
qed

lemma split_siblings_halves:
  assumes ok: "node_ok lib valid node" "splittable node" and split: "split_siblings lib mn mx node = Some (l, r, pk, lv)"
  shows "halves lib valid ma node l r pk \<and> lv = node_level node"
proof (cases node)
  case (MemLeaf b)
  then obtain m where m: "leaf_ok lib b m" using ok by auto
  from split MemLeaf obtain mn' mx' l' r' lpk d where "pcb_split lib b mn' mx' = Some (l', (r', pk, lpk), d)"
    "l = MemLeaf l'" "r = MemLeaf r'" "lv = 0" by (auto simp: bind_eq_Some_conv)
  then show ?thesis using leaf_halves [OF m] MemLeaf by auto
next
  case (CopylessInternal i)
  from split CopylessInternal obtain l' r' d lpk where s: "in_split i = Some (l', r', pk, d, lpk)"
    "l = CopylessInternal l'" "r = CopylessInternal r'" "lv = im_level (meta_data l')" by (auto simp: bind_eq_Some_conv)
  have i: "inner_ok lib valid i" "4 \<le> fanout i" "indexed i" using ok CopylessInternal by (simp_all add: splittable_def)
  then have "in_wf lib i" by (simp add: inner_ok_def)
  from in_split_children(3) [OF this i(2,3) s(1)] show ?thesis using inner_halves [OF i s(1)] s CopylessInternal by simp
qed

text \<open>The root that \<open>split_root_mut\<close> makes: two children, no messages, and the halves of the old root below.\<close>

lemma split_root_spec:
  assumes ok: "node_ok lib valid node" "splittable node"
    and split: "split_root_mut lib sm allocate_obj s node = Some (s', node', d)"
  obtains n l r pk s1 lp rp where "node' = CopylessInternal n" "inner_ok lib valid n" "size_current n" "pivots (meta_data n) = [pk]"
    "im_level (meta_data n) = node_level node + 1" "map cl_ptr (children n) = [lp, rp]"
    "\<And>k. in_get lib n k = Some (if k \<le> pk then lp else rp, None)"
    "allocate_obj s l (LLeftOuter pk) = (s1, lp)" "allocate_obj s1 r (LRight pk) = (s', rp)"
    "halves lib valid ma node l r pk"
proof -
  have "\<exists>p n00 n0 d0 mn n1 mx n2 l r pk lv. node_correct_preference node = Some (p, n00) \<and> ensure_unpacked lib n00 = Some (n0, d0)
    \<and> min_size sm n0 = Some (mn, n1) \<and> max_size sm n1 = Some (mx, n2) \<and> split_siblings lib mn mx n2 = Some (l, r, pk, lv)"
    using split by (simp add: split_root_mut_def bind_eq_Some_conv node_take_def) blast
  then obtain p n00 n0 d0 mn n1 mx n2 l r pk lv where n: "node_correct_preference node = Some (p, n00)" "ensure_unpacked lib n00 = Some (n0, d0)"
    "min_size sm n0 = Some (mn, n1)" "max_size sm n1 = Some (mx, n2)" "split_siblings lib mn mx n2 = Some (l, r, pk, lv)" by (elim exE conjE)
  note pref = same_node_pref [OF n(1)]
  have same: "same_node lib node n2"
    by (rule same_node_trans [OF pref same_node_trans [OF same_node_unpacked [OF same_node_meaning(1) [OF pref ok(1)] n(2)]
          same_node_trans [OF same_node_sizes(1) [OF n(3)] same_node_sizes(2) [OF n(4)]]]])
  note ok' = same_node_meaning(1) [OF same ok(1)] and sp = same_node_splittable [OF same]
  have sib: "halves lib valid ma n2 l r pk \<and> lv = node_level n2"
    by (rule split_siblings_halves [OF ok' _ n(5)]) (simp add: sp ok(2))
  obtain s1 lp where lp: "allocate_obj s l (LLeftOuter pk) = (s1, lp)" by (cases "allocate_obj s l (LLeftOuter pk)")
  obtain s2 rp where rp: "allocate_obj s1 r (LRight pk) = (s2, rp)" by (cases "allocate_obj s1 r (LRight pk)")
  let ?b = "pcb_new False"
  let ?n = "in_new \<lparr>lk_ptr = lp, lk_buffer = ?b, lk_buffer_size = pcb_size ?b\<rparr> \<lparr>lk_ptr = rp, lk_buffer = ?b, lk_buffer_size = pcb_size ?b\<rparr> pk (node_level n2 + 1)"
  have "s2 = s' \<and> node' = CopylessInternal ?n"
    using split n lp rp sib by (simp add: split_root_mut_def Let_def node_take_def split: if_splits)
  moreover have "node_level n2 = node_level node" by (rule same_node_meaning(5) [OF same ok(1)])
  ultimately show ?thesis
    using that [of ?n pk lp rp l s1 r] in_new_spec [where left = lp and right = rp and pk = pk and lv = "node_level n2 + 1"] lp rp halves_same_node [OF same ok(1)] sib by simp
qed

subsection \<open>Merging and rebalancing neighbours\<close>

text \<open>Two nodes are neighbours at a pivot when their keys lie on its sides.\<close>

definition neighbours :: "csum_lib \<Rightarrow> (bytes \<Rightarrow> bytes \<Rightarrow> bool) \<Rightarrow> node \<Rightarrow> node \<Rightarrow> bytes \<Rightarrow> bool" where
  "neighbours lib valid l r pk \<longleftrightarrow> node_ok lib valid l \<and> node_ok lib valid r \<and> node_level r = node_level l
     \<and> node_keys_within lib (\<lambda>k. k \<le> pk) l \<and> node_keys_within lib (\<lambda>k. pk < k) r
     \<and> (case (l, r) of (MemLeaf _, MemLeaf _) \<Rightarrow> True
        | (CopylessInternal a, CopylessInternal b) \<Rightarrow> sorted_wrt (<) (pivots (meta_data a) @ pk # pivots (meta_data b))
        | _ \<Rightarrow> False)"

lemma leaf_append:
  assumes l: "leaf_ok lib l L" "\<forall>e \<in> set L. fst e \<le> pk" and r: "leaf_ok lib r R" "\<forall>e \<in> set R. pk < fst e"
  obtains b r' d where "pcb_append lib l r = Some (b, r', d)" "leaf_ok lib b (L @ R)"
    "entries_size b = entries_size l + entries_size r"
    "\<And>ma k x. node_value lib ma (MemLeaf b) k x = node_value lib ma (MemLeaf (if k \<le> pk then l else r)) k x"
proof -
  have less: "\<forall>j \<in> fst ` set L. \<forall>k \<in> fst ` set R. j < k" using l(2) r(2) by force
  obtain b r' d where b: "pcb_append lib l r = Some (b, r', d)" "cb_buffer b = Unpacked (L @ R)"
    "excess b (L @ R) = excess l L + excess r R" "is_leaf b = is_leaf l" "entries_size b = entries_size l + entries_size r"
    using pcb_append_contents [OF leaf_ok_contents(1) [OF l(1)] leaf_ok_contents [OF r(1)] less] by blast
  have sorted: "sorted_keys (L @ R)"
    using leaf_ok_contents(2) [OF l(1)] leaf_ok_contents(2) [OF r(1)] less by (simp add: sorted_wrt_append)
  have "is_leaf l" "size_floor l L" "size_floor r R" using l(1) r(1) by (simp_all add: leaf_ok_def)
  then have ok: "leaf_ok lib b (L @ R)" using b sorted by (intro leaf_okI) (simp_all add: size_floor_excess)
  have "k \<le> pk \<Longrightarrow> bt_get R k = None" "\<not> k \<le> pk \<Longrightarrow> bt_get L k = None" for k
    using l(2) r(2) by (auto simp: bt_get_eq_None)
  then have "leaf_value (L @ R) k = (if k \<le> pk then leaf_value L k else leaf_value R k)" for k
    by (auto simp: leaf_value_def bt_get_concat split: option.splits)
  then show ?thesis
    using that [OF b(1) ok b(5)] by (simp add: leaf_node_value [OF l(1)] leaf_node_value [OF r(1)] leaf_node_value [OF ok] del: node_value.simps)
qed

lemma leaf_keys_within:
  "leaf_ok lib b m \<Longrightarrow> node_keys_within lib P (MemLeaf b) \<longleftrightarrow> (\<forall>e \<in> set m. P (fst e))"
  using leaf_ok_contents(1) by (auto simp: list_all_iff)

lemma node_merge_spec:
  assumes nb: "neighbours lib valid l r pk"
  obtains n r' d where "node_merge lib l r pk = Some (n, r', d)" "\<And>ma. halves lib valid ma n l r pk"
proof (cases l)
  case (MemLeaf a)
  then obtain b where r: "r = MemLeaf b" using nb by (cases r) (auto simp: neighbours_def)
  obtain L R where LR: "leaf_ok lib a L" "leaf_ok lib b R" using nb MemLeaf r by (auto simp: neighbours_def)
  then have keys: "\<forall>e \<in> set L. fst e \<le> pk" "\<forall>e \<in> set R. pk < fst e"
    using nb MemLeaf r by (simp_all add: neighbours_def leaf_keys_within del: node_keys_within.simps)
  obtain d0 where a: "ensure_unpacked lib (MemLeaf a) = Some (MemLeaf (a\<lparr>cb_buffer := Unpacked L\<rparr>), d0)" "leaf_ok lib (a\<lparr>cb_buffer := Unpacked L\<rparr>) L"
    by (rule ensure_unpacked_leaf [OF LR(1)])
  obtain d1 where b: "ensure_unpacked lib (MemLeaf b) = Some (MemLeaf (b\<lparr>cb_buffer := Unpacked R\<rparr>), d1)" "leaf_ok lib (b\<lparr>cb_buffer := Unpacked R\<rparr>) R"
    by (rule ensure_unpacked_leaf [OF LR(2)])
  obtain n r' d where n: "pcb_append lib (a\<lparr>cb_buffer := Unpacked L\<rparr>) (b\<lparr>cb_buffer := Unpacked R\<rparr>) = Some (n, r', d)" "leaf_ok lib n (L @ R)"
    "\<And>ma k x. node_value lib ma (MemLeaf n) k x = node_value lib ma (MemLeaf (if k \<le> pk then a\<lparr>cb_buffer := Unpacked L\<rparr> else b\<lparr>cb_buffer := Unpacked R\<rparr>)) k x"
    using leaf_append [OF a(2) keys(1) b(2) keys(2)] by metis
  have "node_value lib ma (MemLeaf n) k x = node_value lib ma (if k \<le> pk then l else r) k x" for ma k x
    using n(3) LR a(2) b(2) MemLeaf r by (simp add: leaf_node_value del: node_value.simps)
  moreover have "node_merge lib l r pk = Some (MemLeaf n, MemLeaf r', d0 + d)"
    using a(1) b(1) n(1) MemLeaf r by (simp add: node_merge_def)
  ultimately show ?thesis
    using that [of "MemLeaf n" "MemLeaf r'"] n(2) nb MemLeaf r by (auto simp: halves_def neighbours_def child_keys_def simp del: node_value.simps)
next
  case (CopylessInternal a)
  then obtain b where r: "r = CopylessInternal b" using nb by (cases r) (auto simp: neighbours_def)
  have ab: "in_wf lib a" "keys_within lib (\<lambda>k. k \<le> pk) a" "in_wf lib b" "keys_within lib (\<lambda>k. pk < k) b"
    "sorted_wrt (<) (pivots (meta_data a) @ pk # pivots (meta_data b))" "msgs_valid lib valid a" "msgs_valid lib valid b"
    using nb CopylessInternal r by (simp_all add: neighbours_def inner_ok_def)
  obtain n r' d where merge: "in_merge a b pk = (n, r', d)" by (cases "in_merge a b pk")
  note M = in_merge_wf [OF ab(1-5) merge]
  have "im_level (meta_data n) = im_level (meta_data a)" using merge by (auto simp: in_merge_def Let_def)
  moreover have "msgs_valid lib valid n" using ab(6,7) by (auto simp: msgs_valid_def M(4))
  moreover have "pending lib ma n k x = pending lib ma (if k \<le> pk then a else b) k x" for ma k x
    by (simp only: pending_located M(2))
  moreover have "map_option as_key (map_option fst (in_get lib n k)) = map_option as_key (map_option fst (in_get lib (if k \<le> pk then a else b) k))" for k
    by (simp only: child_located M(2))
  ultimately have "halves lib valid ma (CopylessInternal n) l r pk" for ma
    using nb CopylessInternal r M(1,4)
    by (simp add: halves_def neighbours_def inner_ok_def child_keys_def if_distrib [of CopylessInternal, symmetric] del: option.map_comp)
  moreover have "node_merge lib l r pk = Some (CopylessInternal n, CopylessInternal r', 0 + d)"
    using merge CopylessInternal r by (simp add: node_merge_def)
  ultimately show ?thesis using that by blast
qed

text \<open>The values of two neighbours after \<open>leaf_rebalance\<close>, in the merged leaf or on the sides of the new pivot.\<close>

lemma leaf_rebalance_spec:
  assumes nb: "neighbours lib valid (MemLeaf a) (MemLeaf b) pk"
    and res: "leaf_rebalance lib sm (MemLeaf a) (MemLeaf b) = Some (l, r, fill)"
  shows "case fill of Merged d \<Rightarrow> halves lib valid ma l (MemLeaf a) (MemLeaf b) pk
    | Rebalanced pk' d \<Rightarrow> neighbours lib valid l r pk'
       \<and> (\<forall>k x. node_value lib ma (if k \<le> pk' then l else r) k x = node_value lib ma (if k \<le> pk then MemLeaf a else MemLeaf b) k x)"
proof -
  obtain L R where LR: "leaf_ok lib a L" "leaf_ok lib b R" using nb by (auto simp: neighbours_def)
  then have keys: "\<forall>e \<in> set L. fst e \<le> pk" "\<forall>e \<in> set R. pk < fst e"
    using nb by (simp_all add: neighbours_def leaf_keys_within del: node_keys_within.simps)
  obtain d1 where b: "ensure_unpacked lib (MemLeaf b) = Some (MemLeaf (b\<lparr>cb_buffer := Unpacked R\<rparr>), d1)" "leaf_ok lib (b\<lparr>cb_buffer := Unpacked R\<rparr>) R"
    by (rule ensure_unpacked_leaf [OF LR(2)])
  obtain n0 d0 mn n1 mx n2 where n: "ensure_unpacked lib (MemLeaf a) = Some (n0, d0)" "min_size sm n0 = Some (mn, n1)" "min_size sm n1 = Some (mx, n2)"
    using res b(1) by (auto simp: leaf_rebalance_def bind_eq_Some_conv)
  have ok: "node_ok lib valid (MemLeaf a)" using LR by auto
  have "same_node lib (MemLeaf a) n2"
    by (rule same_node_trans [OF same_node_unpacked [OF ok n(1)] same_node_trans [OF same_node_sizes(1) [OF n(2)] same_node_sizes(1) [OF n(3)]]])
  then obtain a' where a': "n2 = MemLeaf a'" "leaf_ok lib a' L" using LR(1) by (cases n2) (auto simp: same_node_def)
  obtain c r' d where c: "pcb_append lib a' (b\<lparr>cb_buffer := Unpacked R\<rparr>) = Some (c, r', d)" "leaf_ok lib c (L @ R)"
    "\<And>ma k x. node_value lib ma (MemLeaf c) k x = node_value lib ma (MemLeaf (if k \<le> pk then a' else b\<lparr>cb_buffer := Unpacked R\<rparr>)) k x"
    using leaf_append [OF a'(2) keys(1) b(2) keys(2)] by metis
  have val: "node_value lib ma (MemLeaf c) k x = node_value lib ma (if k \<le> pk then MemLeaf a else MemLeaf b) k x" for k x
    using c(3) LR a'(2) b(2) by (simp add: leaf_node_value del: node_value.simps)
  obtain mn' mx' l' r'' where res': "pcb_rebalance_size lib a' (b\<lparr>cb_buffer := Unpacked R\<rparr>) mn' mx' = Some (l', r'', fill)" "l = MemLeaf l'" "r = MemLeaf r''"
    using res n b(1) a'(1) by (auto simp: leaf_rebalance_def bind_eq_Some_conv)
  show ?thesis
  proof (cases "pcb_size c \<le> mx'")
    case True
    then have "l' = c" "fill = Merged d" using res'(1) c(1) by (auto simp: pcb_rebalance_size_def)
    then show ?thesis using val nb c(2) res'(2) by (auto simp: halves_def neighbours_def child_keys_def simp del: node_value.simps)
  next
    case False
    then obtain pk' lpk d' where split: "pcb_split lib c mn' mx' = Some (l', (r'', pk', lpk), d')" "fill = Rebalanced pk' (d + d')"
      using res'(1) c(1) by (auto simp: pcb_rebalance_size_def bind_eq_Some_conv)
    note H = pcb_split_halves [OF c(2) split(1)]
    have "neighbours lib valid l r pk'" using H(1,2,6,7) res'(2,3) by (auto simp: neighbours_def)
    moreover have "node_value lib ma (if k \<le> pk' then l else r) k x = node_value lib ma (if k \<le> pk then MemLeaf a else MemLeaf b) k x" for k x
      using H(5) [of ma k x] val [of k x] res'(2,3) by (simp only: if_distrib [of MemLeaf])
    ultimately show ?thesis using split(2) by simp
  qed
qed

subsection \<open>Correctness of splitting leaves\<close>


definition memory_map :: storage_map where
  "memory_map = \<lparr>sm_map = [Memory, Memory, Memory, Memory], sm_default = Memory\<rparr>"

definition sized_leaf :: "nat \<Rightarrow> nat \<Rightarrow> entries" where
  "sized_leaf first rest = [([0], \<lparr>ki_pref = NONE\<rparr>, replicate first 7), ([1], \<lparr>ki_pref = NONE\<rparr>, replicate rest 7), ([2], \<lparr>ki_pref = NONE\<rparr>, replicate rest 7)]"

definition leaf_of :: "entries \<Rightarrow> packed_child_buffer" where
  "leaf_of m = (pcb_new True)\<lparr>cb_buffer := Unpacked m, entries_size := entry_sum entry_size m\<rparr>"

lemma leaf_of_ok: "sorted_keys m \<Longrightarrow> leaf_ok lib (leaf_of m) m"
  by (rule leaf_okI) (simp_all add: leaf_of_def pcb_new_def size_floor_def)

lemma sized_leaf_facts:
  "sorted_keys (sized_leaf first rest)" "length (sized_leaf first rest) = 3"
  "pcb_size (leaf_of (sized_leaf first rest)) = 88 + first + 2 * rest" "scan_size (tl (sized_leaf first rest)) = 36 + 2 * rest"
  by (simp_all add: sized_leaf_def leaf_of_def pcb_new_def pcb_size_def HEADER_def scan_size_def entry_size_def cow_size_def value_size_def
      key_info_size_def CSUM_SIZE_def PER_KEY_BYTES_def)

lemma leaf_of_limits:
  "leaf_limits lib memory_map (MemLeaf (leaf_of m)) = Some (kib 128, kib 128, MemLeaf (leaf_of m))"
  "leaf_is_too_large root memory_map (MemLeaf (leaf_of m)) = Some (pcb_size (leaf_of m) > kib 512, MemLeaf (leaf_of m))"
  by (simp_all add: leaf_limits_def leaf_of_def pcb_unpack_data_def min_size_def max_size_def node_correct_preference_def pcb_current_preference_def
      leaf_is_too_large_def node_is_too_large_def pcb_new_def as_option_def atomic_known_def system_from_def pref_consts weak_bound_def
      storage_map_get_def memory_map_def nth_opt_def)



end
