(* ===== verification/NodeLayout.thy ===== *)
theory NodeLayout
  imports NodeSplit
begin

text \<open>
  Storing a node and reading it back (\<^verbatim>\<open>Object::pack\<close> and \<^verbatim>\<open>Object::unpack_at\<close> for \<^verbatim>\<open>Node\<close> in
  \<^verbatim>\<open>betree/src/tree/imp/node.rs\<close>). The node that comes back differs only in the representation
  of its buffers (\<open>node_equiv\<close>): it directs every key to the same child, gives it the same value
  and can be stored again.
\<close>

fun node_equiv :: "csum_lib \<Rightarrow> node \<Rightarrow> node \<Rightarrow> bool" where
  "node_equiv lib (MemLeaf b) (MemLeaf b') = same_buffer lib b b'"
| "node_equiv lib (CopylessInternal n) (CopylessInternal n') = same_inner lib n n'"
| "node_equiv lib _ _ = False"

text \<open>Nodes that can be stored: sizes are exact, children are on disk and labelled.\<close>

fun storable_node :: "node_codec \<Rightarrow> csum_lib \<Rightarrow> dataset_id \<Rightarrow> node \<Rightarrow> bool" where
  "storable_node nc lib d_id (MemLeaf b) = (is_leaf b \<and> node_size (MemLeaf b) < 2 ^ 32 \<and> (\<exists>m. packable lib b m))"
| "storable_node nc lib d_id (CopylessInternal n) = (in_wf lib n \<and> labelled d_id n \<and> pivots (meta_data n) \<noteq> []
     \<and> (\<exists>ptrs ms. node_codec_ok nc (meta_data n) ptrs \<and> node_storable lib n ptrs ms))"

lemma buffer_holds_unique: "buffer_holds lib b m \<Longrightarrow> buffer_holds lib b m' \<Longrightarrow> m' = m"
  using buffer_holds_reads(1) [of lib b m] buffer_holds_reads(1) [of lib b m'] by simp

lemma same_buffer_holds: "same_buffer lib b b' \<Longrightarrow> buffer_holds lib b m \<longleftrightarrow> buffer_holds lib b' m"
  using buffer_holds_unique unfolding same_buffer_def by blast

lemma same_buffer_leaf: "same_buffer lib b b' \<Longrightarrow> leaf_ok lib b m \<Longrightarrow> leaf_ok lib b' m"
  using same_buffer_holds [of lib b b' m] by (auto simp: leaf_ok_def same_buffer_def size_floor_def)

lemma same_buffer_child: "same_buffer lib b b' \<Longrightarrow> child_buffer_ok lib P b \<Longrightarrow> child_buffer_ok lib P b'"
  using same_buffer_holds [of lib b b'] by (auto simp: child_buffer_ok_def same_buffer_def size_exact_def)

lemma same_buffer_get:
  assumes "same_buffer lib b b'"
  shows "pcb_get lib b' k = pcb_get lib b k" "contents lib b' = contents lib b"
proof -
  obtain m where m: "buffer_holds lib b m" "buffer_holds lib b' m" using assms by (auto simp: same_buffer_def)
  from buffer_holds_reads(1,2) [OF m(1)] buffer_holds_reads(1,2) [OF m(2)]
  show "pcb_get lib b' k = pcb_get lib b k" "contents lib b' = contents lib b" by simp_all
qed

lemma same_inner_child:
  assumes "same_inner lib n n'" "i < length (children n)"
  shows "cl_ptr (children n' ! i) = cl_ptr (children n ! i)" "same_buffer lib (cl_buffer (children n ! i)) (cl_buffer (children n' ! i))"
  using assms by (auto simp: same_inner_def list_all2_conv_all_nth)

lemma same_inner_wf:
  assumes same: "same_inner lib n n'" and wf: "in_wf lib n"
  shows "in_wf lib n'" "in_get lib n' k = in_get lib n k" "msgs_valid lib valid n \<Longrightarrow> msgs_valid lib valid n'"
    "map cl_ptr (children n') = map cl_ptr (children n)"
proof -
  note D = in_wfD [OF wf]
  have md: "meta_data n' = meta_data n" "length (children n') = length (children n)"
    using same by (auto simp: same_inner_def dest: list_all2_lengthD)
  show ptrs: "map cl_ptr (children n') = map cl_ptr (children n)"
    by (rule nth_equalityI) (use md(2) same_inner_child(1) [OF same] in auto)
  show wf': "in_wf lib n'"
  proof (rule in_wfI)
    show "entries_sizes (meta_data n') = map (\<lambda>c. pcb_size (cl_buffer c)) (children n')"
      unfolding md(1) D(3) by (rule nth_equalityI) (use md(2) same_inner_child(2) [OF same] in \<open>auto simp: same_buffer_def pcb_size_def\<close>)
  qed (use D md same_buffer_child [OF same_inner_child(2) [OF same]] in auto)
  have i: "pivots_below (pivots (meta_data n)) k < length (children n)"
    using pivots_below_le [of "pivots (meta_data n)" k] D(2) by simp
  show "in_get lib n' k = in_get lib n k"
    using same_inner_child [OF same i] same_buffer_get(1) [of lib _ _ k]
    by (simp add: in_get_wf [OF wf] in_get_wf [OF wf'] md(1) Let_def)
  show "msgs_valid lib valid n'" if "msgs_valid lib valid n"
    using that md(2) same_inner_child(2) [OF same, THEN same_buffer_get(2)]
    by (auto simp: msgs_valid_def in_set_conv_nth) (metis nth_mem)
qed

lemma node_equiv_meaning:
  assumes "node_equiv lib node node'" "node_ok lib valid node"
  shows "node_ok lib valid node'" "node_value lib ma node' k x = node_value lib ma node k x" "node_child lib node' k = node_child lib node k"
    "child_pointers node' = child_pointers node" "node_level node' = node_level node" "inner_size node' = inner_size node"
proof -
  have "node_ok lib valid node' \<and> node_value lib ma node' k x = node_value lib ma node k x \<and> node_child lib node' k = node_child lib node k
    \<and> child_pointers node' = child_pointers node \<and> node_level node' = node_level node \<and> inner_size node' = inner_size node"
  proof (cases node)
    case (MemLeaf b)
    then obtain b' where b': "node' = MemLeaf b'" "same_buffer lib b b'" using assms(1) by (cases node') auto
    obtain m where "leaf_ok lib b m" using assms(2) MemLeaf by auto
    then show ?thesis using MemLeaf b' same_buffer_leaf [OF b'(2)] same_buffer_get(1) [OF b'(2)]
      by (auto simp: same_buffer_def pcb_size_def)
  next
    case (CopylessInternal n)
    then obtain n' where n': "node' = CopylessInternal n'" "same_inner lib n n'" using assms(1) by (cases node') auto
    have wf: "in_wf lib n" "msgs_valid lib valid n" using assms(2) CopylessInternal by (simp_all add: inner_ok_def)
    have "meta_data n' = meta_data n" "length (children n') = length (children n)"
      using n'(2) by (auto simp: same_inner_def dest: list_all2_lengthD)
    then show ?thesis using CopylessInternal n'(1) same_inner_wf [OF n'(2) wf(1)] wf(2)
      by (simp add: inner_ok_def pending_def in_size_def)
  qed
  then show "node_ok lib valid node'" "node_value lib ma node' k x = node_value lib ma node k x" "node_child lib node' k = node_child lib node k"
    "child_pointers node' = child_pointers node" "node_level node' = node_level node" "inner_size node' = inner_size node" by simp_all
qed

lemma same_buffer_trans: "same_buffer lib a b \<Longrightarrow> same_buffer lib b c \<Longrightarrow> same_buffer lib a c"
  using same_buffer_holds [of lib b c] by (auto simp: same_buffer_def)

lemma node_equiv_trans: "node_equiv lib a b \<Longrightarrow> node_equiv lib b c \<Longrightarrow> node_equiv lib a c"
proof (cases a; cases b; cases c; simp)
  fix x y z assume "same_buffer lib x y" "same_buffer lib y z"
  then show "same_buffer lib x z" by (rule same_buffer_trans)
next
  fix x y z assume xy: "same_inner lib x y" and yz: "same_inner lib y z"
  then have "same_buffer lib (cl_buffer (children x ! i)) (cl_buffer (children z ! i))" if "i < length (children x)" for i
    using that same_buffer_trans by (fastforce simp: same_inner_def list_all2_conv_all_nth)
  with xy yz show "same_inner lib x z" by (simp add: same_inner_def list_all2_conv_all_nth)
qed

lemma node_equiv_refl: "node_ok lib valid node \<Longrightarrow> node_equiv lib node node"
proof (cases node)
  case (MemLeaf b)
  then show "node_ok lib valid node \<Longrightarrow> node_equiv lib node node" by (auto simp: leaf_ok_def same_buffer_def)
next
  case (CopylessInternal n)
  have "same_buffer lib b b" if "child_buffer_ok lib P b" for P b using that by (auto simp: child_buffer_ok_def same_buffer_def)
  then show "node_ok lib valid node \<Longrightarrow> node_equiv lib node node"
    using CopylessInternal in_wfD(5) by (simp add: inner_ok_def same_inner_def list_all2_conv_all_nth) blast
qed

subsection \<open>Writing and reading\<close>

lemma node_tag_facts:
  "length (node_tag n) = 4" "node_tag COPYLESS_LEAF \<noteq> node_tag COPYLESS_INTERNAL"
  by (simp_all add: node_tag_def NODE_PREFIX_LEN_def COPYLESS_LEAF_def COPYLESS_INTERNAL_def to_le_4)

lemma leaf_stored:
  assumes codec: "csum_codec lib" and st: "storable_node nc lib d_id (MemLeaf b)" and small: "node_size (MemLeaf b) + length pad < 2 ^ 32"
  obtains out mode node' where "node_pack nc lib (MemLeaf b) = Some (Some (out, mode))" "length out = node_size (MemLeaf b)"
    "node_unpack_at nc lib d_id (out @ pad) mode = Some (Some node')" "node_equiv lib (MemLeaf b) node'" "storable_node nc lib d_id node'"
proof -
  obtain m where m: "packable lib b m" "is_leaf b" using st by auto
  have size: "pcb_size b < 2 ^ 32" using small by simp
  note pack = pcb_pack_packable [OF codec m(1) size]
  define data where "data = node_tag COPYLESS_LEAF @ packed_bytes lib b m @ pad"
  have len: "length data < 2 ^ 32" using small pack(2) by (simp add: data_def node_tag_facts)
  note data = sliced_of_cow_wf [OF len] sliced_of_cow_bytes [OF len]
  have le: "4 \<le> scb_len (sliced_of_cow data)"
    using length_sliced_bytes [OF data(1)] data(2) by (simp add: data_def node_tag_facts)
  obtain d where d: "slice_from (sliced_of_cow data) 4 = Some d" "sliced_wf d" "sliced_bytes d = drop 4 (sliced_bytes (sliced_of_cow data))"
    using slice_from_wf [OF data(1) le] by blast
  have bytes: "sliced_bytes d = packed_bytes lib b m @ pad" using d(3) data(2) by (simp add: data_def node_tag_facts)
  note un = pcb_unpack_packable [OF codec m(1) size d(2) bytes]
  have "cut data 0 NODE_PREFIX_LEN = Some (node_tag COPYLESS_LEAF)"
    by (simp add: data_def cut_def node_tag_facts NODE_PREFIX_LEN_def)
  then have unpack: "node_unpack_at nc lib d_id data (packed_mode lib b m) = Some (Some (MemLeaf (reloaded b m d)))"
    using d(1) un(1) node_tag_facts(2) by (simp add: node_unpack_at_def)
  have "sorted_keys m" using m(1) by (simp add: packable_def)
  with reloaded_holds [OF un(2) _ d(2)] have "same_buffer lib b (reloaded b m d)"
    using packable_holds [OF codec m(1) size] by (auto simp: same_buffer_def reloaded_def)
  moreover have "is_leaf (reloaded b m d)" "pcb_size (reloaded b m d) = pcb_size b" using m(2) by (simp_all add: reloaded_def pcb_size_def)
  ultimately show ?thesis
    using that [of "node_tag COPYLESS_LEAF @ packed_bytes lib b m" "packed_mode lib b m" "MemLeaf (reloaded b m d)"]
      pack un(3) unpack st by (auto simp: data_def node_tag_facts)
qed

lemma inner_stored:
  assumes codec: "csum_codec lib" and st: "storable_node nc lib d_id (CopylessInternal n)"
    and pack: "node_pack nc lib (CopylessInternal n) = Some (Some (out, mode))" and small: "length out + length pad < 2 ^ 32"
  obtains node' where "node_unpack_at nc lib d_id (out @ pad) mode = Some (Some node')" "node_equiv lib (CopylessInternal n) node'"
    "storable_node nc lib d_id node'"
proof -
  obtain ptrs ms where n: "in_wf lib n" "labelled d_id n" "pivots (meta_data n) \<noteq> []" "node_codec_ok nc (meta_data n) ptrs" "node_storable lib n ptrs ms"
    using st by auto
  obtain body where body: "in_pack nc lib n = Some (Some (body, mode))" "out = node_tag COPYLESS_INTERNAL @ body"
    using pack by (auto simp: bind_eq_Some_conv)
  have "length body = node_len nc n ptrs" by (rule length_node_out [OF n(4) codec n(5) body(1)])
  then have "node_len nc n ptrs + 4 + length pad < 2 ^ 32" using small body(2) by (simp add: node_tag_facts)
  from in_pack_unpack [OF n(4) codec n(1) n(5) n(2,3) node_tag_facts(1) [of COPYLESS_INTERNAL] this] body(1)
  obtain n1 n2 where n2: "in_unpack nc lib (sliced_of_cow (out @ pad)) mode = Some (Some n1)" "complete_object_refs n1 d_id = Some n2"
    "same_inner lib n n2" "node_storable lib n2 ptrs ms" by (auto simp: body(2))
  have "cut (out @ pad) 0 NODE_PREFIX_LEN = Some (node_tag COPYLESS_INTERNAL)"
    by (simp add: body(2) cut_def node_tag_facts NODE_PREFIX_LEN_def)
  then have "node_unpack_at nc lib d_id (out @ pad) mode = Some (Some (CopylessInternal n2))"
    using n2(1,2) by (simp add: node_unpack_at_def)
  moreover have "labelled d_id n2"
  proof -
    have md: "meta_data n2 = meta_data n" using n2(3) by (simp add: same_inner_def)
    have "map (\<lambda>c. or_index (cl_ptr c)) (children n2) = map or_index (map cl_ptr (children n2))" by simp
    also have "\<dots> = map or_index (map cl_ptr (children n))" by (simp only: same_inner_wf(4) [OF n2(3) n(1)])
    finally show ?thesis using n(2) md by (simp add: labelled_def o_def)
  qed
  ultimately show ?thesis
    using that [of "CopylessInternal n2"] n n2(3,4) same_inner_wf(1) [OF n2(3) n(1)] by (auto simp: same_inner_def)
qed

text \<open>
  C1. Storing a node and reading it back: a well-formed node with exact sizes whose children are
  on disk is written without a panic or an error; from the written bytes, followed by any
  padding, a well-formed node is read that has the same children, directs every key to the
  same child and gives it the same value, and that can be written again.
\<close>

theorem node_pack_unpack:
  assumes codec: "csum_codec lib" and st: "storable_node nc lib d_id node" and ok: "node_ok lib valid node"
  shows "\<exists>out mode. node_pack nc lib node = Some (Some (out, mode)) \<and> (\<forall>pad. length out + length pad < 2 ^ 32 \<longrightarrow>
    (\<exists>node'. node_unpack_at nc lib d_id (out @ pad) mode = Some (Some node') \<and> node_ok lib valid node' \<and> storable_node nc lib d_id node'
      \<and> child_pointers node' = child_pointers node \<and> (\<forall>k. node_child lib node' k = node_child lib node k)
      \<and> (\<forall>ma k d. node_value lib ma node' k d = node_value lib ma node k d)))"
proof -
  obtain out mode where pack: "node_pack nc lib node = Some (Some (out, mode))"
    and un: "\<And>pad. length out + length pad < 2 ^ 32 \<Longrightarrow>
      \<exists>node'. node_unpack_at nc lib d_id (out @ pad) mode = Some (Some node') \<and> node_equiv lib node node' \<and> storable_node nc lib d_id node'"
  proof (cases node)
    case (MemLeaf b)
    then have small: "node_size (MemLeaf b) + length [] < 2 ^ 32" using st by simp
    obtain out mode where out: "node_pack nc lib (MemLeaf b) = Some (Some (out, mode))" "length out = node_size (MemLeaf b)"
      using leaf_stored [OF codec st [unfolded MemLeaf] small] by metis
    show ?thesis
    proof (rule that)
      show "node_pack nc lib node = Some (Some (out, mode))" using out(1) MemLeaf by simp
      fix pad :: bytes assume "length out + length pad < 2 ^ 32"
      then have "node_size (MemLeaf b) + length pad < 2 ^ 32" using out(2) by simp
      from leaf_stored [OF codec st [unfolded MemLeaf] this] out(1) MemLeaf
      show "\<exists>node'. node_unpack_at nc lib d_id (out @ pad) mode = Some (Some node') \<and> node_equiv lib node node' \<and> storable_node nc lib d_id node'"
        by (metis option.inject prod.inject)
    qed
  next
    case (CopylessInternal n)
    then obtain ptrs ms where n: "node_codec_ok nc (meta_data n) ptrs" "node_storable lib n ptrs ms" using st by auto
    obtain out mode where out: "node_pack nc lib (CopylessInternal n) = Some (Some (out, mode))"
      using in_pack_storable [OF n(1) codec n(2)] by simp
    show ?thesis
    proof (rule that)
      show "node_pack nc lib node = Some (Some (out, mode))" using out CopylessInternal by simp
      fix pad :: bytes assume "length out + length pad < 2 ^ 32"
      from inner_stored [OF codec st [unfolded CopylessInternal] out this] CopylessInternal
      show "\<exists>node'. node_unpack_at nc lib d_id (out @ pad) mode = Some (Some node') \<and> node_equiv lib node node' \<and> storable_node nc lib d_id node'"
        by metis
    qed
  qed
  show ?thesis
  proof (rule exI [of _ out], rule exI [of _ mode], intro conjI [OF pack] allI impI)
    fix pad :: bytes assume "length out + length pad < 2 ^ 32"
    then obtain node' where "node_unpack_at nc lib d_id (out @ pad) mode = Some (Some node')" "node_equiv lib node node'" "storable_node nc lib d_id node'"
      using un by blast
    with node_equiv_meaning [OF _ ok] show "\<exists>node'. node_unpack_at nc lib d_id (out @ pad) mode = Some (Some node') \<and> node_ok lib valid node' \<and> storable_node nc lib d_id node'
      \<and> child_pointers node' = child_pointers node \<and> (\<forall>k. node_child lib node' k = node_child lib node k)
      \<and> (\<forall>ma k d. node_value lib ma node' k d = node_value lib ma node k d)" by blast
  qed
qed

lemma example_disk_node_ok: "in_wf lib example_disk_node" "inner_ok lib valid_msg example_disk_node" "labelled 0 example_disk_node"
  "pivots (meta_data example_disk_node) \<noteq> []"
proof -
  show wf: "in_wf lib example_disk_node" unfolding example_disk_node_def by (rule example_node_of_facts(1))
  have "msgs_valid lib valid_msg example_disk_node"
    by (auto simp: msgs_valid_def example_disk_node_def example_node_of_def example_child_buffer_def Let_def contents_def valid_entries_def valid_msg_def)
  with wf show "inner_ok lib valid_msg example_disk_node" by (simp add: inner_ok_def)
  show "labelled 0 example_disk_node" "pivots (meta_data example_disk_node) \<noteq> []"
    by (simp_all add: labelled_def example_disk_node_def example_node_of_def Let_def)
qed

lemma example_disk_node_length:
  assumes "node_pack example_codec example_lib (CopylessInternal example_disk_node) = Some (Some (out, mode))"
  shows "length out < 1000"
proof -
  obtain body where body: "in_pack example_codec example_lib example_disk_node = Some (Some (body, mode))" "out = node_tag COPYLESS_INTERNAL @ body"
    using assms by (auto simp: bind_eq_Some_conv)
  show ?thesis
    using length_node_out [OF example_codec_ok example_lib_codec example_node_storable body(1)] body(2)
    by (simp add: node_tag_facts node_len_def example_codec_def example_disk_node_def example_node_of_def Let_def fanout_def example_child_buffer_def
        INTERNAL_INTEGRITY_CHECKSUM_SIZE_def pcb_size_def HEADER_def entry_size_def cow_size_def value_size_def key_info_size_def CSUM_SIZE_def)
qed

theorem node_pack_unpack_witness:
  "\<exists>out mode node'. node_pack example_codec example_lib (CopylessInternal example_disk_node) = Some (Some (out, mode))
    \<and> node_unpack_at example_codec example_lib 0 (out @ [0]) mode = Some (Some node')
    \<and> node_child example_lib node' [6] = node_child example_lib (CopylessInternal example_disk_node) [6]"
proof -
  have "storable_node example_codec example_lib 0 (CopylessInternal example_disk_node)"
    unfolding storable_node.simps using example_disk_node_ok example_codec_ok example_node_storable [of example_lib] by blast
  moreover have "node_ok example_lib valid_msg (CopylessInternal example_disk_node)" using example_disk_node_ok(2) by simp
  ultimately obtain out mode where out: "node_pack example_codec example_lib (CopylessInternal example_disk_node) = Some (Some (out, mode))"
    "\<forall>pad. length out + length pad < 2 ^ 32 \<longrightarrow>
      (\<exists>node'. node_unpack_at example_codec example_lib 0 (out @ pad) mode = Some (Some node')
        \<and> node_child example_lib node' [6] = node_child example_lib (CopylessInternal example_disk_node) [6])"
    using node_pack_unpack [OF example_lib_codec] by metis
  have "length out + length [0 :: byte] < 2 ^ 32" using example_disk_node_length [OF out(1)] by simp
  with out show ?thesis by blast
qed

end
