(* ===== verification/Buffer.thy ===== *)
theory Buffer
  imports Prelude
begin

text \<open>
  \<^verbatim>\<open>betree/src/buffer.rs\<close>: block-aligned buffers. The storages live in a heap, each with its bytes and
  the number of buffers that refer to it (the count of its \<^verbatim>\<open>Arc\<close>); a \<open>buf\<close> or \<open>mut_buf\<close> is a storage and a
  range of blocks in it, and splitting one makes two that share the storage. Memory that is
  allocated and not yet written has arbitrary bytes, given by a function of the address. \<open>None\<close>
  is a panic or an access outside of an allocation. Numbers of blocks are \<open>u32\<close> values.
\<close>

definition BS :: nat where "BS = 4096"

text \<open>\<^verbatim>\<open>Block::<u32>::to_bytes\<close> and \<^verbatim>\<open>round_up_from_bytes\<close>.\<close>

definition blocks_to_bytes :: "nat \<Rightarrow> nat option" where
  "blocks_to_bytes b = (if b * BS < 2 ^ 32 then Some (b * BS) else None)"

definition bytes_to_blocks :: "nat \<Rightarrow> nat" where
  "bytes_to_blocks n = n div BS + (if n mod BS = 0 then 0 else 1)"

type_synonym block_range = "nat \<times> nat"

definition split_range_at :: "block_range \<Rightarrow> nat \<Rightarrow> (block_range \<times> block_range) option" where
  "split_range_at r mid = do {
     m \<leftarrow> add_u32 (fst r) mid;
     Some (if m < snd r then ((fst r, m), (m, snd r)) else (r, (snd r, snd r))) }"

subsection \<open>Owned buffers\<close>

definition fresh_memory :: "(nat \<Rightarrow> byte) \<Rightarrow> nat \<Rightarrow> nat \<Rightarrow> bytes" where
  "fresh_memory junk lo hi = map junk [lo..<hi]"

definition storage_zeroed :: "(nat \<Rightarrow> byte) \<Rightarrow> nat \<Rightarrow> bytes option" where
  "storage_zeroed junk capacity = do { n \<leftarrow> blocks_to_bytes capacity; Some (fresh_memory junk 0 n) }"

text \<open>The growth factor is one, so that only the requested capacity and one more block count.\<close>

definition ensure_capacity :: "(nat \<Rightarrow> byte) \<Rightarrow> bytes \<Rightarrow> nat \<Rightarrow> bytes option" where
  "ensure_capacity junk st requested_capacity = (let capacity = length st div BS in
     if requested_capacity \<le> capacity then Some st
     else do {
       let wanted_capacity = max (max requested_capacity capacity) (capacity + 1);
       n \<leftarrow> blocks_to_bytes wanted_capacity;
       Some (st @ fresh_memory junk (length st) n) })"

record buf_write =
  bw_buf :: bytes
  bw_size :: nat

definition bw_with_capacity :: "(nat \<Rightarrow> byte) \<Rightarrow> nat \<Rightarrow> buf_write option" where
  "bw_with_capacity junk capacity = do { st \<leftarrow> storage_zeroed junk capacity; Some \<lparr>bw_buf = st, bw_size = 0\<rparr> }"

definition bw_write :: "(nat \<Rightarrow> byte) \<Rightarrow> bytes \<Rightarrow> buf_write \<Rightarrow> buf_write option" where
  "bw_write junk d w = do {
     required_size \<leftarrow> add_u32 (bw_size w) (length d mod 2 ^ 32);
     st \<leftarrow> ensure_capacity junk (bw_buf w) (bytes_to_blocks required_size);
     assert_that (bw_size w + length d \<le> length st);
     Some \<lparr>bw_buf = take (bw_size w) st @ d @ drop (bw_size w + length d) st, bw_size = required_size\<rparr> }"

datatype seek_from = SeekStart nat | SeekEnd int | SeekCurrent int

text \<open>The new size is computed in \<open>i64\<close> and narrowed to \<open>u32\<close>; the inner \<open>None\<close> is the error.\<close>

definition bw_seek :: "seek_from \<Rightarrow> buf_write \<Rightarrow> nat option \<times> buf_write" where
  "bw_seek seek w = (let new_size = nat ((case seek of
       SeekStart off \<Rightarrow> int off
     | SeekEnd off \<Rightarrow> int (length (bw_buf w)) + off
     | SeekCurrent off \<Rightarrow> int (bw_size w) + off) mod 2 ^ 32)
   in if new_size \<le> length (bw_buf w) then (Some new_size, w\<lparr>bw_size := new_size\<rparr>) else (None, w))"

definition bw_as_ref :: "buf_write \<Rightarrow> bytes option" where
  "bw_as_ref w = cut (bw_buf w) 0 (bw_size w)"

subsection \<open>Shared buffers\<close>

type_synonym storage_heap = "nat \<rightharpoonup> bytes \<times> nat"

datatype buf_source = Allocated nat | Foreign bytes

record buf =
  b_buf :: buf_source
  b_range :: block_range

record mut_buf =
  mb_buf :: nat
  mb_range :: block_range

definition full_range :: "bytes \<Rightarrow> block_range" where
  "full_range st = (0, length st div BS)"

text \<open>Moving owned bytes into a storage of their own, at an unused address.\<close>

definition buf_from_aligned :: "nat \<Rightarrow> bytes \<Rightarrow> storage_heap \<Rightarrow> buf \<times> storage_heap" where
  "buf_from_aligned a st h = (\<lparr>b_buf = Allocated a, b_range = full_range st\<rparr>, h(a \<mapsto> (st, 1)))"

definition bw_into_buf :: "nat \<Rightarrow> buf_write \<Rightarrow> storage_heap \<Rightarrow> buf \<times> storage_heap" where
  "bw_into_buf a w h = buf_from_aligned a (bw_buf w) h"

definition buf_from_raw :: "bytes \<Rightarrow> buf" where
  "buf_from_raw b = \<lparr>b_buf = Foreign b, b_range = (0, length b div BS)\<rparr>"

text \<open>\<^verbatim>\<open>From<Box<[u8]>>\<close>: an unaligned box is copied, otherwise the box becomes the storage.\<close>

definition buf_from_box :: "nat \<Rightarrow> bytes \<Rightarrow> storage_heap \<Rightarrow> (buf \<times> storage_heap) option" where
  "buf_from_box a b h = do { assert_that (length b mod BS = 0); Some (buf_from_aligned a b h) }"

definition buf_from_zero_padded :: "nat \<Rightarrow> bytes \<Rightarrow> storage_heap \<Rightarrow> (buf \<times> storage_heap) option" where
  "buf_from_zero_padded a b h = (let padded_size = bytes_to_blocks (length b)
     in buf_from_box a (b @ replicate (padded_size * BS - length b) 0) h)"

definition buf_zeroed :: "(nat \<Rightarrow> byte) \<Rightarrow> nat \<Rightarrow> nat \<Rightarrow> storage_heap \<Rightarrow> (buf \<times> storage_heap) option" where
  "buf_zeroed junk a sz h = do { st \<leftarrow> storage_zeroed junk sz; Some (buf_from_aligned a st h) }"

text \<open>\<^verbatim>\<open>Arc::try_unwrap\<close>: the storage, if this is its only buffer.\<close>

definition unwrap_storage :: "nat \<Rightarrow> storage_heap \<Rightarrow> bytes option" where
  "unwrap_storage a h = do { (st, refs) \<leftarrow> h a; assert_that (refs = 1); Some st }"

definition source_slice :: "buf_source \<Rightarrow> storage_heap \<Rightarrow> bytes option" where
  "source_slice s h = (case s of Allocated a \<Rightarrow> map_option fst (h a) | Foreign b \<Rightarrow> Some b)"

definition range_slice :: "block_range \<Rightarrow> bytes \<Rightarrow> bytes option" where
  "range_slice r st = do {
     lo \<leftarrow> blocks_to_bytes (fst r);
     hi \<leftarrow> blocks_to_bytes (snd r);
     assert_that (lo \<le> hi);
     cut st lo (hi - lo) }"

definition buf_as_ref :: "buf \<Rightarrow> storage_heap \<Rightarrow> bytes option" where
  "buf_as_ref b h = do { st \<leftarrow> source_slice (b_buf b) h; range_slice (b_range b) st }"

definition buf_into_buf_write :: "(nat \<Rightarrow> byte) \<Rightarrow> buf \<Rightarrow> storage_heap \<Rightarrow> (buf_write \<times> storage_heap) option" where
  "buf_into_buf_write junk b h = (case b_buf b of
     Allocated a \<Rightarrow> do {
       st \<leftarrow> unwrap_storage a h;
       n \<leftarrow> blocks_to_bytes (snd (b_range b));
       Some (\<lparr>bw_buf = st, bw_size = n\<rparr>, h(a := None)) }
   | Foreign bs \<Rightarrow> do {
       w \<leftarrow> bw_with_capacity junk (snd (b_range b));
       w \<leftarrow> bw_write junk bs w;
       Some (w, h) })"

definition buf_into_full_mut :: "(nat \<Rightarrow> byte) \<Rightarrow> nat \<Rightarrow> buf \<Rightarrow> storage_heap \<Rightarrow> (mut_buf \<times> storage_heap) option" where
  "buf_into_full_mut junk fresh b h = (case b_buf b of
     Allocated a \<Rightarrow> do {
       st \<leftarrow> unwrap_storage a h;
       Some (\<lparr>mb_buf = a, mb_range = full_range st\<rparr>, h) }
   | Foreign _ \<Rightarrow> do {
       (w, h) \<leftarrow> buf_into_buf_write junk b h;
       let (_, h) = bw_into_buf fresh w h;
       Some (\<lparr>mb_buf = fresh, mb_range = full_range (bw_buf w)\<rparr>, h) })"

definition buf_into_boxed_slice :: "buf \<Rightarrow> storage_heap \<Rightarrow> (bytes \<times> storage_heap) option" where
  "buf_into_boxed_slice b h = (case b_buf b of
     Allocated a \<Rightarrow> do { st \<leftarrow> unwrap_storage a h; Some (st, h(a := None)) }
   | Foreign bs \<Rightarrow> Some (bs, h))"

definition buf_size :: "buf \<Rightarrow> nat option" where
  "buf_size b = checked_sub (snd (b_range b)) (fst (b_range b))"

definition buf_split_at :: "buf \<Rightarrow> nat \<Rightarrow> storage_heap \<Rightarrow> (buf \<times> buf \<times> storage_heap) option" where
  "buf_split_at b mid h = do {
     (left, right) \<leftarrow> split_range_at (b_range b) mid;
     h \<leftarrow> (case b_buf b of
         Allocated a \<Rightarrow> do { (st, refs) \<leftarrow> h a; Some (h(a \<mapsto> (st, refs + 1))) }
       | Foreign _ \<Rightarrow> Some h);
     Some (b\<lparr>b_range := left\<rparr>, b\<lparr>b_range := right\<rparr>, h) }"

definition mb_split_at :: "mut_buf \<Rightarrow> nat \<Rightarrow> storage_heap \<Rightarrow> (mut_buf \<times> mut_buf \<times> storage_heap) option" where
  "mb_split_at m mid h = do {
     (left, right) \<leftarrow> split_range_at (mb_range m) mid;
     (st, refs) \<leftarrow> h (mb_buf m);
     Some (m\<lparr>mb_range := left\<rparr>, m\<lparr>mb_range := right\<rparr>, h(mb_buf m \<mapsto> (st, refs + 1))) }"

definition mb_as_ref :: "mut_buf \<Rightarrow> storage_heap \<Rightarrow> bytes option" where
  "mb_as_ref m h = do { (st, _) \<leftarrow> h (mb_buf m); range_slice (mb_range m) st }"

text \<open>Filling the slice of a mutable buffer: \<^verbatim>\<open>as_mut().copy_from_slice(d)\<close>.\<close>

definition mb_copy :: "mut_buf \<Rightarrow> bytes \<Rightarrow> storage_heap \<Rightarrow> storage_heap option" where
  "mb_copy m d h = do {
     (st, refs) \<leftarrow> h (mb_buf m);
     slice \<leftarrow> range_slice (mb_range m) st;
     assert_that (length slice = length d);
     let lo = fst (mb_range m) * BS;
     Some (h(mb_buf m \<mapsto> (take lo st @ d @ drop (lo + length d) st, refs))) }"

text \<open>Dropping a buffer lowers the count; the last one frees the storage.\<close>

definition mb_drop :: "mut_buf \<Rightarrow> storage_heap \<Rightarrow> storage_heap option" where
  "mb_drop m h = do {
     (st, refs) \<leftarrow> h (mb_buf m);
     Some (if refs = 1 then h(mb_buf m := None) else h(mb_buf m \<mapsto> (st, refs - 1))) }"

definition mb_into_full_buf :: "mut_buf \<Rightarrow> storage_heap \<Rightarrow> (buf \<times> storage_heap) option" where
  "mb_into_full_buf m h = do {
     st \<leftarrow> unwrap_storage (mb_buf m) h;
     Some (\<lparr>b_buf = Allocated (mb_buf m), b_range = full_range st\<rparr>, h) }"

subsection \<open>Writing to an owned buffer\<close>

lemma BS_pos [simp]: "0 < BS" by (simp add: BS_def)

lemma length_fresh_memory [simp]: "length (fresh_memory junk lo hi) = hi - lo"
  by (simp add: fresh_memory_def)

lemma bytes_to_blocks_covers: "n \<le> bytes_to_blocks n * BS"
proof -
  have "n = n div BS * BS + n mod BS" "n mod BS \<le> BS" by simp_all
  then have "n \<le> n div BS * BS + (if n mod BS = 0 then 0 else BS)" by (metis add_0_right add_left_mono order_refl)
  then show ?thesis by (simp add: bytes_to_blocks_def split: if_splits)
qed

lemma bytes_to_blocks_least: "n \<le> b * BS \<Longrightarrow> bytes_to_blocks n \<le> b"
proof -
  assume n: "n \<le> b * BS"
  have "n div BS \<le> b" using div_le_mono [OF n, of BS] by simp
  moreover have "n div BS < b" if "n mod BS \<noteq> 0"
  proof -
    have "n \<noteq> b * BS" using that by auto
    then show ?thesis using n by (simp add: div_less_iff_less_mult)
  qed
  ultimately show ?thesis by (auto simp: bytes_to_blocks_def)
qed

lemma ensure_capacity_spec:
  assumes "BS dvd length st" "n \<le> BS * (2 ^ 20 - 1)"
  shows "\<exists>st'. ensure_capacity junk st (bytes_to_blocks n) = Some st' \<and> take (length st) st' = st
    \<and> length st' = max (length st) (bytes_to_blocks n * BS)"
proof (cases "bytes_to_blocks n \<le> length st div BS")
  case True
  then have "bytes_to_blocks n * BS \<le> length st" using assms(1) by (metis dvd_div_mult_self mult_le_mono1)
  with True show ?thesis by (simp add: ensure_capacity_def)
next
  case False
  have le: "bytes_to_blocks n \<le> 2 ^ 20 - 1" by (rule bytes_to_blocks_least) (use assms(2) in \<open>simp add: mult.commute\<close>)
  then have "bytes_to_blocks n * BS \<le> (2 ^ 20 - 1) * BS" by (rule mult_le_mono1)
  then have "bytes_to_blocks n * BS < 2 ^ 32" by (simp add: BS_def)
  moreover have "max (max (bytes_to_blocks n) (length st div BS)) (length st div BS + 1) = bytes_to_blocks n" using False by auto
  moreover have "length st < bytes_to_blocks n * BS"
    using False assms(1) by (metis dvd_div_mult_self mult_less_mono1 not_le_imp_less BS_pos)
  ultimately show ?thesis using False by (auto simp: ensure_capacity_def Let_def blocks_to_bytes_def)
qed

lemma bw_write_spec:
  assumes "BS dvd length (bw_buf w)" "bw_size w + length d \<le> BS * (2 ^ 20 - 1)" "bw_size w \<le> length (bw_buf w)"
  shows "\<exists>w'. bw_write junk d w = Some w' \<and> bw_size w' = bw_size w + length d \<and> BS dvd length (bw_buf w')
    \<and> length (bw_buf w') = max (length (bw_buf w)) (bytes_to_blocks (bw_size w + length d) * BS)
    \<and> take (bw_size w') (bw_buf w') = take (bw_size w) (bw_buf w) @ d"
proof -
  have small: "bw_size w + length d < 2 ^ 32" using assms(2) by (simp add: BS_def)
  obtain st where st: "ensure_capacity junk (bw_buf w) (bytes_to_blocks (bw_size w + length d)) = Some st"
    "take (length (bw_buf w)) st = bw_buf w" "length st = max (length (bw_buf w)) (bytes_to_blocks (bw_size w + length d) * BS)"
    using ensure_capacity_spec [OF assms(1,2)] by blast
  have fits: "bw_size w + length d \<le> length st" using st(3) bytes_to_blocks_covers [of "bw_size w + length d"] by simp
  define nb where "nb = take (bw_size w) st @ d @ drop (bw_size w + length d) st"
  have nb: "length nb = length st" "take (bw_size w + length d) nb = take (bw_size w) st @ d" using fits by (auto simp: nb_def)
  have "take (bw_size w) st = take (bw_size w) (bw_buf w)" using st(2) assms(3) by (metis min.absorb1 take_take)
  moreover have "BS dvd length st" unfolding st(3) max_def using assms(1) by simp
  moreover have "bw_write junk d w = Some \<lparr>bw_buf = nb, bw_size = bw_size w + length d\<rparr>"
    using small st(1) fits by (simp add: bw_write_def add_u32_def nb_def)
  ultimately show ?thesis using st(3) nb by simp
qed

fun write_all :: "(nat \<Rightarrow> byte) \<Rightarrow> bytes list \<Rightarrow> buf_write \<Rightarrow> buf_write option" where
  "write_all junk [] w = Some w"
| "write_all junk (d # ds) w = bw_write junk d w \<bind> write_all junk ds"

lemma write_all_spec:
  assumes "BS dvd length (bw_buf w)" "bw_size w + length (concat ds) \<le> BS * (2 ^ 20 - 1)" "bw_size w \<le> length (bw_buf w)"
  shows "\<exists>w'. write_all junk ds w = Some w' \<and> bw_size w' = bw_size w + length (concat ds) \<and> bw_size w' \<le> length (bw_buf w')
    \<and> length (bw_buf w') = max (length (bw_buf w)) (bytes_to_blocks (bw_size w') * BS)
    \<and> take (bw_size w') (bw_buf w') = take (bw_size w) (bw_buf w) @ concat ds"
  using assms
proof (induction ds arbitrary: w)
  case Nil
  have "bytes_to_blocks (bw_size w) \<le> length (bw_buf w) div BS"
    by (rule bytes_to_blocks_least) (use Nil in simp)
  then have "bytes_to_blocks (bw_size w) * BS \<le> length (bw_buf w)" using Nil.prems(1) by (metis dvd_div_mult_self mult_le_mono1)
  then show ?case using Nil by simp
next
  case (Cons d ds)
  obtain w1 where w1: "bw_write junk d w = Some w1" "bw_size w1 = bw_size w + length d" "BS dvd length (bw_buf w1)"
    "length (bw_buf w1) = max (length (bw_buf w)) (bytes_to_blocks (bw_size w + length d) * BS)"
    "take (bw_size w1) (bw_buf w1) = take (bw_size w) (bw_buf w) @ d"
    using bw_write_spec [OF Cons.prems(1) _ Cons.prems(3), of d junk] Cons.prems(2) by auto
  have le: "bw_size w1 \<le> length (bw_buf w1)" using w1(2,4) bytes_to_blocks_covers [of "bw_size w + length d"] by simp
  have "bw_size w1 + length (concat ds) \<le> BS * (2 ^ 20 - 1)" using Cons.prems(2) w1(2) by simp
  then obtain w' where w': "write_all junk ds w1 = Some w'" "bw_size w' = bw_size w1 + length (concat ds)" "bw_size w' \<le> length (bw_buf w')"
    "length (bw_buf w') = max (length (bw_buf w1)) (bytes_to_blocks (bw_size w') * BS)"
    "take (bw_size w') (bw_buf w') = take (bw_size w1) (bw_buf w1) @ concat ds"
    using Cons.IH [OF w1(3) _ le] by blast
  have "bytes_to_blocks (bw_size w1) \<le> bytes_to_blocks (bw_size w')"
    by (rule bytes_to_blocks_least, rule order_trans [OF _ bytes_to_blocks_covers]) (use w'(2) in simp)
  then have "bytes_to_blocks (bw_size w1) * BS \<le> bytes_to_blocks (bw_size w') * BS" by (rule mult_le_mono1)
  then have "max (length (bw_buf w1)) (bytes_to_blocks (bw_size w') * BS) = max (length (bw_buf w)) (bytes_to_blocks (bw_size w') * BS)"
    unfolding w1(4) w1(2) [symmetric] by (simp only: max.assoc max.absorb2)
  then show ?case using w1(1,2,5) w' by simp
qed

text \<open>
  Writing to an owned buffer appends: as long as the total stays below four gigabytes, a sequence
  of writes succeeds, the buffer reads as the concatenation of the data, and its storage is the
  initial capacity or the number of blocks that hold the data, whichever is more.
\<close>

theorem write_all_appends:
  assumes "length (concat ds) \<le> BS * (2 ^ 20 - 1)" "capacity < 2 ^ 20"
  shows "\<exists>w w'. bw_with_capacity junk capacity = Some w \<and> write_all junk ds w = Some w' \<and> bw_as_ref w' = Some (concat ds)
    \<and> length (bw_buf w') = max (capacity * BS) (bytes_to_blocks (length (concat ds)) * BS)"
proof -
  have cap: "capacity * BS < 2 ^ 32" using assms(2) by (simp add: BS_def)
  define w where "w = \<lparr>bw_buf = fresh_memory junk 0 (capacity * BS), bw_size = 0\<rparr>"
  have "bw_with_capacity junk capacity = Some w"
    using cap by (simp add: bw_with_capacity_def storage_zeroed_def blocks_to_bytes_def w_def)
  moreover have "BS dvd length (bw_buf w)" "bw_size w = 0" by (simp_all add: w_def)
  ultimately show ?thesis using write_all_spec [of w ds junk] assms(1) by (auto simp: bw_as_ref_def cut_def w_def)
qed

theorem write_all_appends_witness:
  "\<exists>w w'. bw_with_capacity (\<lambda>_. 7) 0 = Some w \<and> write_all (\<lambda>_. 7) [[1, 2], [3]] w = Some w' \<and> bw_as_ref w' = Some [1, 2, 3]
     \<and> length (bw_buf w') = 4096"
  using write_all_appends [of "[[1, 2], [3]]" 0 "\<lambda>_. 7"] by (simp add: BS_def bytes_to_blocks_def)

subsection \<open>Splitting a mutable buffer\<close>

text \<open>The ranges of the buffers a mutable buffer of a whole storage has been split into.\<close>

inductive parts :: "nat \<Rightarrow> block_range list \<Rightarrow> bool" for cap where
  whole: "parts cap [(0, cap)]"
| split: "parts cap (us @ r # vs) \<Longrightarrow> split_range_at r mid = Some (left, right) \<Longrightarrow> parts cap (us @ left # right # vs)"

fun chained :: "nat \<Rightarrow> block_range list \<Rightarrow> nat \<Rightarrow> bool" where
  "chained lo [] hi = (lo = hi)"
| "chained lo (r # rs) hi = (fst r = lo \<and> lo \<le> snd r \<and> chained (snd r) rs hi)"

lemma chained_append: "chained lo (xs @ ys) hi \<longleftrightarrow> (\<exists>m. chained lo xs m \<and> chained m ys hi)"
  by (induction xs arbitrary: lo) auto

lemma chained_le: "chained lo rs hi \<Longrightarrow> lo \<le> hi"
  by (induction rs arbitrary: lo) fastforce+

lemma parts_chained: "parts cap rs \<Longrightarrow> chained 0 rs cap"
proof (induction rule: parts.induct)
  case (split us r vs mid left right)
  then show ?case by (fastforce simp: chained_append split_range_at_def add_u32_def split: if_splits)
qed simp

lemma chained_nth:
  assumes "chained lo rs hi" "i < length rs"
  shows "fst (rs ! i) \<le> snd (rs ! i)" "lo \<le> fst (rs ! i)" "snd (rs ! i) \<le> hi" "i < j \<Longrightarrow> j < length rs \<Longrightarrow> snd (rs ! i) \<le> fst (rs ! j)"
proof -
  define r where "r = rs ! i"
  have rs: "rs = take i rs @ r # drop (Suc i) rs" unfolding r_def by (rule id_take_nth_drop [OF assms(2)])
  have "chained lo (take i rs @ r # drop (Suc i) rs) hi" using assms(1) unfolding rs [symmetric] .
  then obtain m where m: "chained lo (take i rs) m" "fst r = m" "m \<le> snd r" "chained (snd r) (drop (Suc i) rs) hi"
    unfolding chained_append by auto
  show "fst (rs ! i) \<le> snd (rs ! i)" "lo \<le> fst (rs ! i)" "snd (rs ! i) \<le> hi"
    using m chained_le [OF m(1)] chained_le [OF m(4)] by (simp_all add: r_def)
  show "snd (rs ! i) \<le> fst (rs ! j)" if ij: "i < j" "j < length rs"
  proof -
    have "chained (snd r) (take (j - Suc i) (drop (Suc i) rs) @ drop (j - Suc i) (drop (Suc i) rs)) hi" using m(4) by (simp only: append_take_drop_id)
    then obtain k where k: "chained (snd r) (take (j - Suc i) (drop (Suc i) rs)) k" "chained k (drop (j - Suc i) (drop (Suc i) rs)) hi"
      unfolding chained_append by blast
    have "drop (j - Suc i) (drop (Suc i) rs) = rs ! j # drop (Suc j) rs" using ij by (simp add: Cons_nth_drop_Suc)
    then show ?thesis using k chained_le [OF k(1)] by (simp add: r_def)
  qed
qed

definition part_of :: "block_range \<Rightarrow> bytes \<Rightarrow> bytes" where
  "part_of r st = take ((snd r - fst r) * BS) (drop (fst r * BS) st)"

lemma concat_parts: "chained lo rs hi \<Longrightarrow> concat (map (\<lambda>r. part_of r st) rs) = take ((hi - lo) * BS) (drop (lo * BS) st)"
proof (induction rs arbitrary: lo)
  case (Cons r rs)
  then have r: "fst r = lo" "lo \<le> snd r" "chained (snd r) rs hi" by auto
  have "hi - lo = (snd r - lo) + (hi - snd r)" "snd r = lo + (snd r - lo)" using r(2) chained_le [OF r(3)] by simp_all
  then have "(hi - lo) * BS = (snd r - lo) * BS + (hi - snd r) * BS" "snd r * BS = (snd r - lo) * BS + lo * BS"
    by (metis add_mult_distrib, metis add_mult_distrib add.commute)
  then show ?case using Cons.IH [OF r(3)] r(1) by (simp add: part_of_def take_add)
qed simp

lemma range_slice_part:
  assumes "fst r \<le> snd r" "snd r \<le> cap" "length st = cap * BS" "cap * BS < 2 ^ 32"
  shows "range_slice r st = Some (part_of r st)"
proof -
  have le: "fst r * BS \<le> snd r * BS" "snd r * BS \<le> cap * BS" using assms(1,2) by simp_all
  moreover have "(snd r - fst r) * BS = snd r * BS - fst r * BS" by (rule diff_mult_distrib)
  moreover from le assms(4) have "fst r * BS < 2 ^ 32" "snd r * BS < 2 ^ 32" by linarith+
  ultimately show ?thesis using assms(3) by (simp add: range_slice_def blocks_to_bytes_def cut_def part_of_def)
qed

lemma part_of_write:
  assumes "r = (lo, hi)" "lo \<le> hi" "hi * BS \<le> length st" "length d = (hi - lo) * BS"
  defines "st' \<equiv> take (lo * BS) st @ d @ drop (lo * BS + length d) st"
  shows "length st' = length st" "part_of r st' = d" "snd r' \<le> lo \<Longrightarrow> part_of r' st' = part_of r' st" "hi \<le> fst r' \<Longrightarrow> part_of r' st' = part_of r' st"
proof -
  have len: "lo * BS + length d = hi * BS" "lo * BS \<le> length st"
    using assms(3,4) mult_le_mono1 [OF assms(2), of BS] by (simp add: diff_mult_distrib, linarith)
  note lh = assms(2)
  show "length st' = length st" using len assms(3) by (simp add: st'_def)
  show "part_of r st' = d" using len assms(1,4) by (simp add: part_of_def st'_def)
  show "part_of r' st' = part_of r' st" if "snd r' \<le> lo"
  proof -
    have "take (lo * BS) st' = take (lo * BS) st" using len(2) by (simp add: st'_def)
    moreover have "part_of r' x = part_of r' (take (lo * BS) x)" for x
    proof -
      have "(snd r' - fst r') * BS \<le> lo * BS - fst r' * BS" unfolding diff_mult_distrib using that by (intro diff_le_mono) simp
      then show ?thesis by (simp add: part_of_def drop_take min_def)
    qed
    ultimately show ?thesis by metis
  qed
  show "part_of r' st' = part_of r' st" if "hi \<le> fst r'"
  proof -
    have "drop (hi * BS) st' = drop (hi * BS) st" using len lh by (simp add: st'_def)
    moreover have "drop (fst r' * BS) x = drop (fst r' * BS - hi * BS) (drop (hi * BS) x)" for x :: bytes
      using mult_le_mono1 [OF that, of BS] by simp
    ultimately show ?thesis unfolding part_of_def by metis
  qed
qed

text \<open>
  C34. The pieces of a mutable buffer do not interfere: however a buffer of a whole storage was split,
  writing a piece succeeds, changes what is read through this piece only, and the storage is
  the concatenation of the pieces. This is what makes the unsynchronised access through an
  \<^verbatim>\<open>UnsafeCell\<close> sound.
\<close>

theorem mut_buf_parts:
  assumes "parts cap rs" "h a = Some (st, refs)" "length st = cap * BS" "cap * BS < 2 ^ 32"
    "i < length rs" "length d = (snd (rs ! i) - fst (rs ! i)) * BS"
  shows "\<exists>h' st'. mb_copy \<lparr>mb_buf = a, mb_range = rs ! i\<rparr> d h = Some h' \<and> h' a = Some (st', refs)
    \<and> (\<forall>j < length rs. mb_as_ref \<lparr>mb_buf = a, mb_range = rs ! j\<rparr> h' =
        (if j = i then Some d else mb_as_ref \<lparr>mb_buf = a, mb_range = rs ! j\<rparr> h))
    \<and> st' = concat (map (\<lambda>r. the (mb_as_ref \<lparr>mb_buf = a, mb_range = r\<rparr> h')) rs)"
proof -
  note ch = parts_chained [OF assms(1)]
  note nth = chained_nth [OF ch]
  obtain lo hi where r: "rs ! i = (lo, hi)" by fastforce
  have lh: "lo \<le> hi" "hi \<le> cap" using nth(1,3) [OF assms(5)] r by simp_all
  then have hi: "hi * BS \<le> length st" using assms(3) by simp
  define st' where "st' = take (lo * BS) st @ d @ drop (lo * BS + length d) st"
  have ld: "length d = (hi - lo) * BS" using assms(6) r by simp
  note w = part_of_write [OF refl lh(1) hi ld, folded st'_def]
  have sl: "range_slice (rs ! j) x = Some (part_of (rs ! j) x)" if "j < length rs" "length x = cap * BS" for j x
    by (rule range_slice_part [OF nth(1,3) [OF that(1)] that(2) assms(4)])
  have "length (part_of (lo, hi) st) = length d" using ld hi lh(1) by (simp add: part_of_def diff_mult_distrib)
  then have copy: "mb_copy \<lparr>mb_buf = a, mb_range = rs ! i\<rparr> d h = Some (h(a \<mapsto> (st', refs)))"
    using assms(2) sl [OF assms(5,3)] r by (simp add: mb_copy_def st'_def Let_def)
  have len': "length st' = cap * BS" using w(1) assms(3) by simp
  have parts: "part_of (rs ! j) st' = (if j = i then d else part_of (rs ! j) st)" if "j < length rs" for j
  proof (cases j i rule: linorder_cases)
    case less
    then have "snd (rs ! j) \<le> lo" using nth(4) [OF that less assms(5)] r by simp
    then show ?thesis using w(3) less by simp
  next
    case equal
    then show ?thesis using w(2) r by simp
  next
    case greater
    then have "hi \<le> fst (rs ! j)" using nth(4) [OF assms(5) greater that] r by simp
    then show ?thesis using w(4) greater by simp
  qed
  have refs: "mb_as_ref \<lparr>mb_buf = a, mb_range = rs ! j\<rparr> (h(a \<mapsto> (st', refs))) = Some (part_of (rs ! j) st')"
    "mb_as_ref \<lparr>mb_buf = a, mb_range = rs ! j\<rparr> h = Some (part_of (rs ! j) st)" if "j < length rs" for j
    using sl [OF that len'] sl [OF that assms(3)] assms(2) by (simp_all add: mb_as_ref_def)
  have "map (\<lambda>r. the (mb_as_ref \<lparr>mb_buf = a, mb_range = r\<rparr> (h(a \<mapsto> (st', refs))))) rs = map (\<lambda>r. part_of r st') rs"
    by (rule nth_equalityI) (simp_all add: refs(1))
  then have "concat (map (\<lambda>r. the (mb_as_ref \<lparr>mb_buf = a, mb_range = r\<rparr> (h(a \<mapsto> (st', refs))))) rs) = st'"
    using concat_parts [OF ch, of st'] len' by (simp only: diff_zero mult_0 drop_0 take_all order_refl)
  with copy show ?thesis using refs parts by auto
qed

lemma example_parts: "parts 3 [(0, 1), (1, 2), (2, 3)]"
proof -
  have "parts 3 ([] @ (0, 1) # (1, 3) # [])" by (rule parts.split [of _ _ "(0, 3)" _ 1]) (simp_all add: parts.whole split_range_at_def add_u32_def)
  then have "parts 3 ([(0, 1)] @ (1, 3) # [])" by simp
  then have "parts 3 ([(0, 1)] @ (1, 2) # (2, 3) # [])" by (rule parts.split [of _ _ _ _ 1]) (simp add: split_range_at_def add_u32_def)
  then show ?thesis by simp
qed

theorem mut_buf_parts_witness:
  "\<exists>h'. mb_copy \<lparr>mb_buf = 5, mb_range = (1, 2)\<rparr> (replicate 4096 9) [5 \<mapsto> (replicate 12288 0, 3)] = Some h'
     \<and> mb_as_ref \<lparr>mb_buf = 5, mb_range = (1, 2)\<rparr> h' = Some (replicate 4096 9)"
  using mut_buf_parts [OF example_parts, of "[5 \<mapsto> (replicate 12288 0, 3)]" 5 "replicate 12288 0" 3 1 "replicate 4096 9"]
  by (auto simp: BS_def)

end
