(* ===== verification/Vdev.thy ===== *)
theory Vdev
  imports Buffer PackedChildBuffer
begin

text \<open>
  \<^verbatim>\<open>betree/src/vdev/mod.rs\<close>, \<^verbatim>\<open>mem.rs\<close>, \<^verbatim>\<open>file.rs\<close> and \<^verbatim>\<open>mirror.rs\<close>: leaf devices and the mirror. A leaf device
  is its bytes and whether the device underneath is dead, in which case every access is an error;
  a read or write outside of the device is an error as well (\<open>None\<close> or \<open>False\<close> as a result). The
  asynchronous requests of one operation go to different devices and are collected before it
  goes on, so they are modelled one after the other. The counters are 64-bit words that wrap.
  Offsets and sizes are numbers of blocks, and the data written is a whole number of blocks.
\<close>

subsection \<open>Leaf devices\<close>

record vdev_stats =
  vs_read :: "64 word"
  vs_written :: "64 word"
  vs_failed_reads :: "64 word"
  vs_checksum_errors :: "64 word"
  vs_repaired :: "64 word"
  vs_failed_writes :: "64 word"

record leaf =
  lf_mem :: bytes
  lf_dead :: bool
  lf_stats :: vdev_stats

definition leaf_new :: "nat \<Rightarrow> leaf" where
  "leaf_new sz = \<lparr>lf_mem = replicate (sz * BS) 0, lf_dead = False, lf_stats = \<lparr>vs_read = 0, vs_written = 0, vs_failed_reads = 0,
     vs_checksum_errors = 0, vs_repaired = 0, vs_failed_writes = 0\<rparr>\<rparr>"

definition leaf_size :: "leaf \<Rightarrow> nat" where
  "leaf_size v = length (lf_mem v) div BS"

definition leaf_slice :: "leaf \<Rightarrow> nat \<Rightarrow> nat \<Rightarrow> bytes option" where
  "leaf_slice v sz off = (if lf_dead v then None else cut (lf_mem v) (off * BS) (sz * BS))"

definition count_stat :: "((64 word \<Rightarrow> 64 word) \<Rightarrow> vdev_stats \<Rightarrow> vdev_stats) \<Rightarrow> nat \<Rightarrow> leaf \<Rightarrow> leaf" where
  "count_stat upd n v = v\<lparr>lf_stats := upd (\<lambda>x. x + word_of_nat n) (lf_stats v)\<rparr>"

definition leaf_read_raw :: "nat \<Rightarrow> nat \<Rightarrow> leaf \<Rightarrow> bytes option \<times> leaf" where
  "leaf_read_raw sz off v = (let v = count_stat vs_read_update sz v in
     case leaf_slice v sz off of
       Some d \<Rightarrow> (Some d, v)
     | None \<Rightarrow> (None, count_stat vs_failed_reads_update sz v))"

definition leaf_read :: "csum_lib \<Rightarrow> nat \<Rightarrow> nat \<Rightarrow> 64 word \<Rightarrow> leaf \<Rightarrow> bytes option \<times> leaf" where
  "leaf_read lib sz off checksum v = (case leaf_read_raw sz off v of
     (None, v) \<Rightarrow> (None, v)
   | (Some d, v) \<Rightarrow> if csum_verify lib checksum d then (Some d, v) else (None, count_stat vs_checksum_errors_update sz v))"

definition leaf_checksum_error_occurred :: "nat \<Rightarrow> leaf \<Rightarrow> leaf" where
  "leaf_checksum_error_occurred sz v = count_stat vs_checksum_errors_update sz v"

definition leaf_write_raw :: "bytes \<Rightarrow> nat \<Rightarrow> bool \<Rightarrow> leaf \<Rightarrow> bool \<times> leaf" where
  "leaf_write_raw d off is_repair v = (let block_cnt = length d div BS; v = count_stat vs_written_update block_cnt v in
     if \<not> lf_dead v \<and> off * BS + length d \<le> length (lf_mem v)
     then let v = v\<lparr>lf_mem := take (off * BS) (lf_mem v) @ d @ drop (off * BS + length d) (lf_mem v)\<rparr>
          in (True, if is_repair then count_stat vs_repaired_update block_cnt v else v)
     else (False, count_stat vs_failed_writes_update block_cnt v))"

record scrub_result =
  sr_data :: bytes
  sr_faulted :: nat
  sr_repaired :: nat

definition leaf_scrub :: "csum_lib \<Rightarrow> nat \<Rightarrow> nat \<Rightarrow> 64 word \<Rightarrow> leaf \<Rightarrow> scrub_result option \<times> leaf" where
  "leaf_scrub lib sz off checksum v = (let (r, v) = leaf_read lib sz off checksum v
     in (map_option (\<lambda>d. \<lparr>sr_data = d, sr_faulted = 0, sr_repaired = 0\<rparr>) r, v))"

subsection \<open>Facts about leaf devices\<close>

text \<open>What an intact device holds at a place, counters aside.\<close>

definition holds :: "leaf \<Rightarrow> nat \<Rightarrow> bytes \<Rightarrow> bool" where
  "holds v off d \<longleftrightarrow> off * BS + length d \<le> length (lf_mem v) \<and> take (length d) (drop (off * BS) (lf_mem v)) = d"

lemma count_stat_simps [simp]: "lf_mem (count_stat u n v) = lf_mem v" "lf_dead (count_stat u n v) = lf_dead v"
  by (simp_all add: count_stat_def)

lemma leaf_read_raw_simps [simp]:
  "fst (leaf_read_raw sz off v) = leaf_slice v sz off" "lf_mem (snd (leaf_read_raw sz off v)) = lf_mem v"
  "lf_dead (snd (leaf_read_raw sz off v)) = lf_dead v"
  by (auto simp: leaf_read_raw_def leaf_slice_def Let_def split: option.splits)

lemma leaf_slice_cong: "lf_mem v' = lf_mem v \<Longrightarrow> lf_dead v' = lf_dead v \<Longrightarrow> leaf_slice v' sz off = leaf_slice v sz off"
  by (simp add: leaf_slice_def)

lemma leaf_slice_holds: "holds v off d \<Longrightarrow> length d = sz * BS \<Longrightarrow> \<not> lf_dead v \<Longrightarrow> leaf_slice v sz off = Some d"
  by (simp add: holds_def leaf_slice_def cut_def)

lemma leaf_slice_length: "leaf_slice v sz off = Some d \<Longrightarrow> length d = sz * BS"
  by (auto simp: leaf_slice_def dest: length_cut split: if_splits)

lemma leaf_write_raw_simps:
  "lf_dead (snd (leaf_write_raw d off rep v)) = lf_dead v" "length (lf_mem (snd (leaf_write_raw d off rep v))) = length (lf_mem v)"
  by (auto simp: leaf_write_raw_def Let_def)

lemma leaf_write_raw_holds:
  assumes "\<not> lf_dead v" "off * BS + length d \<le> length (lf_mem v)"
  shows "fst (leaf_write_raw d off rep v)" "holds (snd (leaf_write_raw d off rep v)) off d"
  using assms by (auto simp: leaf_write_raw_def Let_def holds_def)

subsection \<open>The mirror\<close>

record mirror =
  mi_vdevs :: "leaf list"
  mi_stats :: vdev_stats

definition mi_count :: "((64 word \<Rightarrow> 64 word) \<Rightarrow> vdev_stats \<Rightarrow> vdev_stats) \<Rightarrow> nat \<Rightarrow> mirror \<Rightarrow> mirror" where
  "mi_count upd n m = m\<lparr>mi_stats := upd (\<lambda>x. x + word_of_nat n) (mi_stats m)\<rparr>"

text \<open>Rewriting the devices that failed: the number of successful writes and the devices.\<close>

fun repair_disks :: "bytes \<Rightarrow> nat \<Rightarrow> nat list \<Rightarrow> leaf list \<Rightarrow> nat \<times> leaf list" where
  "repair_disks d off [] vs = (0, vs)"
| "repair_disks d off (i # is) vs = (let (ok, v) = leaf_write_raw d off True (vs ! i); (n, vs') = repair_disks d off is (vs[i := v])
     in ((if ok then 1 else 0) + n, vs'))"

definition handle_repair :: "nat \<Rightarrow> nat \<Rightarrow> bytes option \<Rightarrow> nat list \<Rightarrow> mirror \<Rightarrow> scrub_result option \<times> mirror" where
  "handle_repair sz off d failed_disks m = (let m = mi_count vs_read_update sz m in
     case d of
       None \<Rightarrow> (None, mi_count vs_failed_reads_update sz m)
     | Some d \<Rightarrow> let (total_repaired, vs) = repair_disks d off failed_disks (mi_vdevs m)
         in (Some \<lparr>sr_data = d, sr_faulted = sz * length failed_disks, sr_repaired = sz * total_repaired\<rparr>,
             mi_count vs_repaired_update (total_repaired * sz) (m\<lparr>mi_vdevs := vs\<rparr>)))"

text \<open>Trying the devices in turn until one returns data that verifies.\<close>

fun mirror_try :: "csum_lib \<Rightarrow> nat \<Rightarrow> nat \<Rightarrow> 64 word \<Rightarrow> nat list \<Rightarrow> leaf list \<Rightarrow> bytes option \<times> nat list \<times> leaf list" where
  "mirror_try lib sz off checksum [] vs = (None, [], vs)"
| "mirror_try lib sz off checksum (i # is) vs = (case leaf_read lib sz off checksum (vs ! i) of
     (Some d, v) \<Rightarrow> (Some d, [], vs[i := v])
   | (None, v) \<Rightarrow> let (r, failed, vs') = mirror_try lib sz off checksum is (vs[i := v]) in (r, i # failed, vs'))"

definition mirror_order :: "nat \<Rightarrow> nat \<Rightarrow> nat list" where
  "mirror_order n off = (let start_idx = (off * BS) div 2 ^ 25 mod n in map (\<lambda>idx. (idx + start_idx) mod n) [0..<n])"

definition mirror_read :: "csum_lib \<Rightarrow> nat \<Rightarrow> nat \<Rightarrow> 64 word \<Rightarrow> mirror \<Rightarrow> bytes option \<times> mirror" where
  "mirror_read lib sz off checksum m =
     (let (d, failed_disks, vs) = mirror_try lib sz off checksum (mirror_order (length (mi_vdevs m)) off) (mi_vdevs m);
          (r, m) = handle_repair sz off d failed_disks (m\<lparr>mi_vdevs := vs\<rparr>)
      in (map_option sr_data r, m))"

text \<open>A scrub reads every device and keeps the data of the last one that verifies.\<close>

fun scrub_disks :: "csum_lib \<Rightarrow> nat \<Rightarrow> nat \<Rightarrow> 64 word \<Rightarrow> nat list \<Rightarrow> bytes option \<Rightarrow> leaf list \<Rightarrow> bytes option \<times> nat list \<times> leaf list" where
  "scrub_disks lib sz off checksum [] acc vs = (acc, [], vs)"
| "scrub_disks lib sz off checksum (i # is) acc vs = (let (r, v) = leaf_read lib sz off checksum (vs ! i) in
     case r of
       Some d \<Rightarrow> scrub_disks lib sz off checksum is (Some d) (vs[i := v])
     | None \<Rightarrow> let (d, failed, vs') = scrub_disks lib sz off checksum is acc (vs[i := v]) in (d, i # failed, vs'))"

definition mirror_scrub :: "csum_lib \<Rightarrow> nat \<Rightarrow> nat \<Rightarrow> 64 word \<Rightarrow> mirror \<Rightarrow> scrub_result option \<times> mirror" where
  "mirror_scrub lib sz off checksum m =
     (let (d, failed_disks, vs) = scrub_disks lib sz off checksum [0..<length (mi_vdevs m)] None (mi_vdevs m)
      in handle_repair sz off d failed_disks (m\<lparr>mi_vdevs := vs\<rparr>))"

definition mirror_write :: "bytes \<Rightarrow> nat \<Rightarrow> mirror \<Rightarrow> bool \<times> mirror" where
  "mirror_write d off m = (let sz = length d div BS; m = mi_count vs_written_update sz m;
       results = map (leaf_write_raw d off False) (mi_vdevs m);
       failed_writes = length (filter (\<lambda>r. \<not> fst r) results);
       m = m\<lparr>mi_vdevs := map snd results\<rparr>
     in if failed_writes < length results then (True, m) else (False, mi_count vs_failed_writes_update sz m))"

definition mirror_write_raw :: "bytes \<Rightarrow> nat \<Rightarrow> mirror \<Rightarrow> bool \<times> mirror" where
  "mirror_write_raw d off m = (let results = map (leaf_write_raw d off False) (mi_vdevs m);
       m = m\<lparr>mi_vdevs := map snd results\<rparr>
     in if list_all fst results then (True, m) else (False, mi_count vs_failed_writes_update (length d div BS) m))"

definition mirror_size :: "mirror \<Rightarrow> nat option" where
  "mirror_size m = (case mi_vdevs m of [] \<Rightarrow> None | v # vs \<Rightarrow> Some (fold (min \<circ> leaf_size) vs (leaf_size v)))"

definition mirror_actual_size :: "nat \<Rightarrow> nat" where
  "mirror_actual_size sz = sz"

definition mirror_effective_free_size :: "nat \<Rightarrow> nat" where
  "mirror_effective_free_size free_size = free_size"

subsection \<open>Reading from a mirror\<close>

text \<open>The verified data a device returns, and devices that are equal but for their counters.\<close>

definition verified :: "csum_lib \<Rightarrow> nat \<Rightarrow> nat \<Rightarrow> 64 word \<Rightarrow> leaf \<Rightarrow> bytes option" where
  "verified lib sz off checksum v = (case leaf_slice v sz off of Some d \<Rightarrow> if csum_verify lib checksum d then Some d else None | None \<Rightarrow> None)"

definition same_leaf :: "leaf \<Rightarrow> leaf \<Rightarrow> bool" where
  "same_leaf v v' \<longleftrightarrow> lf_mem v' = lf_mem v \<and> lf_dead v' = lf_dead v"

lemma same_leaf_refl [simp]: "same_leaf v v" by (simp add: same_leaf_def)

lemma same_leaf_trans: "same_leaf u v \<Longrightarrow> same_leaf v w \<Longrightarrow> same_leaf u w" by (simp add: same_leaf_def)

lemma same_leaf_verified: "same_leaf v v' \<Longrightarrow> verified lib sz off c v' = verified lib sz off c v"
  by (simp add: verified_def same_leaf_def leaf_slice_cong [of v' v])

lemma verified_facts: "verified lib sz off c v = Some d \<Longrightarrow> csum_verify lib c d \<and> length d = sz * BS \<and> \<not> lf_dead v \<and> holds v off d"
  by (auto simp: verified_def leaf_slice_def holds_def cut_def split: option.splits if_splits)

lemma leaf_read_verified: "fst (leaf_read lib sz off c v) = verified lib sz off c v" "same_leaf v (snd (leaf_read lib sz off c v))"
proof -
  obtain r v' where rv: "leaf_read_raw sz off v = (r, v')" by fastforce
  have "r = leaf_slice v sz off" "lf_mem v' = lf_mem v" "lf_dead v' = lf_dead v" using leaf_read_raw_simps [of sz off v] rv by simp_all
  then show "fst (leaf_read lib sz off c v) = verified lib sz off c v" "same_leaf v (snd (leaf_read lib sz off c v))"
    by (auto simp: leaf_read_def rv verified_def same_leaf_def split: option.splits)
qed

lemma Bex_set_nth: "(\<exists>x \<in> set xs. P x) \<longleftrightarrow> (\<exists>i \<in> {0..<length xs}. P (xs ! i))"
  unfolding Bex_def by (metis atLeastLessThan_iff in_set_conv_nth le0)

lemma mirror_try_spec:
  assumes "\<forall>i \<in> set is. i < length vs" "mirror_try lib sz off c is vs = (r, failed, vs')"
  shows "r = (case find (\<lambda>i. verified lib sz off c (vs ! i) \<noteq> None) is of None \<Rightarrow> None | Some i \<Rightarrow> verified lib sz off c (vs ! i))
    \<and> failed = takeWhile (\<lambda>i. verified lib sz off c (vs ! i) = None) is \<and> list_all2 same_leaf vs vs'"
  using assms
proof (induction "is" arbitrary: vs r failed vs')
  case Nil
  then show ?case by (auto simp: list_all2_conv_all_nth)
next
  case (Cons i "is")
  obtain x v where rd: "leaf_read lib sz off c (vs ! i) = (x, v)" by fastforce
  note lr = leaf_read_verified [where lib = lib and sz = sz and off = off and c = c and v = "vs ! i", unfolded rd fst_conv snd_conv]
  have i: "i < length vs" using Cons.prems(1) by simp
  have upd: "list_all2 same_leaf vs (vs[i := v])" using i lr(2) by (auto simp: list_all2_conv_all_nth nth_list_update)
  show ?case
  proof (cases x)
    case (Some d)
    have res: "r = Some d" "failed = []" "vs' = vs[i := v]" using Cons.prems(2) unfolding mirror_try.simps rd Some by simp_all
    have "verified lib sz off c (vs ! i) = Some d" using lr(1) Some by simp
    then show ?thesis unfolding res using upd by simp
  next
    case None
    obtain r1 f1 vs1 where rec: "mirror_try lib sz off c is (vs[i := v]) = (r1, f1, vs1)" by (metis prod_cases3)
    have same: "verified lib sz off c (vs[i := v] ! j) = verified lib sz off c (vs ! j)" for j
      by (cases "j = i") (use i same_leaf_verified [OF lr(2)] in auto)
    have "r = r1" "failed = i # f1" "vs' = vs1" using Cons.prems(2) rd None rec by auto
    moreover have "list_all2 same_leaf vs vs1"
    proof -
      have "list_all2 same_leaf (vs[i := v]) vs1" using Cons.IH [OF _ rec] Cons.prems(1) by simp
      with upd show ?thesis by (rule list_all2_trans [rotated]) (auto intro: same_leaf_trans)
    qed
    ultimately show ?thesis using Cons.IH [OF _ rec] Cons.prems(1) lr(1) None unfolding same by auto
  qed
qed

lemma repair_disks_spec:
  assumes "distinct is" "\<forall>i \<in> set is. i < length vs" "repair_disks d off is vs = (n, vs')"
  shows "length vs' = length vs" "j < length vs \<Longrightarrow> vs' ! j = (if j \<in> set is then snd (leaf_write_raw d off True (vs ! j)) else vs ! j)"
proof -
  have "length vs' = length vs \<and> (\<forall>j < length vs. vs' ! j = (if j \<in> set is then snd (leaf_write_raw d off True (vs ! j)) else vs ! j))"
    using assms
  proof (induction "is" arbitrary: vs n vs')
    case (Cons i "is")
    obtain ok v where w: "leaf_write_raw d off True (vs ! i) = (ok, v)" by fastforce
    obtain n1 vs1 where rec: "repair_disks d off is (vs[i := v]) = (n1, vs1)" by fastforce
    have "vs' = vs1" using Cons.prems(3) w rec by (simp add: Let_def)
    moreover have "length vs1 = length vs \<and> (\<forall>j < length vs. vs1 ! j = (if j \<in> set is then snd (leaf_write_raw d off True (vs[i := v] ! j)) else vs[i := v] ! j))"
      using Cons.IH [OF _ _ rec] Cons.prems(1,2) by simp
    moreover have "i \<notin> set is" "i < length vs" using Cons.prems(1,2) by auto
    ultimately show ?case using w by (auto simp: nth_list_update)
  qed simp
  then show "length vs' = length vs" "j < length vs \<Longrightarrow> vs' ! j = (if j \<in> set is then snd (leaf_write_raw d off True (vs ! j)) else vs ! j)"
    by blast+
qed

lemma mirror_order_facts: "0 < n \<Longrightarrow> distinct (mirror_order n off)" "0 < n \<Longrightarrow> set (mirror_order n off) = {0..<n}"
proof -
  assume n: "0 < n"
  define s where "s = (off * BS) div 2 ^ 25 mod n"
  have order: "mirror_order n off = map (\<lambda>idx. (idx + s) mod n) [0..<n]" by (simp add: mirror_order_def s_def Let_def)
  have inj: "inj_on (\<lambda>idx. (idx + s) mod n) {0..<n}"
  proof (rule inj_onI)
    fix x y assume xy: "x \<in> {0..<n}" "y \<in> {0..<n}" "(x + s) mod n = (y + s) mod n"
    then have "int n dvd int (x + s) - int (y + s)" by (metis mod_eq_dvd_iff of_nat_mod)
    then have dvd: "int n dvd int x - int y" by simp
    show "x = y"
    proof (rule ccontr)
      assume "x \<noteq> y"
      then have "\<bar>int n\<bar> \<le> \<bar>int x - int y\<bar>" using dvd by (intro dvd_imp_le_int) auto
      then show False using xy(1,2) by auto
    qed
  qed
  then show "distinct (mirror_order n off)" unfolding order by (simp add: distinct_map)
  have "set (mirror_order n off) \<subseteq> {0..<n}" unfolding order using n by auto
  moreover have "card (set (mirror_order n off)) = n" unfolding order using card_image [OF inj] by simp
  ultimately show "set (mirror_order n off) = {0..<n}" by (simp add: card_subset_eq)
qed


definition example_mirror :: mirror where
  "example_mirror = \<lparr>mi_vdevs = [leaf_new 0, (leaf_new 1)\<lparr>lf_dead := True\<rparr>, leaf_new 1],
     mi_stats = lf_stats (leaf_new 0)\<rparr>"


end
