(* ===== verification/Parity1.thy ===== *)
theory Parity1
  imports Vdev
begin

text \<open>
  \<^verbatim>\<open>betree/src/vdev/parity1.rs\<close>: striping over several leaf devices with one parity column. The
  parity is the exclusive or of the columns, so a read survives the loss of any one device. The
  checksum of data given in pieces (\<^verbatim>\<open>verify_buffer\<close>) is a parameter \<open>hs\<close>, for the hash function ingests
  the pieces one by one. A failed read leaves arbitrary bytes in its piece of the buffer. \<open>None\<close> inside
  the result is the read error; the outer \<open>None\<close> is a panic of a slice operation.
\<close>

unbundle bit_operations_syntax

record parity1 =
  pa_vdevs :: "leaf list"
  pa_stats :: vdev_stats

definition p1_new :: "leaf list \<Rightarrow> parity1 option" where
  "p1_new vdevs = do { assert_that (length vdevs \<ge> 3); Some \<lparr>pa_vdevs = vdevs, pa_stats = lf_stats (leaf_new 0)\<rparr> }"

definition long_col_len :: "nat \<Rightarrow> nat \<Rightarrow> nat" where
  "long_col_len n sz = (if sz = 0 then 0 else (sz - 1) div (n - 1) + 1)"

definition long_col_cnt :: "nat \<Rightarrow> nat \<Rightarrow> nat" where
  "long_col_cnt disk_cnt sz = (if sz = 0 then disk_cnt - 1 else
     let cnt = sz mod (disk_cnt - 1) in if cnt = 0 then disk_cnt - 1 else cnt)"

definition p1_actual_size :: "nat \<Rightarrow> nat \<Rightarrow> nat" where
  "p1_actual_size n sz = sz + long_col_len n sz"

definition p1_size :: "parity1 \<Rightarrow> nat option" where
  "p1_size pa = (case pa_vdevs pa of [] \<Rightarrow> None
     | v # vs \<Rightarrow> Some (fold (min \<circ> leaf_size) vs (leaf_size v) * length (pa_vdevs pa)))"

definition p1_effective_free_size :: "nat \<Rightarrow> nat \<Rightarrow> nat" where
  "p1_effective_free_size cnt free_size = free_size * (cnt - 1) div cnt"

definition p1_count :: "((64 word \<Rightarrow> 64 word) \<Rightarrow> vdev_stats \<Rightarrow> vdev_stats) \<Rightarrow> nat \<Rightarrow> parity1 \<Rightarrow> parity1" where
  "p1_count upd n m = m\<lparr>pa_stats := upd (\<lambda>x. x + word_of_nat n) (pa_stats m)\<rparr>"

definition xor_into :: "bytes \<Rightarrow> bytes \<Rightarrow> bytes" where
  "xor_into d s = map2 (XOR) d s @ drop (length s) d"

definition calc_col_length :: "nat \<Rightarrow> nat \<Rightarrow> nat \<Rightarrow> nat" where
  "calc_col_length col_idx len cnt = (if col_idx < cnt then len else len - 1)"

definition calc_col_offset :: "nat \<Rightarrow> nat \<Rightarrow> nat \<Rightarrow> nat" where
  "calc_col_offset col_idx len cnt = (if col_idx \<le> cnt then len * col_idx else len * cnt + (len - 1) * (col_idx - cnt))"

text \<open>The devices after the parity device, then those before it one block further on.\<close>

definition disk_iter :: "nat \<Rightarrow> nat \<Rightarrow> nat \<Rightarrow> (nat \<times> nat) list" where
  "disk_iter n parity_idx parity_disk_offset =
     map (\<lambda>i. (i, parity_disk_offset)) [parity_idx + 1..<n] @ map (\<lambda>i. (i, parity_disk_offset + 1)) [0..<parity_idx]"

definition col_length_sequence :: "nat \<Rightarrow> nat \<Rightarrow> nat \<Rightarrow> nat list" where
  "col_length_sequence len cnt disk_cnt = take (disk_cnt - 1) (replicate cnt len @ replicate (disk_cnt - 1) (len - 1))"

text \<open>Splitting a slice of bytes into columns.\<close>

fun split_cols :: "nat list \<Rightarrow> bytes \<Rightarrow> bytes list option" where
  "split_cols [] d = Some []"
| "split_cols (c # cs) d = do {
     cur \<leftarrow> cut d 0 (c * BS);
     rest \<leftarrow> split_cols cs (drop (c * BS) d);
     Some (cur # rest) }"

definition block_iter :: "nat \<Rightarrow> nat \<Rightarrow> nat \<Rightarrow> bytes \<Rightarrow> bytes list option" where
  "block_iter len cnt disk_cnt d = split_cols (col_length_sequence len cnt disk_cnt) d"

definition build_parity :: "bytes \<Rightarrow> nat \<Rightarrow> nat \<Rightarrow> nat \<Rightarrow> bytes option" where
  "build_parity d len cnt disk_cnt = do {
     cols \<leftarrow> split_cols (takeWhile (\<lambda>c. c \<noteq> 0) (col_length_sequence len cnt disk_cnt)) d;
     Some (fold (\<lambda>col parity. xor_into parity col) cols (replicate (len * BS) 0)) }"

text \<open>The requests of a write, one per device, and issuing them: the number of errors and the devices.\<close>

fun column_writes :: "(nat \<times> nat) list \<Rightarrow> nat list \<Rightarrow> bytes \<Rightarrow> (nat \<times> nat \<times> bytes) list" where
  "column_writes ((disk, off) # ds) (c # cs) d =
     (if c = 0 then [] else (disk, off, take (c * BS) d) # column_writes ds cs (drop (c * BS) d))"
| "column_writes _ _ d = []"

fun write_disks :: "(nat \<times> nat \<times> bytes) list \<Rightarrow> leaf list \<Rightarrow> nat \<times> leaf list" where
  "write_disks [] vs = (0, vs)"
| "write_disks ((disk, off, d) # ws) vs = (let (ok, v) = leaf_write_raw d off False (vs ! disk); (n, vs') = write_disks ws (vs[disk := v])
     in ((if ok then 0 else 1) + n, vs'))"

definition p1_write :: "bytes \<Rightarrow> nat \<Rightarrow> parity1 \<Rightarrow> (bool \<times> parity1) option" where
  "p1_write d off pa = do {
     let sz = length d div BS;
     let disk_cnt = length (pa_vdevs pa);
     let len = long_col_len disk_cnt sz;
     let cnt = long_col_cnt disk_cnt sz;
     parity_block \<leftarrow> build_parity d len cnt disk_cnt;
     let parity_disk_offset = off div disk_cnt;
     let parity_disk_idx = off mod disk_cnt;
     let ws = (parity_disk_idx, parity_disk_offset, parity_block)
       # column_writes (disk_iter disk_cnt parity_disk_idx parity_disk_offset) (col_length_sequence len cnt disk_cnt) d;
     let (errors, vs) = write_disks ws (pa_vdevs pa);
     let pa = pa\<lparr>pa_vdevs := vs\<rparr>;
     Some (if errors \<le> 1 then (True, pa) else (False, p1_count vs_failed_writes_update sz pa)) }"

text \<open>Reading the columns: the bytes in the buffer and whether the device delivered them.\<close>

fun read_cols :: "(nat \<Rightarrow> byte) \<Rightarrow> (nat \<times> nat) list \<Rightarrow> nat list \<Rightarrow> leaf list \<Rightarrow> (bytes \<times> bool) list \<times> leaf list" where
  "read_cols junk ((disk, off) # ds) (c # cs) vs =
     (if c = 0 then ([], vs)
      else let (r, v) = leaf_read_raw c off (vs ! disk); (rs, vs') = read_cols junk ds cs (vs[disk := v])
        in ((case r of Some d \<Rightarrow> (d, True) | None \<Rightarrow> (fresh_memory junk 0 (c * BS), False)) # rs, vs'))"
| "read_cols junk _ _ vs = ([], vs)"

definition verify_buffer :: "(bytes list \<Rightarrow> 64 word) \<Rightarrow> 64 word \<Rightarrow> bytes list \<Rightarrow> bool" where
  "verify_buffer hs c ds \<longleftrightarrow> c = 0 \<or> c = hs ds"

text \<open>Exclusive or over the other columns of \<open>blocks\<close>.\<close>

definition xor_others :: "nat \<Rightarrow> bytes list \<Rightarrow> bytes \<Rightarrow> bytes" where
  "xor_others failed_idx blocks d = fold (\<lambda>(idx, block) acc. if idx \<noteq> failed_idx then xor_into acc block else acc) (zip [0..<length blocks] blocks) d"

definition put_range :: "nat \<Rightarrow> bytes \<Rightarrow> bytes \<Rightarrow> bytes option" where
  "put_range start r d = (if start + length r \<le> length d then Some (take start d @ r @ drop (start + length r) d) else None)"

text \<open>Rewriting a column or the parity on its device; the result counts the blocks if it succeeded.\<close>

definition rewrite :: "nat \<Rightarrow> nat \<Rightarrow> bytes \<Rightarrow> nat \<Rightarrow> parity1 \<Rightarrow> nat \<times> parity1" where
  "rewrite disk off r faulted pa = (let (ok, v) = leaf_write_raw r off True (pa_vdevs pa ! disk)
     in (if ok then faulted else 0, pa\<lparr>pa_vdevs := (pa_vdevs pa)[disk := v]\<rparr>))"

definition bad_disk_offset :: "nat \<Rightarrow> nat \<Rightarrow> nat \<Rightarrow> nat \<Rightarrow> nat" where
  "bad_disk_offset n parity_disk_idx idx parity_disk_offset =
     (if parity_disk_idx + 1 + idx < n then parity_disk_offset else parity_disk_offset + 1)"

text \<open>Exactly one device failed: its column is rebuilt from the parity.\<close>

definition rebuild ::
  "(bytes list \<Rightarrow> 64 word) \<Rightarrow> nat \<Rightarrow> 64 word \<Rightarrow> nat \<Rightarrow> nat \<Rightarrow> nat \<Rightarrow> nat \<Rightarrow> nat \<Rightarrow> nat \<Rightarrow> bytes \<Rightarrow> bytes \<Rightarrow> parity1
    \<Rightarrow> (scrub_result option \<times> parity1) option" where
  "rebuild hs sz checksum failed_idx faulted len cnt parity_disk_idx parity_disk_offset parity_block d pa = do {
     let disk_cnt = length (pa_vdevs pa);
     let bad_block_len = calc_col_length failed_idx len cnt;
     start \<leftarrow> cut parity_block 0 (bad_block_len * BS);
     blocks \<leftarrow> block_iter len cnt disk_cnt d;
     let repaired_block = xor_others failed_idx blocks start;
     d \<leftarrow> put_range (calc_col_offset failed_idx len cnt * BS) repaired_block d;
     if \<not> verify_buffer hs checksum [d]
     then Some (None, p1_count vs_checksum_errors_update sz (p1_count vs_failed_reads_update sz pa))
     else do {
       let (repaired, pa) = rewrite ((parity_disk_idx + 1 + failed_idx) mod disk_cnt)
         (bad_disk_offset disk_cnt parity_disk_idx failed_idx parity_disk_offset) repaired_block faulted pa;
       Some (Some \<lparr>sr_data = d, sr_faulted = faulted, sr_repaired = repaired\<rparr>, pa) } }"

text \<open>Scrubbing verified data: the parity is checked and rewritten if it is wrong.\<close>

definition check_parity :: "nat \<Rightarrow> nat \<Rightarrow> nat \<Rightarrow> nat \<Rightarrow> nat \<Rightarrow> bytes \<Rightarrow> bytes \<Rightarrow> parity1 \<Rightarrow> (scrub_result option \<times> parity1) option" where
  "check_parity faulted len cnt parity_disk_idx parity_disk_offset parity_block d pa = do {
     blocks \<leftarrow> block_iter len cnt (length (pa_vdevs pa)) d;
     let new_parity_block = fold (\<lambda>block acc. xor_into acc block) blocks (replicate (len * BS) 0);
     if new_parity_block = parity_block then Some (Some \<lparr>sr_data = d, sr_faulted = 0, sr_repaired = 0\<rparr>, pa)
     else do {
       let (repaired, pa) = rewrite parity_disk_idx parity_disk_offset new_parity_block faulted pa;
       Some (Some \<lparr>sr_data = d, sr_faulted = faulted, sr_repaired = repaired\<rparr>, pa) } }"

text \<open>Every device returned data that does not verify: one column after the other is replaced.\<close>

fun find_bad_block :: "(bytes list \<Rightarrow> 64 word) \<Rightarrow> 64 word \<Rightarrow> bytes \<Rightarrow> bytes list \<Rightarrow> nat list \<Rightarrow> (nat \<times> bytes) option" where
  "find_bad_block hs checksum all_xored blocks [] = None"
| "find_bad_block hs checksum all_xored blocks (idx # rest) =
     (let block = blocks ! idx; repaired_block = xor_into all_xored block
      in if verify_buffer hs checksum (take idx blocks @ take (length block) repaired_block # drop (idx + 1) blocks)
         then Some (idx, repaired_block) else find_bad_block hs checksum all_xored blocks rest)"

definition reconstruct ::
  "(bytes list \<Rightarrow> 64 word) \<Rightarrow> nat \<Rightarrow> 64 word \<Rightarrow> nat \<Rightarrow> nat \<Rightarrow> nat \<Rightarrow> nat \<Rightarrow> nat \<Rightarrow> bytes \<Rightarrow> bytes \<Rightarrow> parity1
    \<Rightarrow> (scrub_result option \<times> parity1) option" where
  "reconstruct hs sz checksum faulted len cnt parity_disk_idx parity_disk_offset parity_block d pa = do {
     let disk_cnt = length (pa_vdevs pa);
     blocks \<leftarrow> block_iter len cnt disk_cnt d;
     let all_xored = fold (\<lambda>block acc. xor_into acc block) blocks parity_block;
     case find_bad_block hs checksum all_xored blocks [0..<length blocks] of
       None \<Rightarrow> Some (None, p1_count vs_checksum_errors_update sz (p1_count vs_failed_reads_update sz pa))
     | Some (bad_block_idx, repaired_block) \<Rightarrow> do {
         let bad_block_len = calc_col_length bad_block_idx len cnt;
         let repaired_block = take (bad_block_len * BS) repaired_block;
         let bad_disk_idx = (parity_disk_idx + 1 + bad_block_idx) mod disk_cnt;
         d \<leftarrow> put_range (calc_col_offset bad_block_idx len cnt * BS) repaired_block d;
         let pa = pa\<lparr>pa_vdevs := (pa_vdevs pa)[bad_disk_idx := leaf_checksum_error_occurred sz (pa_vdevs pa ! bad_disk_idx)]\<rparr>;
         let (repaired, pa) = rewrite bad_disk_idx (bad_disk_offset disk_cnt parity_disk_idx bad_block_idx parity_disk_offset)
           repaired_block faulted pa;
         Some (Some \<lparr>sr_data = d, sr_faulted = faulted, sr_repaired = repaired\<rparr>, pa) } }"

definition p1_read_scrub ::
  "(nat \<Rightarrow> byte) \<Rightarrow> (bytes list \<Rightarrow> 64 word) \<Rightarrow> nat \<Rightarrow> nat \<Rightarrow> 64 word \<Rightarrow> bool \<Rightarrow> parity1 \<Rightarrow> (scrub_result option \<times> parity1) option" where
  "p1_read_scrub junk hs sz off checksum scrub pa = do {
     let disk_cnt = length (pa_vdevs pa);
     let pa = p1_count vs_read_update sz pa;
     let len = long_col_len disk_cnt sz;
     let cnt = long_col_cnt disk_cnt sz;
     let parity_disk_offset = off div disk_cnt;
     let parity_disk_idx = off mod disk_cnt;
     let (cols, vs) = read_cols junk (disk_iter disk_cnt parity_disk_idx parity_disk_offset) (col_length_sequence len cnt disk_cnt) (pa_vdevs pa);
     let pa = pa\<lparr>pa_vdevs := vs\<rparr>;
     let failed = filter (\<lambda>idx. \<not> snd (cols ! idx)) [0..<length cols];
     let faulted = sum_list (map (\<lambda>idx. calc_col_length idx len cnt) failed);
     if 2 \<le> length failed then Some (None, p1_count vs_failed_reads_update sz pa)
     else do {
       let d = concat (map fst cols);
       if failed = [] \<and> \<not> scrub \<and> verify_buffer hs checksum [d]
       then Some (Some \<lparr>sr_data = d, sr_faulted = 0, sr_repaired = 0\<rparr>, pa)
       else do {
         let (r, v) = leaf_read_raw len parity_disk_offset (pa_vdevs pa ! parity_disk_idx);
         let pa = pa\<lparr>pa_vdevs := (pa_vdevs pa)[parity_disk_idx := v]\<rparr>;
         if r = None \<and> failed \<noteq> [] then Some (None, p1_count vs_failed_reads_update sz pa)
         else do {
           let parity_block = (case r of Some b \<Rightarrow> b | None \<Rightarrow> replicate (len * BS) 0);
           case failed of
             failed_idx # _ \<Rightarrow> rebuild hs sz checksum failed_idx faulted len cnt parity_disk_idx parity_disk_offset parity_block d pa
           | [] \<Rightarrow> if scrub \<and> verify_buffer hs checksum [d]
               then check_parity faulted len cnt parity_disk_idx parity_disk_offset parity_block d pa
               else reconstruct hs sz checksum faulted len cnt parity_disk_idx parity_disk_offset parity_block d pa } } } }"

definition p1_read ::
  "(nat \<Rightarrow> byte) \<Rightarrow> (bytes list \<Rightarrow> 64 word) \<Rightarrow> nat \<Rightarrow> nat \<Rightarrow> 64 word \<Rightarrow> parity1 \<Rightarrow> (bytes option \<times> parity1) option" where
  "p1_read junk hs sz off checksum pa = map_option (map_prod (map_option sr_data) id) (p1_read_scrub junk hs sz off checksum False pa)"

definition p1_scrub ::
  "(nat \<Rightarrow> byte) \<Rightarrow> (bytes list \<Rightarrow> 64 word) \<Rightarrow> nat \<Rightarrow> nat \<Rightarrow> 64 word \<Rightarrow> parity1 \<Rightarrow> (scrub_result option \<times> parity1) option" where
  "p1_scrub junk hs sz off checksum pa = p1_read_scrub junk hs sz off checksum True pa"

definition p1_write_raw :: "bytes \<Rightarrow> nat \<Rightarrow> parity1 \<Rightarrow> bool \<times> parity1" where
  "p1_write_raw d off pa = (let results = map (leaf_write_raw d off False) (pa_vdevs pa);
       pa = pa\<lparr>pa_vdevs := map snd results\<rparr>
     in if list_all fst results then (True, pa) else (False, p1_count vs_failed_writes_update (length d div BS) pa))"

subsection \<open>Columns\<close>

definition col_seq :: "nat \<Rightarrow> nat \<Rightarrow> nat list" where
  "col_seq n sz = col_length_sequence (long_col_len n sz) (long_col_cnt n sz) n"

abbreviation used_cols :: "nat list \<Rightarrow> nat" where
  "used_cols cs \<equiv> length (takeWhile (\<lambda>c. c \<noteq> 0) cs)"

lemma long_col_facts:
  assumes "3 \<le> n"
  shows "long_col_cnt n sz \<le> n - 1" "0 < long_col_cnt n sz"
    "0 < sz \<Longrightarrow> 0 < long_col_len n sz"
    "0 < sz \<Longrightarrow> sz = (long_col_len n sz - 1) * (n - 1) + long_col_cnt n sz"
proof -
  show "long_col_cnt n sz \<le> n - 1" "0 < long_col_cnt n sz"
    using assms by (auto simp: long_col_cnt_def Let_def intro: less_imp_le)
  assume "0 < sz"
  then show "0 < long_col_len n sz"
    by (simp add: long_col_len_def)
  have "sz = (sz - 1) div m * m + (if sz mod m = 0 then m else sz mod m)" if "2 \<le> m" for m
  proof -
    from \<open>0 < sz\<close> obtain k where k: "sz = Suc k"
      by (cases sz) auto
    show ?thesis
    proof (cases "Suc k mod m = 0")
      case True
      then have "k mod m = m - 1"
        using that by (auto simp: mod_Suc split: if_splits)
      then have "k = k div m * m + (m - 1)"
        by (metis div_mult_mod_eq)
      then show ?thesis
        using True that by (simp add: k)
    next
      case False
      then have "Suc k div m = k div m"
        using that by (simp add: div_Suc)
      then have "Suc k = k div m * m + Suc k mod m"
        by (metis div_mult_mod_eq)
      then show ?thesis
        using False by (simp add: k)
    qed
  qed
  moreover have "2 \<le> n - 1"
    using assms by simp
  ultimately have "sz = (sz - 1) div (n - 1) * (n - 1) + (if sz mod (n - 1) = 0 then n - 1 else sz mod (n - 1))" .
  then show "sz = (long_col_len n sz - 1) * (n - 1) + long_col_cnt n sz"
    unfolding long_col_len_def long_col_cnt_def Let_def using \<open>0 < sz\<close> by simp
qed

lemma col_seq_eq:
  assumes "3 \<le> n"
  shows "col_seq n sz = replicate (long_col_cnt n sz) (long_col_len n sz)
    @ replicate (n - 1 - long_col_cnt n sz) (long_col_len n sz - 1)"
  using long_col_facts(1) [OF assms, of sz] by (simp add: col_seq_def col_length_sequence_def min_def)

lemma length_col_seq [simp]: "3 \<le> n \<Longrightarrow> length (col_seq n sz) = n - 1"
  using long_col_facts(1) [of n sz] by (simp add: col_seq_eq)

lemma nth_col_seq: "3 \<le> n \<Longrightarrow> j < n - 1 \<Longrightarrow> col_seq n sz ! j = calc_col_length j (long_col_len n sz) (long_col_cnt n sz)"
  using long_col_facts(1) [of n sz] by (simp add: col_seq_eq nth_append calc_col_length_def)

lemma sum_col_seq:
  assumes "3 \<le> n"
  shows "sum_list (col_seq n sz) = sz"
proof (cases "sz = 0")
  case True
  then show ?thesis
    using assms unfolding col_seq_eq [OF assms] by (simp add: long_col_len_def sum_list_replicate)
next
  case False
  define l m c where "l = long_col_len n sz - 1" and "m = n - 1" and "c = long_col_cnt n sz"
  have l: "long_col_len n sz = Suc l" "c \<le> m" and sz: "l * m + c = sz"
    using False long_col_facts [OF assms, of sz] by (simp_all add: l_def m_def c_def)
  have "c * Suc l + (m - c) * l = l * m + c"
    using le_Suc_ex [OF \<open>c \<le> m\<close>] by (auto simp: algebra_simps)
  also note sz
  finally have "c * Suc l + (m - c) * l = sz" .
  then show ?thesis
    unfolding col_seq_eq [OF assms] l(1) sum_list_append sum_list_replicate c_def m_def by simp
qed

lemma col_seq_tail:
  assumes "3 \<le> n" "used_cols (col_seq n sz) \<le> j" "j < n - 1"
  shows "col_seq n sz ! j = 0"
proof (cases "long_col_len n sz \<le> 1")
  case False
  then have "takeWhile (\<lambda>c. c \<noteq> 0) (col_seq n sz) = col_seq n sz"
    using assms(1) by (subst takeWhile_eq_all_conv) (auto simp: col_seq_eq)
  then show ?thesis
    using assms(2, 3) length_col_seq [OF assms(1), of sz] by (simp only:)
next
  case True
  then consider "long_col_len n sz = 0" | "long_col_len n sz = 1"
    by linarith
  then show ?thesis
  proof cases
    case 1
    then show ?thesis
      using assms by (simp add: nth_col_seq calc_col_length_def)
  next
    case 2
    then have "used_cols (col_seq n sz) = long_col_cnt n sz"
      using assms(1) by (simp add: col_seq_eq takeWhile_append)
    then show ?thesis
      using assms 2 by (simp add: nth_col_seq calc_col_length_def)
  qed
qed

lemma calc_col_length_le: "calc_col_length j len cnt \<le> len"
  by (simp add: calc_col_length_def)

lemma calc_col_offset_eq:
  assumes "3 \<le> n" "j \<le> n - 1"
  shows "calc_col_offset j (long_col_len n sz) (long_col_cnt n sz) = sum_list (take j (col_seq n sz))"
proof (cases "j \<le> long_col_cnt n sz")
  case True
  then show ?thesis
    using assms by (simp add: calc_col_offset_def col_seq_eq sum_list_replicate min_def)
next
  case False
  then show ?thesis
    using assms long_col_facts(1) [OF assms(1), of sz]
    by (simp add: calc_col_offset_def col_seq_eq sum_list_replicate min_def)
qed

text \<open>Pieces of data that fit the columns.\<close>

definition fits :: "nat list \<Rightarrow> bytes list \<Rightarrow> bool" where
  "fits cs ps \<longleftrightarrow> map length ps = map (\<lambda>c. c * BS) cs"

lemma fits_Cons: "fits (c # cs) ps \<longleftrightarrow> (\<exists>p qs. ps = p # qs \<and> length p = c * BS \<and> fits cs qs)"
  by (cases ps) (auto simp: fits_def)

lemma fits_length: "fits cs ps \<Longrightarrow> length ps = length cs"
  by (auto simp: fits_def dest: map_eq_imp_length_eq)

lemma fits_nth:
  assumes "fits cs ps" "j < length cs"
  shows "length (ps ! j) = cs ! j * BS"
proof -
  have "map length ps ! j = map (\<lambda>c. c * BS) cs ! j"
    using assms(1) by (simp only: fits_def)
  then show ?thesis
    using assms fits_length [OF assms(1)] by simp
qed

lemma fits_exists: "length d = sum_list cs * BS \<Longrightarrow> \<exists>ps. fits cs ps \<and> concat ps = d"
proof (induction cs arbitrary: d)
  case Nil
  then show ?case
    by (auto simp: fits_def)
next
  case (Cons c cs)
  then have "length (drop (c * BS) d) = sum_list cs * BS"
    by (simp add: add_mult_distrib)
  from Cons.IH [OF this] obtain ps where "fits cs ps" "concat ps = drop (c * BS) d"
    by blast
  then show ?case
    using Cons.prems by (intro exI [of _ "take (c * BS) d # ps"]) (simp add: fits_def)
qed

lemma split_cols_concat: "fits cs ps \<Longrightarrow> split_cols cs (concat ps) = Some ps"
  by (induction cs arbitrary: ps) (simp add: fits_def, auto simp: fits_Cons cut_def)

lemma split_cols_concat_take: "fits cs ps \<Longrightarrow> split_cols (take k cs) (concat ps) = Some (take k ps)"
proof (induction cs arbitrary: ps k)
  case Nil
  then show ?case
    by (simp add: fits_def)
next
  case (Cons c cs)
  then show ?case
    by (cases k) (auto simp: fits_Cons cut_def)
qed

lemma fits_concat_length: "fits cs ps \<Longrightarrow> length (concat ps) = sum_list cs * BS"
  by (induction cs arbitrary: ps) (simp add: fits_def, auto simp: fits_Cons add_mult_distrib)

lemma fits_update: "fits cs ps \<Longrightarrow> j < length cs \<Longrightarrow> length p = cs ! j * BS \<Longrightarrow> fits cs (ps[j := p])"
  by (auto simp: fits_def map_update list_update_same_conv)

lemma put_range_concat:
  "fits cs ps \<Longrightarrow> j < length cs \<Longrightarrow> length p = cs ! j * BS
    \<Longrightarrow> put_range (sum_list (take j cs) * BS) p (concat ps) = Some (concat (ps[j := p]))"
proof (induction cs arbitrary: ps j)
  case (Cons c cs)
  from Cons.prems(1) obtain q qs where ps: "ps = q # qs" "length q = c * BS" "fits cs qs"
    by (auto simp: fits_Cons)
  show ?case
  proof (cases j)
    case 0
    then show ?thesis
      using Cons.prems ps by (simp add: put_range_def)
  next
    case (Suc i)
    then have "put_range (sum_list (take i cs) * BS) p (concat qs) = Some (concat (qs[i := p]))"
      using Cons.prems by (intro Cons.IH ps(3)) auto
    then show ?thesis
      using ps(2) unfolding ps(1) Suc put_range_def
      by (simp add: add_mult_distrib split: if_splits)
  qed
qed simp

subsection \<open>Exclusive or\<close>

definition byte_at :: "bytes \<Rightarrow> nat \<Rightarrow> byte" where
  "byte_at c i = (if i < length c then c ! i else 0)"

primrec xor_at :: "bytes list \<Rightarrow> nat \<Rightarrow> byte" where
  "xor_at [] i = 0"
| "xor_at (c # cs) i = byte_at c i XOR xor_at cs i"

lemma length_xor_into [simp]: "length (xor_into d s) = length d"
  by (simp add: xor_into_def)

lemma nth_xor_into: "i < length d \<Longrightarrow> xor_into d s ! i = d ! i XOR byte_at s i"
  by (auto simp: xor_into_def byte_at_def nth_append)

lemma xor_fold: "length (fold (\<lambda>c d. xor_into d c) cs d) = length d
    \<and> (\<forall>i<length d. fold (\<lambda>c d. xor_into d c) cs d ! i = d ! i XOR xor_at cs i)"
  by (induction cs arbitrary: d) (auto simp: nth_xor_into xor.assoc)

lemma xor_at_remove: "f < length cs \<Longrightarrow> xor_at cs i = byte_at (cs ! f) i XOR xor_at (cs[f := []]) i"
proof (induction cs arbitrary: f)
  case (Cons c cs)
  then show ?case
    by (cases f) (auto simp: byte_at_def ac_simps)
qed simp

lemma xor_at_take: "(\<And>j. k \<le> j \<Longrightarrow> j < length cs \<Longrightarrow> cs ! j = []) \<Longrightarrow> xor_at (take k cs) i = xor_at cs i"
proof (induction cs arbitrary: k)
  case (Cons c cs)
  show ?case
  proof (cases k)
    case 0
    then have "c = []" "xor_at (take 0 cs) i = xor_at cs i"
      using Cons.prems [of 0] Cons.prems [of "Suc j" for j] Cons.IH [of 0] 0 by simp_all
    then show ?thesis
      using 0 by (simp add: byte_at_def)
  next
    case (Suc l)
    then show ?thesis
      using Cons.prems [of "Suc j" for j] by (simp add: Cons.IH)
  qed
qed simp

lemma xor_others_eq: "xor_others f blocks d = fold (\<lambda>c d. xor_into d c) (blocks[f := []]) d"
proof -
  have "fold (\<lambda>(idx, block) acc. if idx \<noteq> f then xor_into acc block else acc) (zip [m..<m + length bs] bs) d
      = fold (\<lambda>c d. xor_into d c) (if m \<le> f then bs[f - m := []] else bs) d" for m bs
  proof (induction bs arbitrary: m d)
    case (Cons b bs)
    have nil: "xor_into e [] = e" for e
      by (simp add: xor_into_def)
    have upt: "[m..<m + length (b # bs)] = m # [Suc m..<Suc m + length bs]"
      using upt_conv_Cons [of m "m + length (b # bs)"] by simp
    consider "m = f" | "f < m" | g where "f = Suc (m + g)"
      by (metis less_iff_Suc_add not_less_iff_gr_or_eq)
    then show ?case
      unfolding upt using Cons.IH [of "Suc m"] by cases (simp_all add: nil del: upt_Suc)
  qed simp
  from this [of 0 blocks] show ?thesis
    by (simp add: xor_others_def)
qed

subsection \<open>Requests to the devices\<close>

lemma disk_iter_facts:
  assumes "p < n"
  shows "length (disk_iter n p po) = n - 1"
    "j < n - 1 \<Longrightarrow> disk_iter n p po ! j = ((p + 1 + j) mod n, bad_disk_offset n p j po)"
    "distinct (map fst (disk_iter n p po))" "set (map fst (disk_iter n p po)) = {0..<n} - {p}"
proof -
  show "length (disk_iter n p po) = n - 1" "distinct (map fst (disk_iter n p po))" "set (map fst (disk_iter n p po)) = {0..<n} - {p}"
    using assms by (auto simp: disk_iter_def comp_def image_iff distinct_map)
  assume j: "j < n - 1"
  show "disk_iter n p po ! j = ((p + 1 + j) mod n, bad_disk_offset n p j po)"
  proof (cases "p + 1 + j < n")
    case True
    then have "j < n - Suc p"
      by simp
    then show ?thesis
      using True by (simp add: disk_iter_def nth_append bad_disk_offset_def)
  next
    case False
    then have "(p + 1 + j) mod n = p + 1 + j - n" "\<not> j < n - Suc p" "j - (n - Suc p) = p + 1 + j - n"
      "Suc (p + j) - n < p"
      using j assms by (simp_all add: mod_if)
    then show ?thesis
      using False j assms by (simp add: disk_iter_def nth_append bad_disk_offset_def)
  qed
qed

lemma column_writes_eq:
  "fits cs ps \<Longrightarrow> length ds = length cs
    \<Longrightarrow> column_writes ds cs (concat ps) = take (used_cols cs) (map2 (\<lambda>(i, off) p. (i, off, p)) ds ps)"
proof (induction cs arbitrary: ds ps)
  case (Cons c cs)
  then obtain disk off ds' p qs where "ds = (disk, off) # ds'" "ps = p # qs" "length p = c * BS" "fits cs qs"
    by (cases ds) (auto simp: fits_Cons)
  then show ?case
    using Cons.IH [of qs ds'] Cons.prems(2) by simp
qed (simp add: fits_def)

definition read_piece :: "(nat \<Rightarrow> byte) \<Rightarrow> nat \<Rightarrow> nat \<Rightarrow> leaf \<Rightarrow> bytes \<times> bool" where
  "read_piece junk c off v = (case leaf_slice v c off of Some d \<Rightarrow> (d, True) | None \<Rightarrow> (fresh_memory junk 0 (c * BS), False))"

lemma length_read_piece: "length (fst (read_piece junk c off v)) = c * BS"
  by (auto simp: read_piece_def fresh_memory_def dest: leaf_slice_length split: option.split)

lemma read_piece_cong: "same_leaf v v' \<Longrightarrow> read_piece junk c off v' = read_piece junk c off v"
  by (simp add: read_piece_def same_leaf_def leaf_slice_cong [of v' v])

lemma read_cols_eq:
  assumes "distinct (map fst ds)" "set (map fst ds) \<subseteq> {0..<length vs}" "length ds = length cs"
  shows "fst (read_cols junk ds cs vs) = take (used_cols cs) (map2 (\<lambda>(i, off) c. read_piece junk c off (vs ! i)) ds cs)
    \<and> list_all2 same_leaf vs (snd (read_cols junk ds cs vs))"
  using assms
proof (induction cs arbitrary: ds vs)
  case (Cons c cs)
  then obtain i off ds' where ds: "ds = (i, off) # ds'"
    by (cases ds) auto
  obtain r v where rv: "leaf_read_raw c off (vs ! i) = (r, v)"
    by fastforce
  have r: "r = leaf_slice (vs ! i) c off" "same_leaf (vs ! i) v"
    using leaf_read_raw_simps [of c off "vs ! i"] rv by (simp_all add: same_leaf_def)
  have piece: "(case r of Some d \<Rightarrow> (d, True) | None \<Rightarrow> (fresh_memory junk 0 (c * BS), False)) = read_piece junk c off (vs ! i)"
    by (simp add: r(1) read_piece_def split: option.split)
  have same: "list_all2 same_leaf vs (vs[i := v])"
    using r(2) Cons.prems(2) by (auto simp: ds list_all2_conv_all_nth nth_list_update)
  have IH: "fst (read_cols junk ds' cs (vs[i := v])) = take (used_cols cs) (map2 (\<lambda>(k, off) c. read_piece junk c off (vs[i := v] ! k)) ds' cs)
    \<and> list_all2 same_leaf (vs[i := v]) (snd (read_cols junk ds' cs (vs[i := v])))"
    using Cons.IH [of ds' "vs[i := v]"] Cons.prems by (simp add: ds)
  moreover have "map2 (\<lambda>(k, off) c. read_piece junk c off (vs[i := v] ! k)) ds' cs = map2 (\<lambda>(i, off) c. read_piece junk c off (vs ! i)) ds' cs"
  proof -
    have "vs[i := v] ! k = vs ! k" if "(k, off') \<in> set ds'" for k off'
      using that Cons.prems(1) by (cases "k = i") (auto simp: ds image_iff)
    then show ?thesis
      by (auto dest: set_zip_leftD)
  qed
  ultimately show ?case
    using list_all2_trans [OF same_leaf_trans same]
    by (auto simp: ds rv piece list_all2_same split: prod.split)
qed (simp add: list_all2_same)

lemma write_disks_eq:
  assumes "distinct (map fst ws)" "set (map fst ws) \<subseteq> {0..<length vs}"
  shows "length (snd (write_disks ws vs)) = length vs
    \<and> (\<forall>(i, off, d) \<in> set ws. snd (write_disks ws vs) ! i = snd (leaf_write_raw d off False (vs ! i)))
    \<and> (\<forall>i. i \<notin> set (map fst ws) \<longrightarrow> snd (write_disks ws vs) ! i = vs ! i)
    \<and> fst (write_disks ws vs) = length (filter (\<lambda>(i, off, d). \<not> fst (leaf_write_raw d off False (vs ! i))) ws)"
  using assms
proof (induction ws arbitrary: vs)
  case (Cons w ws)
  obtain i off d where w: "w = (i, off, d)"
    by (cases w)
  obtain ok v where rv: "leaf_write_raw d off False (vs ! i) = (ok, v)"
    by fastforce
  have i: "i < length vs" "i \<notin> set (map fst ws)"
    using Cons.prems by (auto simp: w)
  have other: "(j, off', d') \<in> set ws \<Longrightarrow> vs[i := v] ! j = vs ! j" for j off' d'
    using i(2) by (cases "j = i") (auto simp: image_iff)
  note IH = Cons.IH [of "vs[i := v]"]
  have "filter (\<lambda>(j, off, d). \<not> fst (leaf_write_raw d off False (vs[i := v] ! j))) ws
      = filter (\<lambda>(j, off, d). \<not> fst (leaf_write_raw d off False (vs ! j))) ws"
    using other by (intro filter_cong) auto
  then show ?case
    using IH i other Cons.prems by (auto simp: w rv split: prod.split)
qed simp

subsection \<open>Writing\<close>

lemma build_parity_eq:
  assumes "3 \<le> n" "fits (col_seq n sz) ps"
  obtains par where "build_parity (concat ps) (long_col_len n sz) (long_col_cnt n sz) n = Some par"
    "length par = long_col_len n sz * BS" "\<And>i. i < length par \<Longrightarrow> par ! i = xor_at ps i"
proof -
  let ?k = "used_cols (col_seq n sz)"
  have "split_cols (takeWhile (\<lambda>c. c \<noteq> 0) (col_seq n sz)) (concat ps) = Some (take ?k ps)"
    by (subst takeWhile_eq_take) (rule split_cols_concat_take [OF assms(2)])
  moreover have "xor_at (take ?k ps) i = xor_at ps i" for i
  proof (rule xor_at_take)
    fix j assume "?k \<le> j" "j < length ps"
    then show "ps ! j = []"
      using col_seq_tail [OF assms(1), of sz j] fits_nth [OF assms(2), of j] fits_length [OF assms(2)] assms(1) by simp
  qed
  ultimately show ?thesis
    using that xor_fold [of "take ?k ps" "replicate (long_col_len n sz * BS) 0"]
    by (simp add: build_parity_def flip: col_seq_def)
qed

lemma distinct_filter_le_1:
  assumes "distinct (map fst xs)" "\<And>x. x \<in> set xs \<Longrightarrow> P x \<Longrightarrow> fst x = a"
  shows "length (filter P xs) \<le> 1"
proof -
  have "distinct (map fst (filter P xs))"
    using assms(1) by (rule distinct_map_filter)
  then have "length (filter P xs) = card (set (map fst (filter P xs)))"
    by (metis distinct_card length_map)
  also have "\<dots> \<le> card {a}"
    using assms(2) by (intro card_mono) auto
  finally show ?thesis
    by simp
qed

text \<open>The requests of a write: the parity and the columns, on different devices.\<close>

lemma write_requests:
  fixes off :: nat and par :: bytes
  assumes "3 \<le> n" "fits (col_seq n sz) ps"
  defines "p \<equiv> off mod n" and "po \<equiv> off div n"
  defines "ws \<equiv> (p, po, par) # column_writes (disk_iter n p po) (col_seq n sz) (concat ps)"
  shows "distinct (map fst ws)" "set (map fst ws) \<subseteq> {0..<n}"
    "set ws = insert (p, po, par) ((\<lambda>j. ((p + 1 + j) mod n, bad_disk_offset n p j po, ps ! j)) ` {0..<used_cols (col_seq n sz)})"
proof -
  let ?k = "used_cols (col_seq n sz)" and ?ds = "disk_iter n p po"
  have p: "p < n"
    using assms(1) by (simp add: p_def)
  note ds = disk_iter_facts [OF p, where po = po]
  have len: "length ?ds = n - 1" "length ps = n - 1" "?k \<le> n - 1"
    using ds(1) fits_length [OF assms(2)] length_takeWhile_le [of "\<lambda>c. c \<noteq> 0" "col_seq n sz"] assms(1) by simp_all
  have cw: "column_writes ?ds (col_seq n sz) (concat ps) = take ?k (map2 (\<lambda>(i, off) p. (i, off, p)) ?ds ps)"
    using assms(1) len by (intro column_writes_eq assms(2)) simp
  have fst_ws: "map fst (column_writes ?ds (col_seq n sz) (concat ps)) = take ?k (map fst ?ds)"
    using len by (auto simp: cw take_map [symmetric] split_def intro!: nth_equalityI)
  show "distinct (map fst ws)" "set (map fst ws) \<subseteq> {0..<n}"
    using ds(3, 4) p set_take_subset [of ?k "map fst ?ds"] by (auto simp: ws_def fst_ws simp del: set_map)
  have "column_writes ?ds (col_seq n sz) (concat ps) = map (\<lambda>j. ((p + 1 + j) mod n, bad_disk_offset n p j po, ps ! j)) [0..<?k]"
    using len ds(2) by (auto simp: cw split_def intro!: nth_equalityI)
  then show "set ws = insert (p, po, par) ((\<lambda>j. ((p + 1 + j) mod n, bad_disk_offset n p j po, ps ! j)) ` {0..<?k})"
    by (simp add: ws_def)
qed

text \<open>The state after a write: what the intact devices hold.\<close>

definition striped :: "nat \<Rightarrow> nat \<Rightarrow> bytes list \<Rightarrow> (nat \<Rightarrow> bool) \<Rightarrow> leaf list \<Rightarrow> bool" where
  "striped off sz ps ok vs \<longleftrightarrow> (let n = length vs; p = off mod n; po = off div n in
     (\<forall>j < used_cols (col_seq n sz). ok ((p + 1 + j) mod n) \<longrightarrow> holds (vs ! ((p + 1 + j) mod n)) (bad_disk_offset n p j po) (ps ! j))
     \<and> (ok p \<longrightarrow> (\<exists>par. holds (vs ! p) po par \<and> length par = long_col_len n sz * BS \<and> (\<forall>i < length par. par ! i = xor_at ps i))))"

lemma p1_write_spec:
  assumes n: "3 \<le> length (pa_vdevs pa)" and ps: "fits (col_seq (length (pa_vdevs pa)) sz) ps"
    and room: "\<And>v. v \<in> set (pa_vdevs pa) \<Longrightarrow> (off div length (pa_vdevs pa) + 1 + long_col_len (length (pa_vdevs pa)) sz) * BS \<le> length (lf_mem v)"
    and alive: "\<And>i. i < length (pa_vdevs pa) \<Longrightarrow> i \<noteq> lost \<Longrightarrow> \<not> lf_dead (pa_vdevs pa ! i)"
  obtains pa1 where "p1_write (concat ps) off pa = Some (True, pa1)" "length (pa_vdevs pa1) = length (pa_vdevs pa)"
    "striped off sz ps (\<lambda>i. i \<noteq> lost) (pa_vdevs pa1)"
    "\<And>i. i < length (pa_vdevs pa) \<Longrightarrow> i \<noteq> lost \<Longrightarrow> \<not> lf_dead (pa_vdevs pa1 ! i)"
proof -
  let ?vs = "pa_vdevs pa"
  define n where "n = length ?vs"
  define p po where "p = off mod n" and "po = off div n"
  have n3: "3 \<le> n" and psn: "fits (col_seq n sz) ps"
    using n ps by (simp_all add: n_def)
  obtain par where par: "build_parity (concat ps) (long_col_len n sz) (long_col_cnt n sz) n = Some par"
    "length par = long_col_len n sz * BS" "\<And>i. i < length par \<Longrightarrow> par ! i = xor_at ps i"
    using build_parity_eq [OF n3 psn] by blast
  define ws where "ws = (p, po, par) # column_writes (disk_iter n p po) (col_seq n sz) (concat ps)"
  note req = write_requests [OF n3 psn, where off = off and par = par, folded p_def po_def, folded ws_def]
  define vs' where "vs' = snd (write_disks ws ?vs)"
  have wd: "length vs' = n" "\<And>i off d. (i, off, d) \<in> set ws \<Longrightarrow> vs' ! i = snd (leaf_write_raw d off False (?vs ! i))"
    "\<And>i. i \<notin> set (map fst ws) \<Longrightarrow> vs' ! i = ?vs ! i"
    "fst (write_disks ws ?vs) = length (filter (\<lambda>(i, off, d). \<not> fst (leaf_write_raw d off False (?vs ! i))) ws)"
    using write_disks_eq [of ws ?vs] req(1, 2) by (auto simp: vs'_def n_def simp del: set_map)
  have fit: "off' * BS + length d' \<le> length (lf_mem (?vs ! i))" if w: "(i, off', d') \<in> set ws" for i off' d'
  proof -
    have "i < n"
      using that req(2) by force
    have "off' \<le> po + 1 \<and> length d' \<le> long_col_len n sz * BS"
    proof (cases "(i, off', d') = (p, po, par)")
      case False
      then obtain j where j: "j < used_cols (col_seq n sz)" "off' = bad_disk_offset n p j po" "d' = ps ! j"
        using w unfolding req(3) by auto
      have "j < n - 1"
        using j(1) length_takeWhile_le [of "\<lambda>c. c \<noteq> 0" "col_seq n sz"] n3 by simp
      then have "length d' \<le> long_col_len n sz * BS"
        using fits_nth [OF psn, of j] n3 by (simp add: j(3) nth_col_seq calc_col_length_le)
      then show ?thesis
        by (simp add: j(2) bad_disk_offset_def)
    qed (use par(2) in auto)
    then have "off' * BS + length d' \<le> (po + 1) * BS + long_col_len n sz * BS"
      by (intro add_mono mult_le_mono1) auto
    also have "\<dots> \<le> length (lf_mem (?vs ! i))"
      using room [of "?vs ! i"] \<open>i < n\<close> by (simp add: po_def n_def add_mult_distrib)
    finally show ?thesis .
  qed
  have held: "holds (vs' ! i) off' d'" if "(i, off', d') \<in> set ws" "i \<noteq> lost" for i off' d'
    using that req(2) leaf_write_raw_holds(2) [OF alive [of i] fit [OF that(1)]] wd(2) [OF that(1)] by (force simp: n_def)
  have "fst (write_disks ws ?vs) \<le> 1"
    unfolding wd(4)
  proof (rule distinct_filter_le_1 [OF req(1)])
    fix x assume x: "x \<in> set ws" "(case x of (i, off, d) \<Rightarrow> \<not> fst (leaf_write_raw d off False (?vs ! i)))"
    obtain i off' d' where xi: "x = (i, off', d')"
      by (cases x)
    have "i < n"
      using x(1) req(2) by (force simp: xi)
    then show "fst x = lost"
      using x leaf_write_raw_holds(1) [OF alive [of i] fit [of i off' d']] by (auto simp: xi n_def)
  qed
  moreover have "length (concat ps) div BS = sz"
    using fits_concat_length [OF psn] sum_col_seq [OF n3] by (simp add: BS_def)
  ultimately have "p1_write (concat ps) off pa = Some (True, pa\<lparr>pa_vdevs := vs'\<rparr>)"
    using par(1) by (simp add: p1_write_def Let_def split_def vs'_def ws_def p_def po_def flip: n_def col_seq_def)
  moreover have "striped off sz ps (\<lambda>i. i \<noteq> lost) vs'"
    unfolding striped_def Let_def wd(1) p_def [symmetric] po_def [symmetric]
    using held par(2, 3) unfolding req(3) by (auto intro!: exI [of _ par])
  moreover have "\<not> lf_dead (vs' ! i)" if "i < n" "i \<noteq> lost" for i
  proof (cases "i \<in> set (map fst ws)")
    case True
    then obtain off' d' where "(i, off', d') \<in> set ws"
      by auto
    then show ?thesis
      using wd(2) alive [of i] that by (simp add: leaf_write_raw_simps n_def)
  qed (use wd(3) alive that in \<open>simp add: n_def\<close>)
  ultimately show ?thesis
    using that [of "pa\<lparr>pa_vdevs := vs'\<rparr>"] wd(1) by (simp add: n_def)
qed

subsection \<open>Reading\<close>

text \<open>Rebuilding the column of the lost device from the parity and the other columns.\<close>

lemma xor_recovers:
  assumes "f < length ps" "length (ps ! f) \<le> length par" "\<And>i. i < length par \<Longrightarrow> par ! i = xor_at ps i"
  shows "xor_others f (ps[f := junk]) (take (length (ps ! f)) par) = ps ! f"
proof (rule nth_equalityI)
  let ?d = "take (length (ps ! f)) par"
  have fold: "xor_others f (ps[f := junk]) ?d = fold (\<lambda>c d. xor_into d c) (ps[f := []]) ?d"
    by (simp add: xor_others_eq)
  show "length (xor_others f (ps[f := junk]) ?d) = length (ps ! f)"
    using xor_fold [of "ps[f := []]" ?d] assms(2) by (simp add: fold)
  fix i assume "i < length (xor_others f (ps[f := junk]) ?d)"
  then have i: "i < length (ps ! f)" "i < length par"
    using xor_fold [of "ps[f := []]" ?d] assms(2) by (simp_all add: fold)
  have "xor_others f (ps[f := junk]) ?d ! i = par ! i XOR xor_at (ps[f := []]) i"
    using xor_fold [of "ps[f := []]" ?d] i by (simp add: fold)
  also have "\<dots> = (byte_at (ps ! f) i XOR xor_at (ps[f := []]) i) XOR xor_at (ps[f := []]) i"
    using assms(3) [OF i(2)] xor_at_remove [OF assms(1), of i] by simp
  also have "\<dots> = ps ! f ! i"
    using i by (simp add: byte_at_def xor.assoc)
  finally show "xor_others f (ps[f := junk]) ?d ! i = ps ! f ! i" .
qed

lemma rebuild_recovers:
  assumes n: "3 \<le> length (pa_vdevs pa)" "length (pa_vdevs pa) = n" and ps: "fits (col_seq n sz) ps" and f: "f < n - 1"
    and par: "length par = long_col_len n sz * BS" "\<And>i. i < length par \<Longrightarrow> par ! i = xor_at ps i"
    and junk: "length junk = length (ps ! f)" and ok: "verify_buffer hs checksum [concat ps]"
  shows "\<exists>rep pa'. rebuild hs sz checksum f faulted (long_col_len n sz) (long_col_cnt n sz) p po par (concat (ps[f := junk])) pa
    = Some (Some \<lparr>sr_data = concat ps, sr_faulted = faulted, sr_repaired = rep\<rparr>, pa')"
proof -
  have n3: "3 \<le> n" and f': "f < length (col_seq n sz)" "f < length ps"
    using n f fits_length [OF ps] by simp_all
  have len: "length (ps ! f) = calc_col_length f (long_col_len n sz) (long_col_cnt n sz) * BS"
    using fits_nth [OF ps f'(1)] f n3 by (simp add: nth_col_seq)
  have le: "length (ps ! f) \<le> length par"
    unfolding len par(1) by (intro mult_le_mono1 calc_col_length_le)
  have cutp: "cut par 0 (calc_col_length f (long_col_len n sz) (long_col_cnt n sz) * BS) = Some (take (length (ps ! f)) par)"
    using le by (simp add: cut_def len)
  have fits': "fits (col_seq n sz) (ps[f := junk])"
    using fits_update [OF ps f'(1)] junk fits_nth [OF ps f'(1)] by simp
  have blocks: "block_iter (long_col_len n sz) (long_col_cnt n sz) n (concat (ps[f := junk])) = Some (ps[f := junk])"
    unfolding block_iter_def col_seq_def [symmetric] by (rule split_cols_concat [OF fits'])
  have put: "put_range (calc_col_offset f (long_col_len n sz) (long_col_cnt n sz) * BS) (ps ! f) (concat (ps[f := junk])) = Some (concat ps)"
    using put_range_concat [OF fits' f'(1), of "ps ! f"] fits_nth [OF ps f'(1)] calc_col_offset_eq [OF n3, of f sz] f by simp
  show ?thesis
    using ok by (simp add: rebuild_def n(2) cutp blocks put xor_recovers [OF f'(2) le par(2)] split_def Let_def)
qed

text \<open>One device has been lost since: it no longer answers; the others are as they were.\<close>

definition one_lost :: "nat \<Rightarrow> parity1 \<Rightarrow> parity1 \<Rightarrow> bool" where
  "one_lost lost pa pa' \<longleftrightarrow> length (pa_vdevs pa') = length (pa_vdevs pa) \<and> (\<forall>i < length (pa_vdevs pa).
     if i = lost then lf_dead (pa_vdevs pa' ! i) else same_leaf (pa_vdevs pa ! i) (pa_vdevs pa' ! i))"

lemma p1_count_vdevs [simp]: "pa_vdevs (p1_count u c pa) = pa_vdevs pa"
  by (simp add: p1_count_def)

lemma concat_used:
  assumes "3 \<le> n" "fits (col_seq n sz) ps"
  shows "concat (take (used_cols (col_seq n sz)) ps) = concat ps"
proof -
  let ?k = "used_cols (col_seq n sz)"
  have "ps ! j = []" if "?k \<le> j" "j < length ps" for j
    using that col_seq_tail [OF assms(1), of sz j] fits_nth [OF assms(2), of j] fits_length [OF assms(2)] assms(1) by simp
  then have "concat (drop ?k ps) = []"
    by (auto simp: in_set_conv_nth)
  then show ?thesis
    by (metis append_Nil2 append_take_drop_id concat_append)
qed

lemma striped_cong:
  assumes "striped off sz ps ok vs" "length vs' = length vs" "0 < length vs"
    "\<And>i. i < length vs \<Longrightarrow> ok i \<Longrightarrow> same_leaf (vs ! i) (vs' ! i)"
  shows "striped off sz ps ok vs'"
proof -
  have "holds (vs' ! (a mod length vs)) o' d' = holds (vs ! (a mod length vs)) o' d'" if "ok (a mod length vs)" for a o' d'
    using assms(4) [OF _ that] assms(3) by (simp add: same_leaf_def holds_def)
  then show ?thesis
    using assms(1) by (simp add: striped_def Let_def assms(2))
qed

lemma filter_upt_single:
  assumes "f < k" "P f" "\<And>j. j < k \<Longrightarrow> P j \<Longrightarrow> j = f"
  shows "filter P [0..<k] = [f]"
proof -
  have upt: "[0..<k] = [0..<f] @ f # [Suc f..<k]"
    using assms(1) upt_add_eq_append [of 0 f "k - f"] upt_conv_Cons [of f k] by simp
  have "filter P [0..<k] = filter (\<lambda>j. j = f) [0..<k]"
    using assms by (intro filter_cong refl) (metis atLeastLessThan_iff set_upt)
  then show ?thesis
    unfolding upt by (simp add: filter_empty_conv)
qed

lemma p1_read_spec:
  assumes n: "3 \<le> length (pa_vdevs pa)" "length (pa_vdevs pa) = n" and ps: "fits (col_seq n sz) ps"
    and st: "striped off sz ps (\<lambda>i. i \<noteq> lost) (pa_vdevs pa)"
    and dead: "\<And>i. i < n \<Longrightarrow> lf_dead (pa_vdevs pa ! i) \<longleftrightarrow> i = lost"
    and ok: "verify_buffer hs checksum [concat ps]"
  shows "\<exists>pa'. p1_read junk hs sz off checksum pa = Some (Some (concat ps), pa')"
proof -
  let ?vs = "pa_vdevs pa" and ?k = "used_cols (col_seq n sz)"
  define p po where "p = off mod n" and "po = off div n"
  define disk where "disk j = (p + 1 + j) mod n" for j
  have n3: "3 \<le> n" and p: "p < n"
    using n by (auto simp: p_def)
  have k: "?k \<le> n - 1"
    using length_takeWhile_le [of "\<lambda>c. c \<noteq> 0" "col_seq n sz"] n3 by simp
  have len: "length ps = n - 1"
    using fits_length [OF ps] n3 by simp
  note ds = disk_iter_facts [OF p, where po = po]
  define cols where "cols = fst (read_cols junk (disk_iter n p po) (col_seq n sz) ?vs)"
  define vs' where "vs' = snd (read_cols junk (disk_iter n p po) (col_seq n sz) ?vs)"
  have rc: "cols = take ?k (map2 (\<lambda>(i, off) c. read_piece junk c off (?vs ! i)) (disk_iter n p po) (col_seq n sz))"
      "list_all2 same_leaf ?vs vs'"
    using read_cols_eq [of "disk_iter n p po" ?vs "col_seq n sz" junk] ds n n3 by (auto simp: cols_def vs'_def)
  have vs': "length vs' = n" "same_leaf (?vs ! i) (vs' ! i)" if "i < n" for i
    using rc(2) that n(2) by (auto simp: list_all2_conv_all_nth)
  have lcols: "length cols = ?k"
    using ds(1) n3 k by (simp add: rc(1))
  have disk_lt: "disk j < n" for j
    using n3 by (simp add: disk_def)
  have col: "cols ! j = (if disk j = lost then (fresh_memory junk 0 (length (ps ! j)), False) else (ps ! j, True))" if "j < ?k" for j
  proof -
    have j: "j < n - 1" "length (ps ! j) = col_seq n sz ! j * BS"
      using that k fits_nth [OF ps, of j] n3 by simp_all
    have "cols ! j = read_piece junk (col_seq n sz ! j) (bad_disk_offset n p j po) (?vs ! disk j)"
      using that j ds(1, 2) n3 by (simp add: rc(1) disk_def)
    moreover have "holds (?vs ! disk j) (bad_disk_offset n p j po) (ps ! j)" if "disk j \<noteq> lost"
      using st that \<open>j < ?k\<close> by (simp add: striped_def Let_def n(2) disk_def p_def po_def)
    ultimately show ?thesis
      using leaf_slice_holds j(2) dead [OF disk_lt [of j]] by (auto simp: read_piece_def leaf_slice_def)
  qed
  define failed where "failed = filter (\<lambda>idx. \<not> snd (cols ! idx)) [0..<length cols]"
  have failed: "failed = filter (\<lambda>j. disk j = lost) [0..<?k]"
    unfolding failed_def lcols by (rule filter_cong) (auto simp: col)
  note unfold = p1_read_def p1_read_scrub_def split_def Let_def n(2)
  note names = p_def po_def col_seq_def cols_def vs'_def failed_def
  show ?thesis
  proof (cases "\<exists>f < ?k. disk f = lost")
    case False
    then have "failed = []"
      by (simp add: failed)
    moreover have "map fst cols = take ?k ps"
      using False col k len by (auto simp: lcols intro!: nth_equalityI)
    ultimately show ?thesis
      using ok concat_used [OF n3 ps] by (simp add: unfold flip: names)
  next
    case True
    then obtain f where f: "f < ?k" "disk f = lost"
      by blast
    have inj: "j = f" if "disk j = lost" "j < ?k" for j
    proof -
      have "map fst (disk_iter n p po) ! j = disk j" "map fst (disk_iter n p po) ! f = disk f"
        using that(2) f(1) k ds(1, 2) by (simp_all add: disk_def)
      then have "map fst (disk_iter n p po) ! j = map fst (disk_iter n p po) ! f"
        by (simp only: that(1) f(2))
      then show ?thesis
        using nth_eq_iff_index_eq [OF ds(3), of j f] that(2) f(1) ds(1) k by (simp del: nth_map)
    qed
    have fl: "failed = [f]"
      unfolding failed by (rule filter_upt_single) (rule f inj, assumption?)+
    have iff: "disk i = lost \<longleftrightarrow> i = f" if "i < ?k" for i
      using inj [OF _ that] f(2) by blast
    define j where "j = fresh_memory junk 0 (length (ps ! f))"
    have jl: "length j = length (ps ! f)"
      by (simp add: j_def fresh_memory_def)
    have "map fst cols = take ?k (ps[f := j])"
      using f(1) k len by (intro nth_equalityI) (simp_all add: lcols j_def nth_list_update col iff)
    then have data: "concat (map fst cols) = concat (ps[f := j])"
      using concat_used [OF n3 fits_update [OF ps, of f j]] fits_nth [OF ps, of f] f k n3 jl by simp
    have pf: "p \<noteq> lost"
      using nth_mem [of f "map fst (disk_iter n p po)"] f k ds(1, 2, 4) by (auto simp: disk_def)
    then obtain par where par: "holds (?vs ! p) po par" "length par = long_col_len n sz * BS" "\<And>i. i < length par \<Longrightarrow> par ! i = xor_at ps i"
      using st by (auto simp: striped_def Let_def n(2) p_def po_def)
    have slice: "leaf_slice (vs' ! p) (long_col_len n sz) po = Some par"
      using vs'(2) [OF p] leaf_slice_holds [OF par(1, 2)] dead [OF p] pf by (simp add: same_leaf_def leaf_slice_cong [of "vs' ! p" "?vs ! p"])
    let ?pa = "p1_count vs_read_update sz pa\<lparr>pa_vdevs := vs'[p := snd (leaf_read_raw (long_col_len n sz) po (vs' ! p))]\<rparr>"
    have "3 \<le> length (pa_vdevs ?pa)" "length (pa_vdevs ?pa) = n" "f < n - 1"
      using vs'(1) [OF p] n3 f k by simp_all
    from rebuild_recovers [OF this(1,2) ps this(3) par(2,3) jl ok, of "calc_col_length f (long_col_len n sz) (long_col_cnt n sz)" p po]
    obtain rep pa' where rb: "rebuild hs sz checksum f (calc_col_length f (long_col_len n sz) (long_col_cnt n sz)) (long_col_len n sz)
      (long_col_cnt n sz) p po par (concat (ps[f := j])) ?pa = Some (Some \<lparr>sr_data = concat ps, sr_faulted =
        calc_col_length f (long_col_len n sz) (long_col_cnt n sz), sr_repaired = rep\<rparr>, pa')"
      by blast
    show ?thesis
      by (simp add: unfold slice rb fl data flip: names)
  qed
qed

subsection \<open>The blocks a write touches\<close>

definition dev_block :: "leaf \<Rightarrow> nat \<Rightarrow> bytes" where
  "dev_block v b = take BS (drop (b * BS) (lf_mem v))"

lemma leaf_write_raw_outside:
  assumes "length d = c * BS" "\<not> (off \<le> b \<and> b < off + c)"
  shows "dev_block (snd (leaf_write_raw d off rep v)) b = dev_block v b"
proof (cases "\<not> lf_dead v \<and> off * BS + length d \<le> length (lf_mem v)")
  case True
  let ?m = "lf_mem v"
  have mem: "lf_mem (snd (leaf_write_raw d off rep v)) = take (off * BS) ?m @ d @ drop (off * BS + length d) ?m"
    using True by (auto simp: leaf_write_raw_def Let_def)
  consider "b < off" | "off + c \<le> b"
    using assms(2) by linarith
  then show ?thesis
  proof cases
    case 1
    then have "b * BS + BS \<le> off * BS"
      using mult_le_mono1 [of "Suc b" off BS] by simp
    then have "off * BS \<le> length ?m" "BS \<le> off * BS - b * BS"
      using True by linarith+
    then show ?thesis
      by (simp add: dev_block_def mem drop_take min_absorb2 min_absorb1)
  next
    case 2
    then obtain e where "b = off + c + e"
      using le_Suc_ex by blast
    then show ?thesis
      using True assms(1) by (simp add: dev_block_def mem add_mult_distrib add.commute [of "e * BS"])
  qed
qed (auto simp: leaf_write_raw_def Let_def dev_block_def)

lemma column_address:
  assumes n: "3 \<le> n" and j: "j < n - 1" and r: "r < calc_col_length j (long_col_len n sz) (long_col_cnt n sz)"
  shows "(bad_disk_offset n (off mod n) j (off div n) + r) * n + (off mod n + 1 + j) mod n = off + (r * n + 1 + j)"
    "r * n + 1 + j < p1_actual_size n sz"
proof -
  define p where "p = off mod n"
  have p: "p < n"
    using n by (simp add: p_def)
  have off: "off div n * n = off - p" "p \<le> off"
    unfolding p_def by (simp_all add: minus_mod_eq_div_mult)
  show "(bad_disk_offset n (off mod n) j (off div n) + r) * n + (off mod n + 1 + j) mod n = off + (r * n + 1 + j)"
  proof (cases "p + 1 + j < n")
    case True
    then show ?thesis
      using off by (simp add: bad_disk_offset_def add_mult_distrib flip: p_def)
  next
    case False
    then have "(p + 1 + j) mod n = p + 1 + j - n"
      using j p by (simp add: mod_if)
    then show ?thesis
      using off False by (simp add: bad_disk_offset_def add_mult_distrib flip: p_def)
  qed
  define l c where "l = long_col_len n sz - 1" and "c = long_col_cnt n sz"
  have sz: "0 < sz"
    using r calc_col_length_le [of j "long_col_len n sz"] by (cases sz) (auto simp: long_col_len_def calc_col_length_def)
  have len: "long_col_len n sz = Suc l" "sz = l * (n - 1) + c" "0 < c"
    using long_col_facts [OF n] sz by (simp_all add: l_def c_def)
  have act: "p1_actual_size n sz = l * n + c + 1"
  proof -
    obtain m where "n = Suc m"
      using n by (cases n) auto
    then show ?thesis
      using len(1, 2) by (simp add: p1_actual_size_def)
  qed
  show "r * n + 1 + j < p1_actual_size n sz"
  proof (cases "j < c")
    case True
    then have "r * n \<le> l * n"
      using r len(1) by (intro mult_le_mono1) (simp add: calc_col_length_def c_def)
    then show ?thesis
      unfolding act using True by linarith
  next
    case False
    then have "Suc r * n \<le> l * n"
      using r len(1) by (intro mult_le_mono1) (simp add: calc_col_length_def c_def)
    then show ?thesis
      unfolding act using j by simp
  qed
qed

lemma parity_address:
  assumes n: "3 \<le> n" and r: "r < long_col_len n sz"
  shows "(off div n + r) * n + off mod n = off + r * n" "r * n < p1_actual_size n sz"
proof -
  show "(off div n + r) * n + off mod n = off + r * n"
    by (simp add: add_mult_distrib)
  have sz: "0 < sz"
    using r by (cases sz) (auto simp: long_col_len_def)
  obtain m where m: "n = Suc m"
    using n by (cases n) auto
  have "r * n \<le> (long_col_len n sz - 1) * n"
    using r by (intro mult_le_mono1) simp
  also have "\<dots> < p1_actual_size n sz"
    using long_col_facts(2-4) [OF n, of sz] sz by (cases "long_col_len n sz") (simp_all add: p1_actual_size_def m)
  finally show "r * n < p1_actual_size n sz" .
qed

lemma p1_write_footprint:
  assumes n: "3 \<le> length (pa_vdevs pa)" and d: "length d = sz * BS" and w: "p1_write d off pa = Some (ok, pa1)"
    and i: "i < length (pa_vdevs pa)"
    and out: "\<not> (off \<le> b * length (pa_vdevs pa) + i \<and> b * length (pa_vdevs pa) + i < off + p1_actual_size (length (pa_vdevs pa)) sz)"
  shows "length (pa_vdevs pa1) = length (pa_vdevs pa) \<and> dev_block (pa_vdevs pa1 ! i) b = dev_block (pa_vdevs pa ! i) b"
proof -
  let ?vs = "pa_vdevs pa"
  define n where "n = length ?vs"
  define p po where "p = off mod n" and "po = off div n"
  have n3: "3 \<le> n"
    using n by (simp add: n_def)
  obtain ps where ps: "fits (col_seq n sz) ps" "concat ps = d"
    using fits_exists [of d "col_seq n sz"] n3 d by (auto simp: sum_col_seq)
  obtain par where par: "build_parity d (long_col_len n sz) (long_col_cnt n sz) n = Some par" "length par = long_col_len n sz * BS"
    using build_parity_eq [OF n3 ps(1)] ps(2) by metis
  define ws where "ws = (p, po, par) # column_writes (disk_iter n p po) (col_seq n sz) (concat ps)"
  note req = write_requests [OF n3 ps(1), where off = off and par = par, folded p_def po_def, folded ws_def]
  have sz: "length d div BS = sz"
    using d by (simp add: BS_def)
  have "pa_vdevs pa1 = snd (write_disks ws ?vs)"
    using w par(1) by (auto simp: p1_write_def sz Let_def split_def ws_def ps(2) p_def po_def simp flip: n_def col_seq_def split: if_splits)
  then have wd: "length (pa_vdevs pa1) = n" "\<And>i off d. (i, off, d) \<in> set ws \<Longrightarrow> pa_vdevs pa1 ! i = snd (leaf_write_raw d off False (?vs ! i))"
    "\<And>i. i \<notin> set (map fst ws) \<Longrightarrow> pa_vdevs pa1 ! i = ?vs ! i"
    using write_disks_eq [of ws ?vs] req(1, 2) by (auto simp: n_def simp del: set_map)
  have "dev_block (pa_vdevs pa1 ! i) b = dev_block (?vs ! i) b"
  proof (cases "i \<in> set (map fst ws)")
    case True
    then obtain off' d' where w': "(i, off', d') \<in> set ws"
      by auto
    obtain c where c: "length d' = c * BS" "\<And>r. r < c \<Longrightarrow> off \<le> (off' + r) * n + i \<and> (off' + r) * n + i < off + p1_actual_size n sz"
    proof (cases "(i, off', d') = (p, po, par)")
      case True
      then show ?thesis
        using parity_address(1) [OF n3, where sz = sz and off = off] parity_address(2) [OF n3, where sz = sz] par(2) by (intro that [of "long_col_len n sz"]) (simp_all add: p_def po_def)
    next
      case False
      then obtain j where j: "j < used_cols (col_seq n sz)" "i = (p + 1 + j) mod n" "off' = bad_disk_offset n p j po" "d' = ps ! j"
        using w' unfolding req(3) by auto
      have "j < n - 1"
        using j(1) length_takeWhile_le [of "\<lambda>c. c \<noteq> 0" "col_seq n sz"] n3 by simp
      then show ?thesis
        using column_address(1) [OF n3 \<open>j < n - 1\<close>, where sz = sz and off = off] column_address(2) [OF n3 \<open>j < n - 1\<close>, where sz = sz] fits_nth [OF ps(1), of j] n3
        by (intro that [of "calc_col_length j (long_col_len n sz) (long_col_cnt n sz)"]) (simp_all add: j(2-4) p_def po_def nth_col_seq)
    qed
    have "\<not> (off' \<le> b \<and> b < off' + c)"
    proof
      assume "off' \<le> b \<and> b < off' + c"
      then show False
        using c(2) [of "b - off'"] out by (simp add: n_def less_diff_conv2)
    qed
    then show ?thesis
      using leaf_write_raw_outside [OF c(1)] wd(2) [OF w'] by simp
  qed (use wd(3) in simp)
  then show ?thesis
    using wd(1) by (simp add: n_def)
qed

lemma p1_write_succeeds:
  assumes "3 \<le> length (pa_vdevs pa)" "length d = sz * BS"
    and "\<forall>v \<in> set (pa_vdevs pa). (off div length (pa_vdevs pa) + 1 + long_col_len (length (pa_vdevs pa)) sz) * BS \<le> length (lf_mem v)"
    and "\<forall>i < length (pa_vdevs pa). i \<noteq> lost \<longrightarrow> \<not> lf_dead (pa_vdevs pa ! i)"
  shows "\<exists>pa1. p1_write d off pa = Some (True, pa1)"
proof -
  let ?n = "length (pa_vdevs pa)"
  obtain ps where ps: "fits (col_seq ?n sz) ps" "concat ps = d"
    using fits_exists [of d "col_seq ?n sz"] assms(1, 2) by (auto simp: sum_col_seq)
  show ?thesis
    by (rule p1_write_spec [OF assms(1) ps(1), where off = off and lost = lost]) (use assms(3, 4) ps(2) in auto)
qed

subsection \<open>What a read returns\<close>

text \<open>The data of a result verifies as a whole or, after reconstruction, column by column.\<close>

definition verified_data :: "(bytes list \<Rightarrow> 64 word) \<Rightarrow> 64 word \<Rightarrow> nat \<Rightarrow> nat \<Rightarrow> bytes \<Rightarrow> bool" where
  "verified_data hs checksum n sz d \<longleftrightarrow> length d = sz * BS \<and> (verify_buffer hs checksum [d]
     \<or> (\<exists>cols. block_iter (long_col_len n sz) (long_col_cnt n sz) n d = Some cols \<and> verify_buffer hs checksum cols))"

definition sound_result :: "(bytes list \<Rightarrow> 64 word) \<Rightarrow> 64 word \<Rightarrow> nat \<Rightarrow> nat \<Rightarrow> (scrub_result option \<times> parity1) option \<Rightarrow> bool" where
  "sound_result hs checksum n sz r \<longleftrightarrow> (\<exists>s pa'. r = Some (s, pa') \<and> (\<forall>x. s = Some x \<longrightarrow> verified_data hs checksum n sz (sr_data x)))"

lemma sound_result_Some: "sound_result hs checksum n sz (Some (s, pa)) \<longleftrightarrow> (\<forall>x. s = Some x \<longrightarrow> verified_data hs checksum n sz (sr_data x))"
  by (simp add: sound_result_def)

lemma verified_data_whole:
  "3 \<le> n \<Longrightarrow> fits (col_seq n sz) ps \<Longrightarrow> verify_buffer hs checksum [concat ps] \<Longrightarrow> verified_data hs checksum n sz (concat ps)"
  by (simp add: verified_data_def fits_concat_length sum_col_seq)

lemma rebuild_sound:
  assumes n: "3 \<le> n" "length (pa_vdevs pa) = n" and ps: "fits (col_seq n sz) ps" and f: "f < n - 1"
    and par: "length par = long_col_len n sz * BS"
  shows "sound_result hs checksum n sz (rebuild hs sz checksum f faulted (long_col_len n sz) (long_col_cnt n sz) p po par (concat ps) pa)"
proof -
  have f': "f < length (col_seq n sz)"
    using n f by simp
  let ?l = "calc_col_length f (long_col_len n sz) (long_col_cnt n sz) * BS"
  define x where "x = xor_others f ps (take ?l par)"
  have le: "?l \<le> length par"
    unfolding par by (intro mult_le_mono1 calc_col_length_le)
  have x: "length x = col_seq n sz ! f * BS"
    using xor_fold [of "ps[f := []]" "take ?l par"] le nth_col_seq [OF n(1) f] by (simp add: x_def xor_others_eq)
  have fits': "fits (col_seq n sz) (ps[f := x])"
    by (rule fits_update [OF ps f' x])
  have blocks: "block_iter (long_col_len n sz) (long_col_cnt n sz) n (concat ps) = Some ps"
    unfolding block_iter_def col_seq_def [symmetric] by (rule split_cols_concat [OF ps])
  have put: "put_range (calc_col_offset f (long_col_len n sz) (long_col_cnt n sz) * BS) x (concat ps) = Some (concat (ps[f := x]))"
    using put_range_concat [OF ps f' x] calc_col_offset_eq [OF n(1), of f sz] f by simp
  have "cut par 0 ?l = Some (take ?l par)"
    using le by (simp add: cut_def)
  then show ?thesis
    using verified_data_whole [OF n(1) fits', of hs checksum]
    by (simp add: rebuild_def n(2) blocks put split_def Let_def sound_result_Some flip: x_def)
qed

lemma find_bad_block_facts:
  "find_bad_block hs checksum x blocks is = Some (idx, r) \<Longrightarrow> set is \<subseteq> {0..<length blocks}
    \<Longrightarrow> idx < length blocks \<and> r = xor_into x (blocks ! idx) \<and> verify_buffer hs checksum (blocks[idx := take (length (blocks ! idx)) r])"
  by (induction "is") (auto simp: Let_def upd_conv_take_nth_drop split: if_splits)

lemma reconstruct_sound:
  assumes n: "3 \<le> n" "length (pa_vdevs pa) = n" and ps: "fits (col_seq n sz) ps"
    and par: "length par = long_col_len n sz * BS"
  shows "sound_result hs checksum n sz (reconstruct hs sz checksum faulted (long_col_len n sz) (long_col_cnt n sz) p po par (concat ps) pa)"
proof -
  have blocks: "block_iter (long_col_len n sz) (long_col_cnt n sz) n (concat ps) = Some ps"
    unfolding block_iter_def col_seq_def [symmetric] by (rule split_cols_concat [OF ps])
  define x where "x = fold (\<lambda>c d. xor_into d c) ps par"
  show ?thesis
  proof (cases "find_bad_block hs checksum x ps [0..<length ps]")
    case None
    then show ?thesis
      by (simp add: reconstruct_def n(2) blocks sound_result_Some Let_def flip: x_def)
  next
    case (Some ir)
    obtain f r where ir: "ir = (f, r)"
      by (cases ir)
    from find_bad_block_facts [OF Some [unfolded ir]]
    have f: "f < length ps" "r = xor_into x (ps ! f)" "verify_buffer hs checksum (ps[f := take (length (ps ! f)) r])"
      by auto
    have f': "f < length (col_seq n sz)" "f < n - 1"
      using f(1) fits_length [OF ps] n by simp_all
    let ?l = "calc_col_length f (long_col_len n sz) (long_col_cnt n sz) * BS"
    have l: "length (ps ! f) = ?l" "?l \<le> length par"
      using fits_nth [OF ps f'(1)] nth_col_seq [OF n(1) f'(2)] unfolding par by (simp_all add: calc_col_length_le)
    have r: "length (take ?l r) = col_seq n sz ! f * BS"
      using xor_fold [of ps par] l nth_col_seq [OF n(1) f'(2)] by (simp add: f(2) x_def)
    have fits': "fits (col_seq n sz) (ps[f := take ?l r])"
      by (rule fits_update [OF ps f'(1) r])
    have put: "put_range (calc_col_offset f (long_col_len n sz) (long_col_cnt n sz) * BS) (take ?l r) (concat ps) = Some (concat (ps[f := take ?l r]))"
      using put_range_concat [OF ps f'(1) r] calc_col_offset_eq [OF n(1), of f sz] f'(2) by simp
    have "block_iter (long_col_len n sz) (long_col_cnt n sz) n (concat (ps[f := take ?l r])) = Some (ps[f := take ?l r])"
      unfolding block_iter_def col_seq_def [symmetric] by (rule split_cols_concat [OF fits'])
    then have "verified_data hs checksum n sz (concat (ps[f := take ?l r]))"
      using f(3) l(1) fits_concat_length [OF fits'] sum_col_seq [OF n(1)] by (simp add: verified_data_def)
    then show ?thesis
      by (simp add: reconstruct_def n(2) blocks Some ir put split_def Let_def sound_result_Some flip: x_def)
  qed
qed

lemma check_parity_sound:
  assumes n: "3 \<le> n" "length (pa_vdevs pa) = n" and ps: "fits (col_seq n sz) ps" and ok: "verify_buffer hs checksum [concat ps]"
  shows "sound_result hs checksum n sz (check_parity faulted (long_col_len n sz) (long_col_cnt n sz) p po par (concat ps) pa)"
proof -
  have "block_iter (long_col_len n sz) (long_col_cnt n sz) n (concat ps) = Some ps"
    unfolding block_iter_def col_seq_def [symmetric] by (rule split_cols_concat [OF ps])
  then show ?thesis
    using verified_data_whole [OF n(1) ps ok] by (simp add: check_parity_def n(2) split_def Let_def sound_result_Some)
qed

lemma p1_read_scrub_sound:
  assumes n: "3 \<le> length (pa_vdevs pa)" "length (pa_vdevs pa) = n"
  shows "sound_result hs checksum n sz (p1_read_scrub junk hs sz off checksum scrub pa)"
proof -
  let ?vs = "pa_vdevs pa" and ?k = "used_cols (col_seq n sz)"
  define p po where "p = off mod n" and "po = off div n"
  have n3: "3 \<le> n" and p: "p < n"
    using n by (auto simp: p_def)
  have k: "?k \<le> n - 1"
    using length_takeWhile_le [of "\<lambda>c. c \<noteq> 0" "col_seq n sz"] n3 by simp
  note ds = disk_iter_facts [OF p, where po = po]
  define cols where "cols = fst (read_cols junk (disk_iter n p po) (col_seq n sz) ?vs)"
  define vs' where "vs' = snd (read_cols junk (disk_iter n p po) (col_seq n sz) ?vs)"
  define pieces where "pieces = map2 (\<lambda>(i, off) c. fst (read_piece junk c off (?vs ! i))) (disk_iter n p po) (col_seq n sz)"
  have rc: "cols = take ?k (map2 (\<lambda>(i, off) c. read_piece junk c off (?vs ! i)) (disk_iter n p po) (col_seq n sz))"
      "list_all2 same_leaf ?vs vs'"
    using read_cols_eq [of "disk_iter n p po" ?vs "col_seq n sz" junk] ds n n3 by (auto simp: cols_def vs'_def)
  have fits: "fits (col_seq n sz) pieces"
    using ds(1) n3 by (auto simp: fits_def pieces_def length_read_piece split_def intro!: nth_equalityI)
  have "map fst cols = take ?k pieces"
    by (simp add: rc(1) pieces_def take_map [symmetric] split_def comp_def)
  then have data: "concat (map fst cols) = concat pieces"
    using concat_used [OF n3 fits] by simp
  have vs': "length vs' = n"
    using rc(2) n(2) by (simp add: list_all2_lengthD)
  define failed where "failed = filter (\<lambda>idx. \<not> snd (cols ! idx)) [0..<length cols]"
  have failed: "f < n - 1" if "failed = f # rest" for f rest
  proof -
    have "f \<in> set failed"
      using that by simp
    then show ?thesis
      using k by (simp add: failed_def rc(1))
  qed
  let ?pa = "p1_count vs_read_update sz pa\<lparr>pa_vdevs := vs'[p := snd (leaf_read_raw (long_col_len n sz) po (vs' ! p))]\<rparr>"
  let ?par = "case leaf_slice (vs' ! p) (long_col_len n sz) po of None \<Rightarrow> replicate (long_col_len n sz * BS) 0 | Some b \<Rightarrow> b"
  have par: "length ?par = long_col_len n sz * BS"
    by (auto dest: leaf_slice_length split: option.split)
  have pa: "length (pa_vdevs ?pa) = n"
    using vs' by simp
  note unfold = p1_read_scrub_def split_def Let_def n(2)
  note names = p_def po_def col_seq_def cols_def vs'_def failed_def
  show ?thesis
  proof (cases "2 \<le> length failed")
    case True
    then show ?thesis
      by (simp add: unfold sound_result_Some flip: names)
  next
    case False
    show ?thesis
    proof (cases failed)
      case Nil
      then show ?thesis
        using reconstruct_sound [OF n3 pa fits par] check_parity_sound [OF n3 pa fits] verified_data_whole [OF n3 fits]
        by (simp add: unfold data sound_result_Some flip: names)
    next
      case (Cons f rest)
      then show ?thesis
        using rebuild_sound [OF n3 pa fits failed [OF Cons] par] False
        by (simp add: unfold data sound_result_Some flip: names)
    qed
  qed
qed

lemma p1_write_then_read:
  assumes "3 \<le> length (pa_vdevs pa)" "length d = sz * BS" "verify_buffer hs checksum [d]"
    and "\<forall>v \<in> set (pa_vdevs pa). (off div length (pa_vdevs pa) + 1 + long_col_len (length (pa_vdevs pa)) sz) * BS \<le> length (lf_mem v)"
    and "\<forall>i < length (pa_vdevs pa). i \<noteq> lost \<longrightarrow> \<not> lf_dead (pa_vdevs pa ! i)"
  shows "\<exists>pa1. p1_write d off pa = Some (True, pa1) \<and> (\<forall>pa2. one_lost lost pa1 pa2
    \<longrightarrow> (\<exists>pa3. p1_read junk hs sz off checksum pa2 = Some (Some d, pa3)))"
proof -
  let ?n = "length (pa_vdevs pa)"
  obtain ps where ps: "fits (col_seq ?n sz) ps" "concat ps = d"
    using fits_exists [of d "col_seq ?n sz"] assms(1, 2) by (auto simp: sum_col_seq)
  obtain pa1 where pa1: "p1_write d off pa = Some (True, pa1)" "length (pa_vdevs pa1) = ?n"
    "striped off sz ps (\<lambda>i. i \<noteq> lost) (pa_vdevs pa1)" "\<And>i. i < ?n \<Longrightarrow> i \<noteq> lost \<Longrightarrow> \<not> lf_dead (pa_vdevs pa1 ! i)"
    using p1_write_spec [OF assms(1) ps(1), of off lost] assms(4, 5) ps(2) by blast
  have "\<exists>pa3. p1_read junk hs sz off checksum pa2 = Some (Some (concat ps), pa3)" if lost: "one_lost lost pa1 pa2" for pa2
  proof (rule p1_read_spec [OF _ _ ps(1)])
    show "3 \<le> length (pa_vdevs pa2)" "length (pa_vdevs pa2) = ?n"
      using lost pa1(2) assms(1) by (simp_all add: one_lost_def)
    show "striped off sz ps (\<lambda>i. i \<noteq> lost) (pa_vdevs pa2)"
      using lost pa1(2) assms(1) by (intro striped_cong [OF pa1(3)]) (auto simp: one_lost_def split: if_splits)
    show "lf_dead (pa_vdevs pa2 ! i) \<longleftrightarrow> i = lost" if "i < ?n" for i
      using lost that pa1(2, 4) by (auto simp: one_lost_def same_leaf_def split: if_splits)
    show "verify_buffer hs checksum [concat ps]"
      using assms(3) ps(2) by simp
  qed
  then show ?thesis
    using pa1(1) ps(2) by blast
qed

subsection \<open>Claims\<close>

text \<open>C2. Single failure tolerance of the parity device. With at least three devices, all but at most one
  of them answering during the write and with enough room, writing data succeeds; and when one device
  is lost afterwards (the one that failed during the write, if any, or any other), reading back the
  same range with the checksum of the data returns exactly the data, rebuilding the lost column from
  the parity if the lost device held one.\<close>

theorem parity1_survives_one_loss:
  assumes "3 \<le> length (pa_vdevs pa)" "length d = sz * BS" "verify_buffer hs checksum [d]"
    and "\<forall>v \<in> set (pa_vdevs pa). (off div length (pa_vdevs pa) + 1 + long_col_len (length (pa_vdevs pa)) sz) * BS \<le> length (lf_mem v)"
    and "\<forall>i < length (pa_vdevs pa). i \<noteq> lost \<longrightarrow> \<not> lf_dead (pa_vdevs pa ! i)"
  shows "\<exists>pa1. p1_write d off pa = Some (True, pa1) \<and> (\<forall>pa2. one_lost lost pa1 pa2
    \<longrightarrow> (\<exists>pa3. p1_read junk hs sz off checksum pa2 = Some (Some d, pa3)))"
  by (rule p1_write_then_read [OF assms])

definition example_parity :: parity1 where
  "example_parity = \<lparr>pa_vdevs = replicate 3 (leaf_new 4), pa_stats = lf_stats (leaf_new 0)\<rparr>"

definition lose :: "nat \<Rightarrow> parity1 \<Rightarrow> parity1" where
  "lose i pa = pa\<lparr>pa_vdevs := (pa_vdevs pa)[i := (pa_vdevs pa ! i)\<lparr>lf_dead := True\<rparr>]\<rparr>"

theorem parity1_survives_one_loss_witness:
  "\<exists>pa1 pa3. p1_write (replicate (2 * BS) 5) 1 example_parity = Some (True, pa1)
    \<and> p1_read (\<lambda>_. 9) (\<lambda>_. 7) 2 1 7 (lose 0 pa1) = Some (Some (replicate (2 * BS) 5), pa3)"
proof -
  have lost: "one_lost 0 pa (lose 0 pa)" for pa
    by (auto simp: one_lost_def lose_def)
  have "\<exists>pa1. p1_write (replicate (2 * BS) 5) 1 example_parity = Some (True, pa1) \<and> (\<forall>pa2. one_lost 0 pa1 pa2
    \<longrightarrow> (\<exists>pa3. p1_read (\<lambda>_. 9) (\<lambda>_. 7) 2 1 7 pa2 = Some (Some (replicate (2 * BS) 5), pa3)))"
    by (rule parity1_survives_one_loss)
      (simp_all add: example_parity_def verify_buffer_def leaf_new_def long_col_len_def BS_def)
  then show ?thesis
    using lost by blast
qed

text \<open>C24. The blocks a write of a parity device touches. Number the blocks of all devices across the devices,
  block \<open>b\<close> of device \<open>i\<close> as \<open>b * n + i\<close>. Writing \<open>sz\<close> blocks at \<open>off\<close>, successful or not, leaves every
  block outside of \<open>off\<close> up to \<open>off + actual_size(sz)\<close> as it is; so allocations of \<^verbatim>\<open>actual_size\<close> blocks
  that do not overlap never overwrite each other.\<close>

theorem parity1_write_footprint:
  assumes "3 \<le> length (pa_vdevs pa)" "length d = sz * BS" "p1_write d off pa = Some (ok, pa1)" "i < length (pa_vdevs pa)"
    and "\<not> (off \<le> b * length (pa_vdevs pa) + i \<and> b * length (pa_vdevs pa) + i < off + p1_actual_size (length (pa_vdevs pa)) sz)"
  shows "dev_block (pa_vdevs pa1 ! i) b = dev_block (pa_vdevs pa ! i) b"
  using p1_write_footprint [OF assms] by simp

theorem parity1_write_footprint_witness:
  "\<exists>ok pa1. p1_write (replicate (2 * BS) 5) 1 example_parity = Some (ok, pa1)
    \<and> dev_block (pa_vdevs pa1 ! 1) 1 = dev_block (pa_vdevs example_parity ! 1) 1"
proof -
  have "\<exists>pa1. p1_write (replicate (2 * BS) 5) 1 example_parity = Some (True, pa1)"
    by (rule p1_write_succeeds [where lost = 3 and sz = 2]) (simp_all add: example_parity_def leaf_new_def long_col_len_def BS_def)
  then obtain pa1 where w: "p1_write (replicate (2 * BS) 5) 1 example_parity = Some (True, pa1)"
    by blast
  show ?thesis
    using parity1_write_footprint [OF _ _ w, of 2 1 1] w
    by (auto simp: example_parity_def p1_actual_size_def long_col_len_def)
qed



end
