(* ===== verification/WriteBackQueue.thy ===== *)
theory WriteBackQueue
  imports Prelude
begin

text \<open>
  \<^verbatim>\<open>betree/src/bounded_future_queue.rs\<close> and its use by \<^verbatim>\<open>begin_write\<close>, \<^verbatim>\<open>read_async\<close> and \<^verbatim>\<open>flush\<close> of
  \<^verbatim>\<open>storage_pool/unit.rs\<close>: the queue of background writes. Threads and background tasks interleave;
  a step is what happens under one acquisition of the lock of the map or of the flush lock. A task
  starts gated, runs after \<^verbatim>\<open>begin_write\<close> opens its gate, writes to the device, removes its key
  from the queue (\<^verbatim>\<open>mark_completed\<close>) and is done; a flag tells whether the device accepted
  the write. A future that is dropped unfinished is cancelled.
\<close>

datatype task_state = Gated | Running | Written bool | Done bool | Cancelled

record 'k task =
  t_key :: 'k
  t_state :: task_state

text \<open>
  Who waits for a future: \<^verbatim>\<open>enqueue\<close> for an older write at its key, \<^verbatim>\<open>drain_while_above_limit\<close> in
  \<^verbatim>\<open>enqueue\<close>, \<^verbatim>\<open>wait\<close> for a read, and \<^verbatim>\<open>drain_while_above_limit\<close> in \<^verbatim>\<open>flush\<close>. The number is the task.
\<close>

datatype caller = ForEnqueue nat | ForLimit nat | ForWait | ForFlush

datatype 'k pc =
    Idle
  | LockEnqueue nat
  | Lookup 'k caller
  | Await 'k nat caller
  | Remove 'k nat caller
  | Insert nat
  | CheckLimit nat
  | DrainAny "nat option"
  | OpenGate nat bool
  | LockFlush
  | CheckFlush
  | Finished bool
  | Panicked

record 'k wbq =
  wq_futures :: "('k \<times> nat) list"
  wq_limit :: nat
  wq_tasks :: "'k task list"
  wq_lock :: "nat option"
  wq_threads :: "'k pc list"

definition wbq_new :: "nat \<Rightarrow> nat \<Rightarrow> 'k wbq" where
  "wbq_new limit threads = \<lparr>wq_futures = [], wq_limit = limit, wq_tasks = [], wq_lock = None, wq_threads = replicate threads Idle\<rparr>"

definition shift_remove :: "'k \<Rightarrow> ('k \<times> nat) list \<Rightarrow> ('k \<times> nat) list" where
  "shift_remove k fs = filter (\<lambda>e. fst e \<noteq> k) fs"

definition set_pc :: "nat \<Rightarrow> 'k pc \<Rightarrow> 'k wbq \<Rightarrow> 'k wbq" where
  "set_pc i p s = s\<lparr>wq_threads := (wq_threads s)[i := p]\<rparr>"

definition set_task :: "nat \<Rightarrow> task_state \<Rightarrow> 'k wbq \<Rightarrow> 'k wbq" where
  "set_task t st s = s\<lparr>wq_tasks := (wq_tasks s)[t := (wq_tasks s ! t)\<lparr>t_state := st\<rparr>]\<rparr>"

definition key_of :: "'k wbq \<Rightarrow> nat \<Rightarrow> 'k" where "key_of s t = t_key (wq_tasks s ! t)"

definition state_of :: "'k wbq \<Rightarrow> nat \<Rightarrow> task_state" where "state_of s t = t_state (wq_tasks s ! t)"

text \<open>What a thread does with the result of the future it waited for, or when there was none.\<close>

fun resume :: "nat \<Rightarrow> caller \<Rightarrow> bool \<Rightarrow> 'k wbq \<Rightarrow> 'k wbq" where
  "resume i (ForEnqueue t) r s = (if r then set_pc i (Insert t) s
     else set_pc i (Finished False) (set_task t Cancelled (s\<lparr>wq_lock := None\<rparr>)))"
| "resume i (ForLimit t) r s = (if r then set_pc i (CheckLimit t) s else set_pc i (OpenGate t False) s)"
| "resume i ForWait r s = set_pc i (Finished r) s"
| "resume i ForFlush r s = (if r then set_pc i CheckFlush s else set_pc i (Finished False) (s\<lparr>wq_lock := None\<rparr>))"

text \<open>The loop of \<^verbatim>\<open>drain_while_above_limit\<close>, in an \<^verbatim>\<open>enqueue\<close> or in a \<^verbatim>\<open>flush\<close>, and leaving it with success.\<close>

fun drain_caller :: "nat option \<Rightarrow> caller" where
  "drain_caller (Some t) = ForLimit t"
| "drain_caller None = ForFlush"

fun drained :: "nat \<Rightarrow> nat option \<Rightarrow> 'k wbq \<Rightarrow> 'k wbq" where
  "drained i (Some t) s = set_pc i (OpenGate t True) s"
| "drained i None s = set_pc i (Finished True) (s\<lparr>wq_lock := None\<rparr>)"

text \<open>A thread begins an operation.\<close>

inductive start :: "'k wbq \<Rightarrow> 'k wbq \<Rightarrow> bool" where
  begin_write: "start s (set_pc i (LockEnqueue (length (wq_tasks s))) (s\<lparr>wq_tasks := wq_tasks s @ [\<lparr>t_key = k, t_state = Gated\<rparr>]\<rparr>))"
    if "i < length (wq_threads s)" "wq_threads s ! i = Idle"
| begin_read: "start s (set_pc i (Lookup k ForWait) s)"
    if "i < length (wq_threads s)" "wq_threads s ! i = Idle"
| begin_flush: "start s (set_pc i LockFlush s)"
    if "i < length (wq_threads s)" "wq_threads s ! i = Idle"

text \<open>The steps of the operations in progress and of the background tasks.\<close>

inductive run :: "'k wbq \<Rightarrow> 'k wbq \<Rightarrow> bool" where
  lock_enqueue: "run s (set_pc i (Lookup (key_of s t) (ForEnqueue t)) (s\<lparr>wq_lock := Some i\<rparr>))"
    if "i < length (wq_threads s)" "wq_threads s ! i = LockEnqueue t" "wq_lock s = None"
| lookup_none: "run s (resume i c True s)"
    if "i < length (wq_threads s)" "wq_threads s ! i = Lookup k c" "map_of (wq_futures s) k = None"
| lookup_some: "run s (set_pc i (Await k f c) s)"
    if "i < length (wq_threads s)" "wq_threads s ! i = Lookup k c" "map_of (wq_futures s) k = Some f"
| await: "run s (set_pc i (Remove k f c) s)"
    if "i < length (wq_threads s)" "wq_threads s ! i = Await k f c" "state_of s f = Done r"
| remove: "run s (resume i c r (s\<lparr>wq_futures := shift_remove k (wq_futures s)\<rparr>))"
    if "i < length (wq_threads s)" "wq_threads s ! i = Remove k f c" "state_of s f = Done r"
| insert: "run s (set_pc i (CheckLimit t) (s\<lparr>wq_futures := wq_futures s @ [(key_of s t, t)], wq_lock := None\<rparr>))"
    if "i < length (wq_threads s)" "wq_threads s ! i = Insert t" "map_of (wq_futures s) (key_of s t) = None"
| insert_panic: "run s (set_pc i Panicked (set_task t Cancelled (s\<lparr>wq_lock := None\<rparr>)))"
    if "i < length (wq_threads s)" "wq_threads s ! i = Insert t" "map_of (wq_futures s) (key_of s t) \<noteq> None"
| above_limit: "run s (set_pc i (DrainAny (Some t)) s)"
    if "i < length (wq_threads s)" "wq_threads s ! i = CheckLimit t" "wq_limit s < length (wq_futures s)"
| within_limit: "run s (drained i (Some t) s)"
    if "i < length (wq_threads s)" "wq_threads s ! i = CheckLimit t" "length (wq_futures s) \<le> wq_limit s"
| drain_first: "run s (set_pc i (Await k f (drain_caller c)) s)"
    if "i < length (wq_threads s)" "wq_threads s ! i = DrainAny c" "wq_futures s = (k, f) # rest"
| drain_none: "run s (drained i c s)"
    if "i < length (wq_threads s)" "wq_threads s ! i = DrainAny c" "wq_futures s = []"
| open_gate: "run s (set_pc i (Finished r) (set_task t Running s))"
    if "i < length (wq_threads s)" "wq_threads s ! i = OpenGate t r"
| lock_flush: "run s (set_pc i CheckFlush (s\<lparr>wq_lock := Some i\<rparr>))"
    if "i < length (wq_threads s)" "wq_threads s ! i = LockFlush" "wq_lock s = None"
| flush_more: "run s (set_pc i (DrainAny None) s)"
    if "i < length (wq_threads s)" "wq_threads s ! i = CheckFlush" "wq_futures s \<noteq> []"
| flush_done: "run s (drained i None s)"
    if "i < length (wq_threads s)" "wq_threads s ! i = CheckFlush" "wq_futures s = []"
| task_write: "run s (set_task t (Written r) s)"
    if "t < length (wq_tasks s)" "state_of s t = Running"
| mark_completed: "run s (set_task t (Done r) (s\<lparr>wq_futures := shift_remove (key_of s t) (wq_futures s)\<rparr>))"
    if "t < length (wq_tasks s)" "state_of s t = Written r"

definition step :: "'k wbq \<Rightarrow> 'k wbq \<Rightarrow> bool" where
  "step s s' \<longleftrightarrow> start s s' \<or> run s s'"

abbreviation reachable :: "nat \<Rightarrow> nat \<Rightarrow> 'k wbq \<Rightarrow> bool" where
  "reachable limit threads s \<equiv> step\<^sup>*\<^sup>* (wbq_new limit threads) s"

subsection \<open>The invariant\<close>

lemma set_simps [simp]:
  "wq_threads (set_pc i p s) = (wq_threads s)[i := p]" "wq_futures (set_pc i p s) = wq_futures s" "wq_tasks (set_pc i p s) = wq_tasks s"
  "wq_lock (set_pc i p s) = wq_lock s" "wq_limit (set_pc i p s) = wq_limit s"
  "wq_threads (set_task t st s) = wq_threads s" "wq_futures (set_task t st s) = wq_futures s" "wq_lock (set_task t st s) = wq_lock s"
  "length (wq_tasks (set_task t st s)) = length (wq_tasks s)" "wq_limit (set_task t st s) = wq_limit s"
  by (simp_all add: set_pc_def set_task_def)

lemma key_of_simps [simp]:
  "key_of (set_pc i p s) t = key_of s t" "key_of (set_task t' st s) t = key_of s t"
  "key_of (s\<lparr>wq_futures := fs\<rparr>) t = key_of s t" "key_of (s\<lparr>wq_lock := l\<rparr>) t = key_of s t"
  by (simp_all add: key_of_def set_pc_def) (cases "t = t'"; cases "t' < length (wq_tasks s)"; simp add: key_of_def set_task_def list_update_beyond)

lemma state_of_simps [simp]:
  "state_of (set_pc i p s) t = state_of s t" "state_of (s\<lparr>wq_futures := fs\<rparr>) t = state_of s t" "state_of (s\<lparr>wq_lock := l\<rparr>) t = state_of s t"
  "state_of (set_task t' st s) t = (if t = t' \<and> t < length (wq_tasks s) then st else state_of s t)"
  by (simp_all add: state_of_def set_pc_def) (cases "t = t'"; cases "t' < length (wq_tasks s)"; simp add: state_of_def set_task_def list_update_beyond)

text \<open>The task a thread is enqueuing, whether it has inserted it, and whether the thread holds the flush lock.\<close>

fun caller_owns :: "caller \<Rightarrow> nat option" where
  "caller_owns (ForEnqueue t) = Some t"
| "caller_owns (ForLimit t) = Some t"
| "caller_owns _ = None"

fun owns :: "'k pc \<Rightarrow> nat option" where
  "owns (LockEnqueue t) = Some t"
| "owns (Lookup k c) = caller_owns c"
| "owns (Await k f c) = caller_owns c"
| "owns (Remove k f c) = caller_owns c"
| "owns (Insert t) = Some t"
| "owns (CheckLimit t) = Some t"
| "owns (DrainAny c) = c"
| "owns (OpenGate t r) = Some t"
| "owns _ = None"

fun caller_inserted :: "caller \<Rightarrow> bool" where
  "caller_inserted (ForLimit t) = True"
| "caller_inserted _ = False"

fun inserted :: "'k pc \<Rightarrow> bool" where
  "inserted (Lookup k c) = caller_inserted c"
| "inserted (Await k f c) = caller_inserted c"
| "inserted (Remove k f c) = caller_inserted c"
| "inserted (DrainAny c) \<longleftrightarrow> c \<noteq> None"
| "inserted (CheckLimit t) = True"
| "inserted (OpenGate t r) = True"
| "inserted _ = False"

fun caller_locks :: "caller \<Rightarrow> bool" where
  "caller_locks (ForEnqueue t) = True"
| "caller_locks ForFlush = True"
| "caller_locks _ = False"

fun holds_lock :: "'k pc \<Rightarrow> bool" where
  "holds_lock (Lookup k c) = caller_locks c"
| "holds_lock (Await k f c) = caller_locks c"
| "holds_lock (Remove k f c) = caller_locks c"
| "holds_lock (DrainAny c) \<longleftrightarrow> c = None"
| "holds_lock (Insert t) = True"
| "holds_lock CheckFlush = True"
| "holds_lock _ = False"

fun awaits :: "'k pc \<Rightarrow> nat option" where
  "awaits (Await k f c) = Some f"
| "awaits (Remove k f c) = Some f"
| "awaits _ = None"

text \<open>What a single thread at a place in its program relies on.\<close>

fun pc_ok :: "'k wbq \<Rightarrow> 'k pc \<Rightarrow> bool" where
  "pc_ok s (Lookup k c) \<longleftrightarrow> c = ForWait \<or> (\<exists>t. c = ForEnqueue t \<and> key_of s t = k)"
| "pc_ok s (Await k f c) \<longleftrightarrow> f < length (wq_tasks s) \<and> key_of s f = k \<and> state_of s f \<noteq> Cancelled \<and> (\<forall>t. c = ForEnqueue t \<longrightarrow> key_of s t = k)"
| "pc_ok s (Remove k f c) \<longleftrightarrow> f < length (wq_tasks s) \<and> key_of s f = k \<and> (\<exists>r. state_of s f = Done r) \<and> (\<forall>t. c = ForEnqueue t \<longrightarrow> key_of s t = k)"
| "pc_ok s (Insert t) \<longleftrightarrow> key_of s t \<notin> fst ` set (wq_futures s)"
| "pc_ok s Panicked \<longleftrightarrow> False"
| "pc_ok s _ \<longleftrightarrow> True"

definition lock_inv :: "'k wbq \<Rightarrow> bool" where
  "lock_inv s \<longleftrightarrow> (\<forall>i. wq_lock s = Some i \<longleftrightarrow> i < length (wq_threads s) \<and> holds_lock (wq_threads s ! i))"

definition owners :: "'k wbq \<Rightarrow> nat option list" where
  "owners s = map owns (wq_threads s)"

definition owner_inv :: "'k wbq \<Rightarrow> bool" where
  "owner_inv s \<longleftrightarrow> (\<forall>t < length (wq_tasks s). state_of s t = Gated \<longleftrightarrow> Some t \<in> set (owners s))
     \<and> (\<forall>t. Some t \<in> set (owners s) \<longrightarrow> t < length (wq_tasks s)) \<and> distinct (filter (\<lambda>x. x \<noteq> None) (owners s))"

definition entry_ok :: "'k wbq \<Rightarrow> 'k \<times> nat \<Rightarrow> bool" where
  "entry_ok s e \<longleftrightarrow> snd e < length (wq_tasks s) \<and> key_of s (snd e) = fst e \<and> state_of s (snd e) \<noteq> Cancelled"

text \<open>Nobody has seen the future of a task before it is inserted.\<close>

definition hidden :: "'k wbq \<Rightarrow> 'k pc \<Rightarrow> bool" where
  "hidden s p \<longleftrightarrow> (\<forall>t. owns p = Some t \<longrightarrow> \<not> inserted p \<longrightarrow> t \<notin> snd ` set (wq_futures s)
     \<and> (\<forall>q \<in> set (wq_threads s). awaits q \<noteq> Some t))"

definition futures_inv :: "'k wbq \<Rightarrow> bool" where
  "futures_inv s \<longleftrightarrow> distinct (map fst (wq_futures s)) \<and> (\<forall>e \<in> set (wq_futures s). entry_ok s e)
     \<and> (\<forall>p \<in> set (wq_threads s). pc_ok s p \<and> hidden s p)"

lemma resume_simps [simp]:
  "wq_futures (resume i c r s) = wq_futures s" "wq_limit (resume i c r s) = wq_limit s" "length (wq_tasks (resume i c r s)) = length (wq_tasks s)"
  "length (wq_threads (resume i c r s)) = length (wq_threads s)" "key_of (resume i c r s) t = key_of s t"
  by (cases c; simp)+

lemma lock_inv_thread:
  assumes "lock_inv s" "i < length (wq_threads s)" "wq_threads s' = (wq_threads s)[i := p]"
    "wq_lock s' = (if holds_lock p = holds_lock (wq_threads s ! i) then wq_lock s else if holds_lock p then Some i else None)"
    "holds_lock p \<longrightarrow> holds_lock (wq_threads s ! i) \<or> wq_lock s = None"
  shows "lock_inv s'"
proof -
  have lock: "wq_lock s = Some j \<longleftrightarrow> j < length (wq_threads s) \<and> holds_lock (wq_threads s ! j)" for j
    using assms(1) by (simp add: lock_inv_def)
  have "wq_lock s' = Some j \<longleftrightarrow> j < length (wq_threads s') \<and> holds_lock (wq_threads s' ! j)" for j
    using assms(2-5) lock [of i] lock [of j] by (cases "j = i") (auto simp: nth_list_update split: if_splits)
  then show ?thesis
    by (simp add: lock_inv_def)
qed

lemma lock_inv_run:
  assumes "run s s'" "lock_inv s"
  shows "lock_inv s'"
  using assms(1)
proof cases
  case (lookup_none i k c)
  then show ?thesis
    by (cases c) (auto intro: lock_inv_thread [OF assms(2)])
next
  case (remove i k f c r)
  then show ?thesis
    by (cases c) (auto intro: lock_inv_thread [OF assms(2)])
next
  case (drain_none i c)
  then show ?thesis
    by (cases c) (auto intro: lock_inv_thread [OF assms(2)])
next
  case (task_write t r)
  then show ?thesis
    using assms(2) by (simp add: lock_inv_def)
next
  case (mark_completed t r)
  then show ?thesis
    using assms(2) by (simp add: lock_inv_def)
next
  case (drain_first i c k f rest)
  then show ?thesis
    by (cases c) (auto intro: lock_inv_thread [OF assms(2)])
qed (auto intro: lock_inv_thread [OF assms(2)])

lemma lock_inv_start: "start s s' \<Longrightarrow> lock_inv s \<Longrightarrow> lock_inv s'"
  by (cases rule: start.cases) (auto intro: lock_inv_thread)

lemma owners_nth: "i < length (wq_threads s) \<Longrightarrow> owns (wq_threads s ! i) = Some t \<Longrightarrow> Some t \<in> set (owners s)"
  by (metis length_map nth_map nth_mem owners_def)

lemma owns_less: "owner_inv s \<Longrightarrow> i < length (wq_threads s) \<Longrightarrow> owns (wq_threads s ! i) = Some t \<Longrightarrow> t < length (wq_tasks s)"
  using owners_nth unfolding owner_inv_def by blast

lemma owner_inv_thread:
  assumes "owner_inv s" "i < length (wq_threads s)" "wq_threads s' = (wq_threads s)[i := p]" "length (wq_tasks s') = length (wq_tasks s)"
    "\<And>t. state_of s' t = state_of s t" "owns p = owns (wq_threads s ! i)"
  shows "owner_inv s'"
proof -
  have "owners s' = owners s"
    using assms(2, 6) by (simp add: owners_def assms(3) map_update list_update_same_conv)
  then show ?thesis
    using assms(1, 4, 5) by (simp add: owner_inv_def)
qed

text \<open>A thread gives up its task, which leaves the gated state.\<close>

lemma distinct_filter_None:
  assumes "distinct (filter (\<lambda>x. x \<noteq> None) xs)" "i < length xs" "xs ! i = Some t"
  shows "distinct (filter (\<lambda>x. x \<noteq> None) (xs[i := None]))" "set (xs[i := None]) - {None} = set xs - {None, Some t}"
proof -
  have xs: "xs = take i xs @ Some t # drop (Suc i) xs"
    using assms(2, 3) by (metis id_take_nth_drop)
  have upd: "xs[i := None] = take i xs @ None # drop (Suc i) xs"
    using assms(2) by (simp add: upd_conv_take_nth_drop)
  have d: "distinct (filter (\<lambda>x. x \<noteq> None) (take i xs @ Some t # drop (Suc i) xs))"
    using assms(1) xs by simp
  then show "distinct (filter (\<lambda>x. x \<noteq> None) (xs[i := None]))"
    unfolding upd by simp
  have "set xs = set (take i xs) \<union> {Some t} \<union> set (drop (Suc i) xs)"
    by (subst xs) auto
  then show "set (xs[i := None]) - {None} = set xs - {None, Some t}"
    unfolding upd using d by auto
qed

lemma owner_inv_leave:
  assumes "owner_inv s" "i < length (wq_threads s)" "wq_threads s' = (wq_threads s)[i := p]" "length (wq_tasks s') = length (wq_tasks s)"
    "owns (wq_threads s ! i) = Some t" "owns p = None" "\<And>u. state_of s' u = (if u = t then st else state_of s u)" "st \<noteq> Gated"
  shows "owner_inv s'"
proof -
  have own: "owners s' = (owners s)[i := None]"
    using assms(6) by (simp add: owners_def assms(3) map_update)
  have d: "distinct (filter (\<lambda>x. x \<noteq> None) (owners s))"
    using assms(1) by (simp add: owner_inv_def)
  note f = distinct_filter_None [OF d, of i t, folded own]
  have "i < length (owners s)" "owners s ! i = Some t"
    using assms(2, 5) by (simp_all add: owners_def)
  note f = f [OF this]
  have mem: "Some u \<in> set (owners s') \<longleftrightarrow> Some u \<in> set (owners s) \<and> u \<noteq> t" for u
    using f(2) by blast
  show ?thesis
    using assms(1, 4, 8) f(1) unfolding owner_inv_def mem assms(7) by auto
qed

lemma owner_inv_task:
  "owner_inv s \<Longrightarrow> wq_threads s' = wq_threads s \<Longrightarrow> length (wq_tasks s') = length (wq_tasks s)
    \<Longrightarrow> (\<And>t. (state_of s' t = Gated) = (state_of s t = Gated)) \<Longrightarrow> owner_inv s'"
  by (simp add: owner_inv_def owners_def)

lemma owner_inv_run:
  assumes "run s s'" "owner_inv s"
  shows "owner_inv s'"
  using assms(1)
proof cases
  case (lookup_none i k c)
  then show ?thesis
    by (cases c) (auto intro: owner_inv_thread [OF assms(2)])
next
  case (remove i k f c r)
  show ?thesis
  proof (cases "\<exists>t. c = ForEnqueue t \<and> \<not> r")
    case True
    then obtain t where t: "c = ForEnqueue t" "\<not> r"
      by blast
    then have "t < length (wq_tasks s)"
      using remove owns_less [OF assms(2), of i t] by simp
    then show ?thesis
      using remove t by (auto intro!: owner_inv_leave [OF assms(2), of i _ "Finished False" t Cancelled])
  next
    case False
    then show ?thesis
      using remove by (cases c) (auto intro!: owner_inv_thread [OF assms(2)])
  qed
next
  case (drain_none i c)
  then show ?thesis
    by (cases c) (auto intro: owner_inv_thread [OF assms(2)])
next
  case (drain_first i c k f rest)
  then show ?thesis
    by (cases c) (auto intro: owner_inv_thread [OF assms(2)])
next
  case (insert_panic i t)
  then have "t < length (wq_tasks s)"
    using owns_less [OF assms(2), of i t] by simp
  then show ?thesis
    using insert_panic by (auto intro!: owner_inv_leave [OF assms(2), of i _ Panicked t Cancelled])
next
  case (open_gate i t r)
  then have "t < length (wq_tasks s)"
    using owns_less [OF assms(2), of i t] by simp
  then show ?thesis
    using open_gate by (auto intro!: owner_inv_leave [OF assms(2), of i _ "Finished r" t Running])
next
  case (task_write t r)
  then show ?thesis
    by (intro owner_inv_task [OF assms(2)]) auto
next
  case (mark_completed t r)
  then show ?thesis
    by (intro owner_inv_task [OF assms(2)]) auto
qed (auto intro: owner_inv_thread [OF assms(2)])

lemma distinct_filter_Some:
  assumes "distinct (filter (\<lambda>x. x \<noteq> None) xs)" "i < length xs" "xs ! i = None" "Some t \<notin> set xs"
  shows "distinct (filter (\<lambda>x. x \<noteq> None) (xs[i := Some t]))" "Some u \<in> set (xs[i := Some t]) \<longleftrightarrow> u = t \<or> Some u \<in> set xs"
proof -
  have xs: "xs = take i xs @ None # drop (Suc i) xs"
    using assms(2, 3) by (metis id_take_nth_drop)
  have upd: "xs[i := Some t] = take i xs @ Some t # drop (Suc i) xs"
    using assms(2) by (simp add: upd_conv_take_nth_drop)
  have "distinct (filter (\<lambda>x. x \<noteq> None) (take i xs @ None # drop (Suc i) xs))"
    using assms(1) xs by simp
  moreover have set: "set xs = insert None (set (take i xs) \<union> set (drop (Suc i) xs))"
    by (subst xs) auto
  ultimately show "distinct (filter (\<lambda>x. x \<noteq> None) (xs[i := Some t]))"
    unfolding upd using assms(4) by auto
  show "Some u \<in> set (xs[i := Some t]) \<longleftrightarrow> u = t \<or> Some u \<in> set xs"
    unfolding upd set by auto
qed

lemma owner_inv_start:
  assumes "start s s'" "owner_inv s"
  shows "owner_inv s'"
  using assms(1)
proof cases
  case (begin_write i k)
  let ?t = "length (wq_tasks s)"
  have own: "owners s' = (owners s)[i := Some ?t]" "owners s ! i = None" "i < length (owners s)"
    using begin_write by (simp_all add: owners_def map_update)
  have new: "Some ?t \<notin> set (owners s)"
    using assms(2) by (auto simp: owner_inv_def)
  have d: "distinct (filter (\<lambda>x. x \<noteq> None) (owners s))"
    using assms(2) by (simp add: owner_inv_def)
  note f = distinct_filter_Some [OF d own(3, 2) new, folded own(1)]
  have "state_of s' u = (if u = ?t then Gated else state_of s u)" if "u \<le> ?t" for u
    using that by (auto simp: begin_write state_of_def set_pc_def nth_append)
  then show ?thesis
    using assms(2) f(1) unfolding owner_inv_def f(2) by (auto simp: begin_write less_Suc_eq)
qed (auto intro: owner_inv_thread [OF assms(2)])

text \<open>A thread goes on without inserting or leaving its task; entries may disappear from the queue.\<close>

definition shrinks :: "'k wbq \<Rightarrow> 'k wbq \<Rightarrow> bool" where
  "shrinks s s' \<longleftrightarrow> length (wq_tasks s') = length (wq_tasks s) \<and> (\<forall>t. key_of s' t = key_of s t)
     \<and> (\<exists>P. wq_futures s' = filter P (wq_futures s))"

lemma pc_ok_mono:
  assumes "pc_ok s p" "shrinks s s'" "\<And>t r. state_of s t = Done r \<Longrightarrow> state_of s' t = Done r"
    "\<And>t. awaits p = Some t \<Longrightarrow> state_of s' t = Cancelled \<Longrightarrow> state_of s t = Cancelled"
  shows "pc_ok s' p"
proof -
  have sh: "length (wq_tasks s') = length (wq_tasks s)" "\<And>t. key_of s' t = key_of s t" "set (wq_futures s') \<subseteq> set (wq_futures s)"
    using assms(2) by (auto simp: shrinks_def)
  show ?thesis
  proof (cases p)
    case (Await k f c)
    then show ?thesis
      using assms(1) assms(4) [of f] sh by auto
  next
    case (Remove k f c)
    then show ?thesis
      using assms(1) assms(3) sh by auto
  next
    case (Insert t)
    then show ?thesis
      using assms(1) sh by auto
  qed (use assms(1) sh in auto)
qed

lemma hidden_mono:
  assumes "hidden s q" "set (wq_futures s') \<subseteq> set (wq_futures s)"
    "\<And>x t. x \<in> set (wq_threads s') \<Longrightarrow> x \<in> set (wq_threads s) \<or> awaits x \<noteq> Some t \<or> t \<in> snd ` set (wq_futures s)
        \<or> (\<exists>y \<in> set (wq_threads s). awaits y = Some t)"
  shows "hidden s' q"
  unfolding hidden_def
proof (intro allI impI conjI ballI)
  fix t assume t: "owns q = Some t" "\<not> inserted q"
  then have unseen: "t \<notin> snd ` set (wq_futures s)" "\<And>x. x \<in> set (wq_threads s) \<Longrightarrow> awaits x \<noteq> Some t"
    using assms(1) by (auto simp: hidden_def)
  then show "t \<notin> snd ` set (wq_futures s')"
    using assms(2) by auto
  show "awaits x \<noteq> Some t" if "x \<in> set (wq_threads s')" for x
    using assms(3) [OF that, of t] unseen by auto
qed

lemma futures_inv_thread:
  assumes inv: "futures_inv s" and i: "i < length (wq_threads s)" "wq_threads s' = (wq_threads s)[i := p]"
    and sh: "shrinks s s'" and st: "\<And>t. state_of s' t = state_of s t"
    and p: "pc_ok s' p" "owns p = owns (wq_threads s ! i)" "inserted p = inserted (wq_threads s ! i)"
    and aw: "\<And>f. awaits p = Some f \<Longrightarrow> awaits (wq_threads s ! i) = Some f \<or> f \<in> snd ` set (wq_futures s)"
  shows "futures_inv s'"
proof -
  have old: "wq_threads s ! i \<in> set (wq_threads s)"
    using i(1) by simp
  have len: "length (wq_tasks s') = length (wq_tasks s)" "\<And>t. key_of s' t = key_of s t" "set (wq_futures s') \<subseteq> set (wq_futures s)"
    using sh by (auto simp: shrinks_def)
  have inv': "\<And>e. e \<in> set (wq_futures s) \<Longrightarrow> entry_ok s e" "\<And>q. q \<in> set (wq_threads s) \<Longrightarrow> pc_ok s q" "\<And>q. q \<in> set (wq_threads s) \<Longrightarrow> hidden s q"
    using inv by (simp_all add: futures_inv_def)
  have "distinct (map fst (wq_futures s'))"
    using inv sh distinct_map_filter by (auto simp: futures_inv_def shrinks_def)
  moreover have "entry_ok s' e" if "e \<in> set (wq_futures s')" for e
    using inv'(1) [OF subsetD [OF len(3) that]] len(1, 2) st by (simp add: entry_ok_def)
  moreover have "pc_ok s' q" if "q \<in> set (wq_threads s')" for q
    using that i(2) p(1) pc_ok_mono [OF inv'(2) sh, of q] st set_update_subset_insert [of "wq_threads s" i p] by auto
  moreover have "hidden s' q" if "q \<in> set (wq_threads s')" for q
  proof -
    have sub: "set (wq_threads s') \<subseteq> insert p (set (wq_threads s))"
      by (simp add: i(2) set_update_subset_insert)
    have "hidden s' q" if "hidden s q"
      using that
    proof (rule hidden_mono [OF _ len(3)])
      show "x \<in> set (wq_threads s) \<or> awaits x \<noteq> Some t \<or> t \<in> snd ` set (wq_futures s) \<or> (\<exists>y \<in> set (wq_threads s). awaits y = Some t)"
        if "x \<in> set (wq_threads s')" for x t
        using that sub aw old by blast
    qed
    moreover have "hidden s p"
      using inv'(3) [OF old] p(2, 3) by (simp add: hidden_def)
    ultimately show ?thesis
      using that sub inv'(3) by blast
  qed
  ultimately show ?thesis
    by (simp add: futures_inv_def)
qed

text \<open>A task changes its state; it may disappear from the queue.\<close>

lemma futures_inv_task:
  assumes inv: "futures_inv s" and th: "wq_threads s' = wq_threads s" and sh: "shrinks s s'"
    and st: "\<And>u. state_of s' u = (if u = t then st else state_of s u)" "st \<noteq> Cancelled" "\<And>r. state_of s t \<noteq> Done r"
  shows "futures_inv s'"
proof -
  have len: "length (wq_tasks s') = length (wq_tasks s)" "\<And>t. key_of s' t = key_of s t" "set (wq_futures s') \<subseteq> set (wq_futures s)"
    using sh by (auto simp: shrinks_def)
  have "distinct (map fst (wq_futures s'))"
    using inv sh distinct_map_filter by (auto simp: futures_inv_def shrinks_def)
  moreover have "entry_ok s' e" if "e \<in> set (wq_futures s')" for e
    using inv subsetD [OF len(3) that] len(1, 2) st by (auto simp: entry_ok_def futures_inv_def)
  moreover have "pc_ok s' q" if "q \<in> set (wq_threads s)" for q
    using inv that st by (intro pc_ok_mono [OF _ sh]) (auto simp: futures_inv_def split: if_splits)
  moreover have "hidden s q \<Longrightarrow> hidden s' q" for q
    by (erule hidden_mono [OF _ len(3)]) (simp add: th)
  ultimately show ?thesis
    using inv by (auto simp: futures_inv_def th)
qed

text \<open>A thread gives up its task.\<close>

lemma futures_inv_leave:
  assumes inv: "futures_inv s" and i: "i < length (wq_threads s)" "wq_threads s' = (wq_threads s)[i := Finished r]"
    and sh: "shrinks s s'" and st: "\<And>u. state_of s' u = (if u = t then st else state_of s u)" "state_of s t = Gated"
    and t: "owns (wq_threads s ! i) = Some t" "inserted (wq_threads s ! i) \<Longrightarrow> st \<noteq> Cancelled"
  shows "futures_inv s'"
proof -
  have old: "wq_threads s ! i \<in> set (wq_threads s)"
    using i(1) by simp
  have len: "length (wq_tasks s') = length (wq_tasks s)" "\<And>t. key_of s' t = key_of s t" "set (wq_futures s') \<subseteq> set (wq_futures s)"
    using sh by (auto simp: shrinks_def)
  have sub: "set (wq_threads s') \<subseteq> insert (Finished r) (set (wq_threads s))"
    by (simp add: i(2) set_update_subset_insert)
  have inv': "\<And>e. e \<in> set (wq_futures s) \<Longrightarrow> entry_ok s e" "\<And>q. q \<in> set (wq_threads s) \<Longrightarrow> pc_ok s q" "\<And>q. q \<in> set (wq_threads s) \<Longrightarrow> hidden s q"
    using inv by (simp_all add: futures_inv_def)
  have unseen: "t \<notin> snd ` set (wq_futures s)" "\<And>q. q \<in> set (wq_threads s) \<Longrightarrow> awaits q \<noteq> Some t" if "st = Cancelled"
    using inv'(3) [OF old] t that by (auto simp: hidden_def)
  have "distinct (map fst (wq_futures s'))"
    using inv sh distinct_map_filter by (auto simp: futures_inv_def shrinks_def)
  moreover have "entry_ok s' e" if "e \<in> set (wq_futures s')" for e
    using inv'(1) [OF subsetD [OF len(3) that]] subsetD [OF len(3) that] len(1, 2) st(1) unseen(1) by (auto simp: entry_ok_def)
  moreover have "pc_ok s' q" if "q \<in> set (wq_threads s')" for q
  proof (cases "q = Finished r")
    case False
    then have q: "q \<in> set (wq_threads s)"
      using that sub by auto
    show ?thesis
    proof (rule pc_ok_mono [OF inv'(2) [OF q] sh])
      show "state_of s' u = Done x" if "state_of s u = Done x" for u x
        using that st by auto
      show "state_of s u = Cancelled" if "awaits q = Some u" "state_of s' u = Cancelled" for u
        using that st(1) unseen(2) [OF _ q] by (auto split: if_splits)
    qed
  qed simp
  moreover have "hidden s' q" if "q \<in> set (wq_threads s')" for q
  proof (cases "q = Finished r")
    case False
    then show ?thesis
      using that sub by (intro hidden_mono [OF inv'(3) len(3)]) auto
  qed (simp add: hidden_def)
  ultimately show ?thesis
    by (simp add: futures_inv_def)
qed

lemma shrinks_refl [simp]: "wq_futures s' = wq_futures s \<Longrightarrow> length (wq_tasks s') = length (wq_tasks s) \<Longrightarrow> (\<And>t. key_of s' t = key_of s t) \<Longrightarrow> shrinks s s'"
  unfolding shrinks_def by (auto intro: exI [of _ "\<lambda>_. True"])

lemma shrinks_remove: "wq_futures s' = shift_remove k (wq_futures s) \<Longrightarrow> length (wq_tasks s') = length (wq_tasks s) \<Longrightarrow> (\<And>t. key_of s' t = key_of s t) \<Longrightarrow> shrinks s s'"
  unfolding shrinks_def shift_remove_def by auto

definition wbq_inv :: "'k wbq \<Rightarrow> bool" where
  "wbq_inv s \<longleftrightarrow> lock_inv s \<and> owner_inv s \<and> futures_inv s"

lemma wbq_invD:
  assumes "wbq_inv s"
  shows "i < length (wq_threads s) \<Longrightarrow> pc_ok s (wq_threads s ! i)" "(k, f) \<in> set (wq_futures s) \<Longrightarrow> entry_ok s (k, f)"
    "i < length (wq_threads s) \<Longrightarrow> owns (wq_threads s ! i) = Some t \<Longrightarrow> t < length (wq_tasks s) \<and> state_of s t = Gated"
  using assms owns_less [of s i t] owners_nth [of i s t] by (auto simp: wbq_inv_def futures_inv_def owner_inv_def)

lemma in_set_list_update: "q \<in> set (xs[i := p]) \<Longrightarrow> q \<noteq> p \<Longrightarrow> i < length xs \<Longrightarrow> \<exists>j < length xs. j \<noteq> i \<and> q = xs ! j"
  unfolding in_set_conv_nth by (metis length_list_update nth_list_update_eq nth_list_update_neq)

lemma futures_inv_insert:
  assumes inv: "wbq_inv s" and i: "i < length (wq_threads s)" "wq_threads s ! i = Insert t"
  shows "futures_inv (set_pc i (CheckLimit t) (s\<lparr>wq_futures := wq_futures s @ [(key_of s t, t)], wq_lock := None\<rparr>))"
    (is "futures_inv ?s'")
proof -
  have fi: "futures_inv s" and li: "lock_inv s" and oi: "owner_inv s"
    using inv by (simp_all add: wbq_inv_def)
  have t: "t < length (wq_tasks s)" "state_of s t = Gated"
    using wbq_invD(3) [OF inv i(1), of t] i(2) by simp_all
  have fresh: "key_of s t \<notin> fst ` set (wq_futures s)"
    using wbq_invD(1) [OF inv i(1)] i(2) by simp
  have len: "length (wq_tasks ?s') = length (wq_tasks s)" "\<And>u. key_of ?s' u = key_of s u" "\<And>u. state_of ?s' u = state_of s u"
    by (simp_all add: set_pc_def key_of_def state_of_def)
  have other: "q \<in> set (wq_threads s) \<and> (\<forall>u. q \<noteq> Insert u) \<and> owns q \<noteq> Some t" if q: "q \<in> set (wq_threads ?s')" "q \<noteq> CheckLimit t" for q
  proof -
    obtain j where j: "j < length (wq_threads s)" "q = wq_threads s ! j" "j \<noteq> i"
      using in_set_list_update [of q "wq_threads s" i "CheckLimit t"] q i(1) by auto
    have "\<not> holds_lock q"
      using li i j unfolding lock_inv_def by (metis holds_lock.simps(5) option.inject)
    moreover have "owns q \<noteq> Some t"
    proof
      assume "owns q = Some t"
      then have "owners s ! i = Some t" "owners s ! j = Some t" "i < length (owners s)" "j < length (owners s)"
        using i j by (simp_all add: owners_def)
      moreover have "distinct (filter (\<lambda>x. x \<noteq> None) (owners s))"
        using oi by (simp add: owner_inv_def)
      ultimately show False
        using distinct_filter_None(2) [of "owners s" i t] \<open>j \<noteq> i\<close> by (metis Diff_iff insertCI nth_list_update_neq nth_mem option.distinct(1) length_list_update singletonD)
    qed
    ultimately show ?thesis
      using j by auto
  qed
  have "distinct (map fst (wq_futures ?s'))"
    using fi fresh by (auto simp: futures_inv_def)
  moreover have "entry_ok ?s' e" if "e \<in> set (wq_futures ?s')" for e
  proof -
    have "entry_ok ?s' e = entry_ok s e"
      by (simp only: entry_ok_def len)
    moreover have "entry_ok s (key_of s t, t)"
      using t by (simp add: entry_ok_def)
    ultimately show ?thesis
      using that fi by (auto simp: futures_inv_def)
  qed
  moreover have "pc_ok ?s' q" if q: "q \<in> set (wq_threads ?s')" for q
  proof (cases "q = CheckLimit t")
    case False
    then have "pc_ok s q" "\<And>u. q \<noteq> Insert u"
      using other [OF q] fi by (auto simp: futures_inv_def)
    then show ?thesis
      by (cases q) (simp_all only: pc_ok.simps len simp_thms pc.distinct, blast+)
  qed simp
  moreover have "hidden ?s' q" if q: "q \<in> set (wq_threads ?s')" for q
  proof (cases "q = CheckLimit t")
    case False
    then have "hidden s q" "owns q \<noteq> Some t"
      using other [OF q] fi by (auto simp: futures_inv_def)
    then show ?thesis
      using other by (fastforce simp: hidden_def)
  qed (simp add: hidden_def)
  ultimately show ?thesis
    by (simp add: futures_inv_def)
qed

lemma futures_inv_run:
  assumes "run s s'" "wbq_inv s"
  shows "futures_inv s'"
proof -
  have fi: "futures_inv s"
    using assms(2) by (simp add: wbq_inv_def)
  note ok = wbq_invD [OF assms(2)]
  show ?thesis
    using assms(1)
  proof cases
    case (lookup_none i k c)
    then show ?thesis
      using ok(1) [of i] by (cases c) (auto intro!: futures_inv_thread [OF fi] simp: map_of_eq_None_iff)
  next
    case (lookup_some i k c f)
    have "(k, f) \<in> set (wq_futures s)"
      using lookup_some by (simp add: map_of_SomeD)
    then have "f \<in> snd ` set (wq_futures s)" "entry_ok s (k, f)"
      using ok(2) by force+
    then show ?thesis
      using lookup_some ok(1) [of i] by (auto intro!: futures_inv_thread [OF fi] simp: entry_ok_def simp del: image_iff del: imageE)
  next
    case (await i k f c r)
    then show ?thesis
      using ok(1) [of i] by (auto intro!: futures_inv_thread [OF fi])
  next
    case (remove i k f c r)
    show ?thesis
    proof (cases "\<exists>t. c = ForEnqueue t \<and> \<not> r")
      case True
      then obtain t where t: "c = ForEnqueue t" "\<not> r"
        by blast
      then show ?thesis
        using remove ok(3) [of i t]
        by (auto intro!: futures_inv_leave [OF fi, of i _ False t Cancelled] shrinks_remove [of _ k])
    next
      case False
      then show ?thesis
        using remove ok(1) [of i] by (cases c) (auto intro!: futures_inv_thread [OF fi] shrinks_remove [of _ k] simp: shift_remove_def)
    qed
  next
    case (insert i t)
    then show ?thesis
      using futures_inv_insert [OF assms(2), of i t] by simp
  next
    case (insert_panic i t)
    then have False
      using ok(1) [of i] by (simp add: map_of_eq_None_iff)
    then show ?thesis ..
  next
    case (drain_first i c k f rest)
    then show ?thesis
      using ok(1) [of i] ok(2) [of k f]
      by (cases c) (auto intro!: futures_inv_thread [OF fi] simp: entry_ok_def)
  next
    case (drain_none i c)
    then show ?thesis
      using ok(1) [of i] by (cases c) (auto intro!: futures_inv_thread [OF fi])
  next
    case (open_gate i t r)
    then show ?thesis
      using ok(3) [of i t] by (auto intro!: futures_inv_leave [OF fi, of i _ r t Running])
  next
    case (task_write t r)
    then show ?thesis
      by (auto intro!: futures_inv_task [OF fi, of _ t "Written r"])
  next
    case (mark_completed t r)
    then show ?thesis
      by (auto intro!: futures_inv_task [OF fi, of _ t "Done r"] shrinks_remove [of _ "key_of s t"])
  qed (use ok(1) in \<open>auto intro!: futures_inv_thread [OF fi]\<close>)
qed

lemma futures_inv_start:
  assumes "start s s'" "wbq_inv s"
  shows "futures_inv s'"
proof -
  have fi: "futures_inv s"
    using assms(2) by (simp add: wbq_inv_def)
  note ok = wbq_invD [OF assms(2)]
  show ?thesis
    using assms(1)
  proof cases
    case (begin_write i k)
    let ?t = "length (wq_tasks s)"
    have len: "length (wq_tasks s') = Suc ?t" "wq_futures s' = wq_futures s" "\<And>u. u < ?t \<Longrightarrow> key_of s' u = key_of s u \<and> state_of s' u = state_of s u"
      by (simp_all add: begin_write set_pc_def key_of_def state_of_def nth_append)
    have threads: "q = LockEnqueue ?t \<or> (\<exists>j < length (wq_threads s). q = wq_threads s ! j)" if "q \<in> set (wq_threads s')" for q
      using that in_set_list_update [of q "wq_threads s" i "LockEnqueue ?t"] begin_write by auto
    have entry: "entry_ok s e" "snd e < ?t" if "e \<in> set (wq_futures s)" for e
      using ok(2) [of "fst e" "snd e"] that by (auto simp: entry_ok_def)
    have aw: "awaits q \<noteq> Some ?t" if "q \<in> set (wq_threads s')" for q
    proof -
      have "q = LockEnqueue ?t \<or> pc_ok s q"
        using threads [OF that] ok(1) by auto
      then show ?thesis
        by (cases q) auto
    qed
    have "pc_ok s' q" if q: "q \<in> set (wq_threads s')" for q
    proof (cases "q = LockEnqueue ?t")
      case False
      then obtain j where j: "j < length (wq_threads s)" "q = wq_threads s ! j"
        using threads [OF q] by blast
      have "\<And>u. owns q = Some u \<Longrightarrow> u < ?t" "pc_ok s q"
        using ok(3) [OF j(1)] ok(1) [OF j(1)] j(2) by auto
      then show ?thesis
        using len by (cases q) auto
    qed simp
    moreover have "hidden s' q" if q: "q \<in> set (wq_threads s')" for q
    proof (cases "q = LockEnqueue ?t")
      case True
      then show ?thesis
        using aw entry(2) len(2) unfolding hidden_def by (metis imageE less_irrefl option.inject owns.simps(1))
    next
      case False
      then have "hidden s q"
        using threads [OF q] fi by (auto simp: futures_inv_def)
      then show ?thesis
      proof (rule hidden_mono)
        show "x \<in> set (wq_threads s) \<or> awaits x \<noteq> Some u \<or> u \<in> snd ` set (wq_futures s) \<or> (\<exists>y \<in> set (wq_threads s). awaits y = Some u)"
          if "x \<in> set (wq_threads s')" for x u
          using threads [OF that] by auto
      qed (simp add: len(2))
    qed
    moreover have "entry_ok s' e" if "e \<in> set (wq_futures s)" for e
      using entry [OF that] len by (simp add: entry_ok_def)
    ultimately show ?thesis
      using fi len(2) by (simp add: futures_inv_def)
  qed (use ok(1) in \<open>auto intro!: futures_inv_thread [OF fi]\<close>)
qed

lemma wbq_inv_step: "step s s' \<Longrightarrow> wbq_inv s \<Longrightarrow> wbq_inv s'"
  using lock_inv_start lock_inv_run owner_inv_start owner_inv_run futures_inv_start futures_inv_run
  unfolding step_def wbq_inv_def by blast

lemma wbq_inv_new: "wbq_inv (wbq_new limit n)"
  by (auto simp: wbq_inv_def lock_inv_def owner_inv_def futures_inv_def wbq_new_def owners_def hidden_def)

lemma wbq_inv_reachable: "step\<^sup>*\<^sup>* s s' \<Longrightarrow> wbq_inv s \<Longrightarrow> wbq_inv s'"
  by (induction rule: rtranclp_induct) (auto intro: wbq_inv_step)

subsection \<open>Writes in flight are in the queue\<close>

definition in_queue :: "'k wbq \<Rightarrow> nat \<Rightarrow> bool" where
  "in_queue s t \<longleftrightarrow> (key_of s t, t) \<in> set (wq_futures s)"

definition queued :: "'k wbq \<Rightarrow> bool" where
  "queued s \<longleftrightarrow> (\<forall>t < length (wq_tasks s). state_of s t = Running \<longrightarrow> in_queue s t)
     \<and> (\<forall>p \<in> set (wq_threads s). \<forall>t. inserted p \<longrightarrow> owns p = Some t \<longrightarrow> in_queue s t)"

lemma in_queue_remove:
  assumes "distinct (map t_key (wq_tasks s))" "t < length (wq_tasks s)" "in_queue s t" "f < length (wq_tasks s)" "f \<noteq> t"
  shows "(key_of s t, t) \<in> set (shift_remove (key_of s f) (wq_futures s))"
proof -
  have "key_of s t \<noteq> key_of s f"
    using assms nth_eq_iff_index_eq [OF assms(1), of t f] by (auto simp: key_of_def)
  then show ?thesis
    using assms(3) by (simp add: shift_remove_def in_queue_def)
qed

lemma queued_thread:
  assumes "queued s" "i < length (wq_threads s)" "wq_threads s' = (wq_threads s)[i := p]" "length (wq_tasks s') = length (wq_tasks s)"
    "\<And>t. key_of s' t = key_of s t" "set (wq_futures s) \<subseteq> set (wq_futures s')"
    "\<And>t. state_of s' t = Running \<Longrightarrow> state_of s t = Running \<or> inserted (wq_threads s ! i) \<and> owns (wq_threads s ! i) = Some t"
    "\<And>t. inserted p \<Longrightarrow> owns p = Some t \<Longrightarrow> inserted (wq_threads s ! i) \<and> owns (wq_threads s ! i) = Some t \<or> in_queue s' t"
  shows "queued s'"
proof -
  have iq: "in_queue s t \<Longrightarrow> in_queue s' t" for t
    using assms(5, 6) by (auto simp: in_queue_def)
  have old: "in_queue s t" if "q \<in> set (wq_threads s)" "inserted q" "owns q = Some t" for q t
    using assms(1) that by (auto simp: queued_def)
  have "in_queue s' t" if "q \<in> set (wq_threads s')" "inserted q" "owns q = Some t" for q t
    using that assms(8) [of t] old [of q t] old [OF nth_mem [OF assms(2)], of t] iq set_update_subset_insert [of "wq_threads s" i p]
    unfolding assms(3) by blast
  moreover have "in_queue s' t" if "t < length (wq_tasks s)" "state_of s' t = Running" for t
    using assms(7) [OF that(2)] old [OF nth_mem [OF assms(2)], of t] iq that(1) assms(1) by (auto simp: queued_def)
  ultimately show ?thesis
    using assms(4) by (auto simp: queued_def)
qed

lemma queued_remove:
  assumes inv: "wbq_inv s" and d: "distinct (map t_key (wq_tasks s))" and q: "queued s" and f: "f < length (wq_tasks s)" "state_of s f \<noteq> Gated" "state_of s f \<noteq> Running"
  shows "queued (s\<lparr>wq_futures := shift_remove (key_of s f) (wq_futures s)\<rparr>)"
proof -
  have "in_queue (s\<lparr>wq_futures := shift_remove (key_of s f) (wq_futures s)\<rparr>) t" if "t < length (wq_tasks s)" "in_queue s t" "t \<noteq> f" for t
    using in_queue_remove [OF d that(1, 2) f(1)] that(3) by (simp add: in_queue_def)
  moreover have "t < length (wq_tasks s) \<and> t \<noteq> f" if "p \<in> set (wq_threads s)" "owns p = Some t" for p t
    using that wbq_invD(3) [OF inv] f(2) by (auto simp: in_set_conv_nth)
  ultimately show ?thesis
    using q f(3) unfolding queued_def by auto
qed

lemma queued_run:
  assumes "run s s'" "wbq_inv s" "queued s" "distinct (map t_key (wq_tasks s))"
  shows "queued s'"
proof -
  note ok = wbq_invD [OF assms(2)]
  show ?thesis
    using assms(1)
  proof cases
    case (lookup_none i k c)
    then show ?thesis
      using ok(1) [of i] by (cases c) (auto intro!: queued_thread [OF assms(3)])
  next
    case (remove i k f c r)
    let ?s = "s\<lparr>wq_futures := shift_remove k (wq_futures s)\<rparr>"
    have "queued ?s"
      using queued_remove [OF assms(2, 4, 3), of f] ok(1) [of i] remove by auto
    then show ?thesis
      using remove ok(3) [of i] by (cases c) (auto intro!: queued_thread [of ?s] split: if_splits)
  next
    case (insert i t)
    then show ?thesis
      by (auto intro!: queued_thread [OF assms(3)] simp: in_queue_def)
  next
    case (drain_first i c k f rest)
    then show ?thesis
      by (cases c) (auto intro!: queued_thread [OF assms(3)])
  next
    case (drain_none i c)
    then show ?thesis
      by (cases c) (auto intro!: queued_thread [OF assms(3)])
  next
    case (task_write t r)
    then show ?thesis
      using assms(3) by (auto simp: queued_def in_queue_def split: if_splits)
  next
    case (mark_completed t r)
    then show ?thesis
      using queued_remove [OF assms(2, 4, 3), of t] by (auto simp: queued_def in_queue_def split: if_splits)
  qed (auto intro!: queued_thread [OF assms(3)] split: if_splits)
qed

lemma run_keys: "run s s' \<Longrightarrow> map t_key (wq_tasks s') = map t_key (wq_tasks s)"
proof -
  assume "run s s'"
  then have "length (wq_tasks s') = length (wq_tasks s) \<and> (\<forall>t. key_of s' t = key_of s t)"
  proof cases
    case (drain_none i c)
    then show ?thesis by (cases c) auto
  qed auto
  then show ?thesis
    by (auto simp: key_of_def intro!: nth_equalityI)
qed

lemma start_keys: "start s s' \<Longrightarrow> \<exists>ks. map t_key (wq_tasks s') = map t_key (wq_tasks s) @ ks"
  by (cases rule: start.cases) auto

lemma queued_start:
  assumes "start s s'" "queued s" "wbq_inv s"
  shows "queued s'"
  using assms(1)
proof cases
  case (begin_write i k)
  have len: "length (wq_tasks s') = Suc (length (wq_tasks s))" "wq_futures s' = wq_futures s"
    "\<And>u. u < length (wq_tasks s) \<Longrightarrow> key_of s' u = key_of s u \<and> state_of s' u = state_of s u" "state_of s' (length (wq_tasks s)) = Gated"
    by (simp_all add: begin_write set_pc_def key_of_def state_of_def nth_append)
  have iq: "in_queue s' t" if "in_queue s t" "t < length (wq_tasks s)" for t
    using that len by (simp add: in_queue_def)
  have "in_queue s' t" if "q \<in> set (wq_threads s')" "inserted q" "owns q = Some t" for q t
  proof -
    have "q \<in> set (wq_threads s)"
      using that set_update_subset_insert [of "wq_threads s" i "LockEnqueue (length (wq_tasks s))"] by (auto simp: begin_write)
    then show ?thesis
      using that(2, 3) assms(2, 3) iq [of t] wbq_invD(3) by (fastforce simp: queued_def in_set_conv_nth)
  qed
  moreover have "in_queue s' t" if "t < Suc (length (wq_tasks s))" "state_of s' t = Running" for t
    using that len(3, 4) iq [of t] assms(2) by (cases "t = length (wq_tasks s)") (auto simp: queued_def)
  ultimately show ?thesis
    by (auto simp: queued_def len(1))
qed (auto intro!: queued_thread [OF assms(2)])

lemma queued_reachable:
  assumes "step\<^sup>*\<^sup>* s s'" "wbq_inv s" "queued s" "distinct (map t_key (wq_tasks s'))"
  shows "queued s'"
  using assms
proof (induction rule: rtranclp_induct)
  case (step u v)
  have "distinct (map t_key (wq_tasks u))"
    using step(2, 6) run_keys [of u v] start_keys [of u v] by (auto simp: step_def)
  moreover have "wbq_inv u"
    using wbq_inv_reachable [OF step(1, 4)] .
  ultimately show ?case
    using step queued_run [of u v] queued_start [of u v] by (auto simp: step_def)
qed

subsection \<open>Completion\<close>

definition quiet :: "'k wbq \<Rightarrow> bool" where
  "quiet s \<longleftrightarrow> (\<forall>p \<in> set (wq_threads s). owns p = None)"

definition at_rest :: "'k wbq \<Rightarrow> bool" where
  "at_rest s \<longleftrightarrow> (\<forall>p \<in> set (wq_threads s). p = Idle \<or> (\<exists>r. p = Finished r))
     \<and> (\<forall>x \<in> set (wq_tasks s). t_state x = Cancelled \<or> (\<exists>r. t_state x = Done r))"

text \<open>How many steps a task and a thread have left; a waiting flush counts the entries of the queue.\<close>

fun task_weight :: "task_state \<Rightarrow> nat" where
  "task_weight Running = 2"
| "task_weight (Written r) = 1"
| "task_weight _ = 0"

fun thread_weight :: "('k \<times> nat) list \<Rightarrow> 'k pc \<Rightarrow> nat" where
  "thread_weight fs LockFlush = 4 * length fs + 5"
| "thread_weight fs CheckFlush = 4 * length fs + 4"
| "thread_weight fs (DrainAny c) = 4 * length fs + 3"
| "thread_weight fs (Await k f ForFlush) = 4 * length fs + (if k \<in> fst ` set fs then 2 else 6)"
| "thread_weight fs (Remove k f ForFlush) = 4 * length fs + (if k \<in> fst ` set fs then 1 else 5)"
| "thread_weight fs (Lookup k c) = 3"
| "thread_weight fs (Await k f c) = 2"
| "thread_weight fs (Remove k f c) = 1"
| "thread_weight fs _ = 0"

definition weight :: "'k wbq \<Rightarrow> nat" where
  "weight s = sum_list (map (task_weight \<circ> t_state) (wq_tasks s)) + sum_list (map (thread_weight (wq_futures s)) (wq_threads s))"

lemma thread_weight_filter: "thread_weight (filter P fs) p \<le> thread_weight fs p"
proof -
  have le: "length (filter P fs) \<le> length fs"
    by simp
  have less: "length (filter P fs) < length fs" if "k \<in> fst ` set fs" "k \<notin> fst ` set (filter P fs)" for k
    using that by (metis filter_True le le_neq_implies_less length_filter_less image_iff)
  show ?thesis
  proof (cases p)
    case (Await k f c)
    then show ?thesis
      using le less [of k] by (cases c; cases "k \<in> fst ` set fs"; cases "k \<in> fst ` set (filter P fs)") (simp_all, (insert le, linarith)?)
  next
    case (Remove k f c)
    then show ?thesis
      using le less [of k] by (cases c; cases "k \<in> fst ` set fs"; cases "k \<in> fst ` set (filter P fs)") (simp_all, (insert le, linarith)?)
  qed (use le in auto)
qed

lemma sum_list_update_less:
  assumes "i < length xs" "\<And>x. w' x \<le> w x" "w' y < (w (xs ! i) :: nat)"
  shows "sum_list (map w' (xs[i := y])) < sum_list (map w xs)"
proof -
  have xs: "xs = take i xs @ xs ! i # drop (Suc i) xs"
    using assms(1) by (rule id_take_nth_drop)
  have "sum_list (map w' (xs[i := y])) = sum_list (map w' (take i xs)) + w' y + sum_list (map w' (drop (Suc i) xs))"
    using assms(1) by (simp add: upd_conv_take_nth_drop)
  also have "\<dots> < sum_list (map w (take i xs)) + w (xs ! i) + sum_list (map w (drop (Suc i) xs))"
    using assms(2, 3) sum_list_mono [of "take i xs" w' w] sum_list_mono [of "drop (Suc i) xs" w' w] by (intro add_less_le_mono add_le_less_mono) auto
  also have "\<dots> = sum_list (map w xs)"
    by (subst (4) xs) simp
  finally show ?thesis .
qed

text \<open>A thread makes a step, and the queue does not grow.\<close>

lemma weight_thread:
  assumes "i < length (wq_threads s)" "wq_threads s' = (wq_threads s)[i := p]" "wq_tasks s' = wq_tasks s" "wq_futures s' = filter P (wq_futures s)"
    "thread_weight (wq_futures s') p < thread_weight (wq_futures s) (wq_threads s ! i)"
  shows "weight s' < weight s"
  using sum_list_update_less [OF assms(1), of "thread_weight (wq_futures s')" "thread_weight (wq_futures s)" p] assms(2-5)
  by (simp add: weight_def thread_weight_filter)

lemma weight_task:
  assumes "t < length (wq_tasks s)" "wq_threads s' = wq_threads s" "wq_tasks s' = (wq_tasks s)[t := x]" "wq_futures s' = filter P (wq_futures s)"
    "task_weight (t_state x) < task_weight (state_of s t)"
  shows "weight s' < weight s"
proof -
  have "sum_list (map (thread_weight (wq_futures s')) (wq_threads s)) \<le> sum_list (map (thread_weight (wq_futures s)) (wq_threads s))"
    by (intro sum_list_mono) (simp add: assms(4) thread_weight_filter)
  then show ?thesis
    using sum_list_update_less [OF assms(1), of "task_weight \<circ> t_state" "task_weight \<circ> t_state" x] assms(2, 3, 5)
    by (simp add: weight_def state_of_def)
qed

lemma weight_run:
  assumes "run s s'" "wbq_inv s" "quiet s"
  shows "weight s' < weight s"
proof -
  note ok = wbq_invD [OF assms(2)]
  have q: "owns (wq_threads s ! i) = None" if "i < length (wq_threads s)" for i
    using assms(3) that by (simp add: quiet_def)
  show ?thesis
    using assms(1)
  proof cases
    case (lookup_none i k c)
    then show ?thesis
      using q [of i] ok(1) [of i] by (cases c) (auto intro!: weight_thread [of i s _ "Finished True" "\<lambda>_. True"])
  next
    case (lookup_some i k c f)
    then show ?thesis
      using q [of i] ok(1) [of i] by (cases c) (auto intro!: weight_thread [of i s _ "Await k f c" "\<lambda>_. True"])
  next
    case (await i k f c r)
    then show ?thesis
      using q [of i] by (cases c) (auto intro!: weight_thread [of i s _ "Remove k f c" "\<lambda>_. True"])
  next
    case (remove i k f c r)
    have less: "length (filter (\<lambda>e. fst e \<noteq> k) (wq_futures s)) < length (wq_futures s)" if k: "k \<in> fst ` set (wq_futures s)"
    proof -
      obtain e where "e \<in> set (wq_futures s)" "\<not> fst e \<noteq> k"
        using k by auto
      then show ?thesis
        by (rule length_filter_less)
    qed
    have le: "length (filter (\<lambda>e. fst e \<noteq> k) (wq_futures s)) \<le> length (wq_futures s)"
      by simp
    show ?thesis
    proof (cases c)
      case ForWait
      then show ?thesis
        using remove by (auto intro!: weight_thread [of i s _ "Finished r" "\<lambda>e. fst e \<noteq> k"] simp: shift_remove_def)
    next
      case ForFlush
      let ?p = "if r then CheckFlush else Finished False" and ?fs = "filter (\<lambda>e. fst e \<noteq> k) (wq_futures s)"
      have s': "wq_threads s' = (wq_threads s)[i := ?p]" "wq_tasks s' = wq_tasks s" "wq_futures s' = ?fs"
        using remove ForFlush by (auto simp: shift_remove_def)
      have "thread_weight ?fs ?p < thread_weight (wq_futures s) (Remove k f ForFlush)"
      proof (cases "k \<in> fst ` set (wq_futures s)")
        case True
        then show ?thesis
          using less by simp
      next
        case False
        have "4 * length ?fs + 4 < 4 * length (wq_futures s) + 5"
          using le by linarith
        then show ?thesis
          using False by simp
      qed
      then show ?thesis
        using weight_thread [OF remove(2) s'] remove(3) ForFlush s'(3) by simp
    qed (use remove q [of i] in auto)
  next
    case (drain_first i c k f rest)
    then show ?thesis
      using q [of i] by (cases c) (auto intro!: weight_thread [of i s _ "Await k f ForFlush" "\<lambda>_. True"])
  next
    case (drain_none i c)
    then show ?thesis
      using q [of i] by (cases c) (auto intro!: weight_thread [of i s _ "Finished True" "\<lambda>_. True"])
  next
    case (lock_flush i)
    then show ?thesis
      by (auto intro!: weight_thread [of i s _ CheckFlush "\<lambda>_. True"])
  next
    case (flush_more i)
    then show ?thesis
      by (auto intro!: weight_thread [of i s _ "DrainAny None" "\<lambda>_. True"])
  next
    case (flush_done i)
    then show ?thesis
      by (auto intro!: weight_thread [of i s _ "Finished True" "\<lambda>_. True"])
  next
    case (task_write t r)
    then show ?thesis
      by (auto intro!: weight_task [of t s _ "(wq_tasks s ! t)\<lparr>t_state := Written r\<rparr>" "\<lambda>_. True"] simp: set_task_def)
  next
    case (mark_completed t r)
    then show ?thesis
      by (auto intro!: weight_task [of t s _ "(wq_tasks s ! t)\<lparr>t_state := Done r\<rparr>" "\<lambda>e. fst e \<noteq> key_of s t"] simp: set_task_def shift_remove_def)
  qed (use q in \<open>force\<close>)+
qed

lemma quiet_run:
  assumes "run s s'" "quiet s"
  shows "quiet s'"
proof -
  have q: "owns (wq_threads s ! i) = None" if "i < length (wq_threads s)" for i
    using assms(2) that by (simp add: quiet_def)
  have upd: "quiet s''" if "wq_threads s'' = (wq_threads s)[i := p]" "owns p = None" for s'' :: "'a wbq" and i p
    using assms(2) that set_update_subset_insert [of "wq_threads s" i p] by (auto simp: quiet_def)
  show ?thesis
    using assms(1)
  proof cases
    case (lookup_none i k c)
    then show ?thesis
      using q [of i] by (cases c) (auto intro: upd)
  next
    case (remove i k f c r)
    then show ?thesis
      using q [of i] by (cases c; cases r) (auto intro: upd)
  next
    case (drain_first i c k f rest)
    then show ?thesis
      using q [of i] by (cases c) (auto intro: upd)
  next
    case (drain_none i c)
    then show ?thesis
      using q [of i] by (cases c) (auto intro: upd)
  next
    case (task_write t r)
    then show ?thesis
      using assms(2) by (simp add: quiet_def)
  next
    case (mark_completed t r)
    then show ?thesis
      using assms(2) by (simp add: quiet_def)
  next
    case (lookup_some i k c f)
    then show ?thesis
      using q [of i] by (auto intro: upd)
  next
    case (await i k f c r)
    then show ?thesis
      using q [of i] by (auto intro: upd)
  qed (auto intro: upd dest: q)
qed

text \<open>No operation is stuck: unless everything is at rest, some step is possible.\<close>

lemma task_progress:
  assumes "wbq_inv s" "quiet s" "\<nexists>s'. run s s'" "t < length (wq_tasks s)"
  shows "state_of s t = Cancelled \<or> (\<exists>r. state_of s t = Done r)"
proof (cases "state_of s t")
  case Gated
  then have "Some t \<in> set (owners s)"
    using assms(1, 4) by (auto simp: wbq_inv_def owner_inv_def)
  then show ?thesis
    using assms(2) by (auto simp: owners_def quiet_def)
next
  case Running
  then show ?thesis
    using assms(3) task_write [OF assms(4)] by blast
next
  case (Written r)
  then show ?thesis
    using assms(3) mark_completed [OF assms(4)] by blast
qed auto

lemma thread_progress:
  assumes "wbq_inv s" "quiet s" "\<nexists>s'. run s s'" "i < length (wq_threads s)"
  shows "wq_threads s ! i = Idle \<or> wq_threads s ! i = LockFlush \<or> (\<exists>r. wq_threads s ! i = Finished r)"
proof -
  have own: "owns (wq_threads s ! i) = None"
    using assms(2, 4) by (simp add: quiet_def)
  have ok: "pc_ok s (wq_threads s ! i)"
    by (rule wbq_invD(1) [OF assms(1, 4)])
  show ?thesis
  proof (cases "wq_threads s ! i")
    case (Lookup k c)
    then show ?thesis
      using assms(3) lookup_none [OF assms(4) Lookup] lookup_some [OF assms(4) Lookup] by (metis option.exhaust)
  next
    case (Await k f c)
    then obtain r where "state_of s f = Done r"
      using ok task_progress [OF assms(1-3), of f] by auto
    then show ?thesis
      using assms(3) await [OF assms(4) Await] by blast
  next
    case (Remove k f c)
    then show ?thesis
      using ok assms(3) remove [OF assms(4) Remove] by auto
  next
    case (DrainAny c)
    then show ?thesis
      using assms(3) drain_first [OF assms(4) DrainAny] drain_none [OF assms(4) DrainAny] by (metis list.exhaust surj_pair)
  next
    case CheckFlush
    then show ?thesis
      using assms(3) flush_more [OF assms(4) CheckFlush] flush_done [OF assms(4) CheckFlush] by blast
  qed (use own ok in auto)
qed

lemma progress:
  assumes "wbq_inv s" "quiet s" "\<nexists>s'. run s s'"
  shows "at_rest s"
proof -
  have "wq_threads s ! i \<noteq> LockFlush" if i: "i < length (wq_threads s)" for i
  proof
    assume wait: "wq_threads s ! i = LockFlush"
    then obtain j where "wq_lock s = Some j"
      using assms(3) lock_flush [OF i wait] by (metis option.exhaust)
    then have j: "j < length (wq_threads s)" "holds_lock (wq_threads s ! j)"
      using assms(1) by (auto simp: wbq_inv_def lock_inv_def)
    then show False
      using thread_progress [OF assms j(1)] by auto
  qed
  then have "p = Idle \<or> (\<exists>r. p = Finished r)" if "p \<in> set (wq_threads s)" for p
    using that thread_progress [OF assms] by (metis in_set_conv_nth)
  moreover have "t_state x = Cancelled \<or> (\<exists>r. t_state x = Done r)" if "x \<in> set (wq_tasks s)" for x
    using that task_progress [OF assms] by (auto simp: in_set_conv_nth state_of_def)
  ultimately show ?thesis
    by (simp add: at_rest_def)
qed

lemma run_bounded:
  assumes "(run ^^ m) s s'" "wbq_inv s" "quiet s"
  shows "m + weight s' \<le> weight s \<and> wbq_inv s' \<and> quiet s'"
  using assms
proof (induction m arbitrary: s')
  case (Suc m)
  then obtain u where "(run ^^ m) s u" "run u s'"
    by auto
  then show ?case
    using Suc weight_run [of u s'] quiet_run [of u s'] wbq_inv_step [of u s'] by (fastforce simp: step_def)
qed simp

subsection \<open>Whole operations without interference\<close>

lemma steps: "step a b \<Longrightarrow> step b c \<Longrightarrow> step\<^sup>*\<^sup>* a c" "step a b \<Longrightarrow> step b c \<Longrightarrow> step c d \<Longrightarrow> step\<^sup>*\<^sup>* a d"
  "step a b \<Longrightarrow> step b c \<Longrightarrow> step c d \<Longrightarrow> step d e \<Longrightarrow> step\<^sup>*\<^sup>* a e"
  by (meson rtranclp.rtrancl_refl rtranclp.rtrancl_into_rtrancl)+

abbreviation wst :: "('k \<times> nat) list \<Rightarrow> nat \<Rightarrow> 'k task list \<Rightarrow> nat option \<Rightarrow> 'k pc list \<Rightarrow> 'k wbq" where
  "wst fs limit ts l th \<equiv> \<lparr>wq_futures = fs, wq_limit = limit, wq_tasks = ts, wq_lock = l, wq_threads = th\<rparr>"

lemmas step_simps = step_def set_pc_def set_task_def key_of_def state_of_def

text \<open>The beginning of \<^verbatim>\<open>begin_write\<close>, up to the check of the limit.\<close>

lemma begin_write_inserts:
  assumes "i < length th" "th ! i = Idle" "map_of fs k = None"
  shows "step\<^sup>*\<^sup>* (wst fs limit ts None th)
    (wst (fs @ [(k, length ts)]) limit (ts @ [\<lparr>t_key = k, t_state = Gated\<rparr>]) None (th[i := CheckLimit (length ts)]))"
proof -
  let ?t = "length ts" and ?ts = "ts @ [\<lparr>t_key = k, t_state = Gated\<rparr>]"
  have "step (wst fs limit ts None th) (wst fs limit ?ts None (th[i := LockEnqueue ?t]))"
    using begin_write [of i "wst fs limit ts None th" k] assms by (simp add: step_simps)
  moreover have "step (wst fs limit ?ts None (th[i := LockEnqueue ?t])) (wst fs limit ?ts (Some i) (th[i := Lookup k (ForEnqueue ?t)]))"
    using lock_enqueue [of i "wst fs limit ?ts None (th[i := LockEnqueue ?t])" ?t] assms by (simp add: step_simps)
  moreover have "step (wst fs limit ?ts (Some i) (th[i := Lookup k (ForEnqueue ?t)])) (wst fs limit ?ts (Some i) (th[i := Insert ?t]))"
    using lookup_none [of i "wst fs limit ?ts (Some i) (th[i := Lookup k (ForEnqueue ?t)])" k "ForEnqueue ?t"] assms by (simp add: step_simps)
  moreover have "step (wst fs limit ?ts (Some i) (th[i := Insert ?t])) (wst (fs @ [(k, ?t)]) limit ?ts None (th[i := CheckLimit ?t]))"
    using insert [of i "wst fs limit ?ts (Some i) (th[i := Insert ?t])" ?t] assms by (simp add: step_simps)
  ultimately show ?thesis
    by (rule steps(3))
qed

lemma begin_write_returns:
  assumes "i < length th" "th ! i = Idle" "map_of fs k = None" "length fs < limit"
  shows "step\<^sup>*\<^sup>* (wst fs limit ts None th)
    (wst (fs @ [(k, length ts)]) limit (ts @ [\<lparr>t_key = k, t_state = Running\<rparr>]) None (th[i := Finished True]))"
proof -
  let ?t = "length ts" and ?fs = "fs @ [(k, length ts)]" and ?ts = "ts @ [\<lparr>t_key = k, t_state = Gated\<rparr>]"
  have "step (wst ?fs limit ?ts None (th[i := CheckLimit ?t])) (wst ?fs limit ?ts None (th[i := OpenGate ?t True]))"
    using within_limit [of i "wst ?fs limit ?ts None (th[i := CheckLimit ?t])" ?t] assms by (simp add: step_simps)
  moreover have "step (wst ?fs limit ?ts None (th[i := OpenGate ?t True]))
      (wst ?fs limit (ts @ [\<lparr>t_key = k, t_state = Running\<rparr>]) None (th[i := Finished True]))"
    using open_gate [of i "wst ?fs limit ?ts None (th[i := OpenGate ?t True])" ?t True] assms by (simp add: step_simps)
  ultimately show ?thesis
    using begin_write_inserts [OF assms(1-3), of limit ts] by (meson rtranclp.rtrancl_into_rtrancl)
qed

lemma task_completes:
  assumes "t < length ts" "ts ! t = \<lparr>t_key = k, t_state = Running\<rparr>"
  shows "step\<^sup>*\<^sup>* (wst fs limit ts l th) (wst (shift_remove k fs) limit (ts[t := \<lparr>t_key = k, t_state = Done r\<rparr>]) l th)"
proof -
  have "step (wst fs limit ts l th) (wst fs limit (ts[t := \<lparr>t_key = k, t_state = Written r\<rparr>]) l th)"
    using task_write [of t "wst fs limit ts l th" r] assms by (simp add: step_simps)
  moreover have "step (wst fs limit (ts[t := \<lparr>t_key = k, t_state = Written r\<rparr>]) l th)
      (wst (shift_remove k fs) limit (ts[t := \<lparr>t_key = k, t_state = Done r\<rparr>]) l th)"
    using mark_completed [of t "wst fs limit (ts[t := \<lparr>t_key = k, t_state = Written r\<rparr>]) l th" r] assms by (simp add: step_simps)
  ultimately show ?thesis
    by (rule steps(1))
qed

lemma flush_returns:
  assumes "i < length th" "th ! i = Idle"
  shows "step\<^sup>*\<^sup>* (wst [] limit ts None th) (wst [] limit ts None (th[i := Finished True]))"
proof -
  have "step (wst [] limit ts None th) (wst [] limit ts None (th[i := LockFlush]))"
    using begin_flush [of i "wst [] limit ts None th"] assms by (simp add: step_simps)
  moreover have "step (wst [] limit ts None (th[i := LockFlush])) (wst [] limit ts (Some i) (th[i := CheckFlush]))"
    using lock_flush [of i "wst [] limit ts None (th[i := LockFlush])"] assms by (simp add: step_simps)
  moreover have "step (wst [] limit ts (Some i) (th[i := CheckFlush])) (wst [] limit ts None (th[i := Finished True]))"
    using flush_done [of i "wst [] limit ts (Some i) (th[i := CheckFlush])"] assms by (simp add: step_simps)
  ultimately show ?thesis
    by (rule steps(2))
qed

subsection \<open>Claims\<close>

lemma queued_new: "queued (wbq_new limit n)"
  by (auto simp: queued_def wbq_new_def)

text \<open>C10. No write is overtaken. As long as every offset is written at most once, in every interleaving of
  writes, reads and flushes: the assertion of \<^verbatim>\<open>enqueue\<close> that its key is not in the queue holds, and
  a write whose \<^verbatim>\<open>begin_write\<close> has returned but that has not reached the device is in the queue, so that
  neither a read of its offset finds nothing to wait for, nor a flush finds the queue empty.\<close>

theorem wbq_write_not_overtaken:
  assumes "reachable limit n s" "distinct (map t_key (wq_tasks s))"
  shows "Panicked \<notin> set (wq_threads s)
    \<and> (\<forall>t < length (wq_tasks s). state_of s t = Running \<longrightarrow> wq_futures s \<noteq> [] \<and> map_of (wq_futures s) (key_of s t) = Some t)"
proof -
  have inv: "wbq_inv s"
    by (rule wbq_inv_reachable [OF assms(1) wbq_inv_new])
  have "queued s"
    by (rule queued_reachable [OF assms(1) wbq_inv_new queued_new assms(2)])
  moreover have "distinct (map fst (wq_futures s))" "\<And>p. p \<in> set (wq_threads s) \<Longrightarrow> pc_ok s p"
    using inv by (simp_all add: wbq_inv_def futures_inv_def)
  ultimately show ?thesis
    by (auto simp: queued_def in_queue_def dest: pc_ok.simps(5) [THEN iffD1])
qed

theorem wbq_write_not_overtaken_witness:
  "\<exists>s :: nat wbq. reachable 1 1 s \<and> wq_tasks s = [\<lparr>t_key = 7, t_state = Running\<rparr>] \<and> map_of (wq_futures s) 7 = Some 0"
proof -
  let ?s = "wst [(7, 0)] 1 [\<lparr>t_key = 7, t_state = Running\<rparr>] None [Finished True] :: nat wbq"
  have "reachable 1 1 ?s"
    using begin_write_returns [of 0 "[Idle]" "[]" "7 :: nat" 1 "[]"] by (simp add: wbq_new_def)
  then show ?thesis
    using wbq_write_not_overtaken [of 1 1 ?s] by (intro exI [of _ ?s]) (simp add: state_of_def key_of_def)
qed



text \<open>A thread that waits for the write whose gate it has to open waits forever.\<close>

definition self_wait :: "'k wbq \<Rightarrow> nat \<Rightarrow> 'k \<Rightarrow> nat \<Rightarrow> bool" where
  "self_wait s i k t \<longleftrightarrow> wbq_inv s \<and> i < length (wq_threads s) \<and> wq_threads s ! i = Await k t (ForLimit t)"

lemma self_wait_gated: "self_wait s i k t \<Longrightarrow> state_of s t = Gated"
  using wbq_invD(3) [of s i t] by (simp add: self_wait_def)

lemma self_wait_step:
  assumes "step s s'" "self_wait s i k t"
  shows "self_wait s' i k t"
proof -
  have th: "i < length (wq_threads s)" "wq_threads s ! i = Await k t (ForLimit t)"
    using assms(2) by (simp_all add: self_wait_def)
  have "i < length (wq_threads s') \<and> wq_threads s' ! i = Await k t (ForLimit t)"
    using assms(1) unfolding step_def
  proof
    assume "start s s'"
    then show ?thesis
      using th by cases (auto simp: nth_list_update)
  next
    assume "run s s'"
    then show ?thesis
    proof cases
      case (lookup_none j k' c)
      then show ?thesis
        using th by (cases c) (auto simp: nth_list_update)
    next
      case (remove j k' f c r)
      then show ?thesis
        using th by (cases c) (auto simp: nth_list_update)
    next
      case (drain_none j c)
      then show ?thesis
        using th by (cases c) (auto simp: nth_list_update)
    next
      case (await j k' f c r)
      then show ?thesis
        using th self_wait_gated [OF assms(2)] by (cases "j = i") (auto simp: nth_list_update)
    qed (use th in \<open>auto simp: nth_list_update\<close>)
  qed
  then show ?thesis
    using assms wbq_inv_step by (auto simp: self_wait_def)
qed

text \<open>C35. A write can wait for itself. With room for one write in the queue, a second \<^verbatim>\<open>begin_write\<close> finds the
  queue above its limit; if the first write completes before \<^verbatim>\<open>drain_any_future\<close> picks the oldest entry, that
  entry is the second write itself, which starts only after \<^verbatim>\<open>enqueue\<close> returns. The thread then
  stays there in every continuation. No other thread or error is involved.\<close>

theorem wbq_self_deadlock:
  "\<exists>s :: nat wbq. reachable 1 2 s \<and> wq_threads s ! 0 = Finished True
    \<and> (\<forall>s'. step\<^sup>*\<^sup>* s s' \<longrightarrow> wq_threads s' ! 1 = Await 8 1 (ForLimit 1) \<and> state_of s' 1 = Gated)"
proof -
  let ?a = "\<lambda>st. \<lparr>t_key = 7 :: nat, t_state = st\<rparr>" and ?b = "\<lparr>t_key = 8 :: nat, t_state = Gated\<rparr>"
  let ?s1 = "wst [(7, 0)] 1 [?a Running] None [Finished True, Idle]"
  let ?s2 = "wst [(7, 0), (8, 1)] 1 [?a Running, ?b] None [Finished True, CheckLimit 1]"
  let ?s3 = "wst [(7, 0), (8, 1)] 1 [?a Running, ?b] None [Finished True, DrainAny (Some 1)]"
  let ?s4 = "wst [(8, 1)] 1 [?a (Done True), ?b] None [Finished True, DrainAny (Some 1)]"
  let ?s5 = "wst [(8, 1)] 1 [?a (Done True), ?b] None [Finished True, Await 8 1 (ForLimit 1)]"
  have "reachable 1 2 ?s1"
    using begin_write_returns [of 0 "[Idle, Idle]" "[]" "7 :: nat" 1 "[]"] by (simp add: wbq_new_def numeral_2_eq_2)
  moreover have "step\<^sup>*\<^sup>* ?s1 ?s2"
    using begin_write_inserts [of 1 "[Finished True, Idle]" "[(7, 0)]" "8 :: nat" 1 "[?a Running]"] by simp
  moreover have "step\<^sup>*\<^sup>* ?s2 ?s3"
    using above_limit [of 1 ?s2 1] by (simp add: step_simps r_into_rtranclp)
  moreover have "step\<^sup>*\<^sup>* ?s3 ?s4"
    using task_completes [of 0 "[?a Running, ?b]" 7 "[(7, 0), (8, 1)]" 1 None "[Finished True, DrainAny (Some 1)]" True]
    by (simp add: shift_remove_def)
  moreover have "step\<^sup>*\<^sup>* ?s4 ?s5"
    using drain_first [of 1 ?s4 "Some 1" 8 1 "[]"] by (simp add: step_simps r_into_rtranclp)
  ultimately have s5: "reachable 1 2 ?s5"
    by (meson rtranclp_trans)
  have "self_wait ?s5 1 8 1"
    using wbq_inv_reachable [OF s5 wbq_inv_new] by (simp add: self_wait_def)
  have "self_wait s' 1 8 1" if "step\<^sup>*\<^sup>* ?s5 s'" for s'
    using that \<open>self_wait ?s5 1 8 1\<close> by (induction rule: rtranclp_induct) (auto intro: self_wait_step)
  then have "wq_threads s' ! 1 = Await 8 1 (ForLimit 1) \<and> state_of s' 1 = Gated" if "step\<^sup>*\<^sup>* ?s5 s'" for s'
    using that self_wait_gated [of s' 1 8 1] unfolding self_wait_def by blast
  then show ?thesis
    using s5 by (intro exI [of _ ?s5]) simp
qed

theorem wbq_self_deadlock_witness: "\<exists>s :: nat wbq. reachable 1 2 s \<and> wq_threads s ! 1 = Await 8 1 (ForLimit 1) \<and> state_of s 1 = Gated"
  using wbq_self_deadlock by blast


text \<open>When an offset is written again, the guarantee fails: a reader that waited for the first write removes
  the second one from the queue, and a flush returns while that write is still running.\<close>

theorem wbq_reuse_overtaken:
  "\<exists>s :: nat wbq. reachable 1 4 s \<and> state_of s 1 = Running \<and> wq_threads s ! 3 = Finished True"
proof -
  let ?a = "\<lambda>st. \<lparr>t_key = 7 :: nat, t_state = st\<rparr>" and ?F = "Finished True"
  let ?s1 = "wst [(7, 0)] 1 [?a Running] None [?F, Idle, Idle, Idle]"
  let ?s2 = "wst [(7, 0)] 1 [?a Running] None [?F, Lookup 7 ForWait, Idle, Idle]"
  let ?s3 = "wst [(7, 0)] 1 [?a Running] None [?F, Await 7 0 ForWait, Idle, Idle]"
  let ?s4 = "wst [] 1 [?a (Done True)] None [?F, Await 7 0 ForWait, Idle, Idle]"
  let ?s5 = "wst [] 1 [?a (Done True)] None [?F, Remove 7 0 ForWait, Idle, Idle]"
  let ?s6 = "wst [(7, 1)] 1 [?a (Done True), ?a Running] None [?F, Remove 7 0 ForWait, ?F, Idle]"
  let ?s7 = "wst [] 1 [?a (Done True), ?a Running] None [?F, ?F, ?F, Idle]"
  let ?s8 = "wst [] 1 [?a (Done True), ?a Running] None [?F, ?F, ?F, ?F]"
  have "reachable 1 4 ?s1"
    using begin_write_returns [of 0 "[Idle, Idle, Idle, Idle]" "[]" "7 :: nat" 1 "[]"] by (simp add: wbq_new_def eval_nat_numeral)
  moreover have "step\<^sup>*\<^sup>* ?s1 ?s3"
  proof (rule steps(1))
    show "step ?s1 ?s2"
      using begin_read [of 1 ?s1 7] by (simp add: step_simps)
    show "step ?s2 ?s3"
      using lookup_some [of 1 ?s2 7 ForWait 0] by (simp add: step_simps)
  qed
  moreover have "step\<^sup>*\<^sup>* ?s3 ?s4"
    using task_completes [of 0 "[?a Running]" 7 "[(7, 0)]" 1 None "[?F, Await 7 0 ForWait, Idle, Idle]" True] by (simp add: shift_remove_def)
  moreover have "step\<^sup>*\<^sup>* ?s4 ?s5"
    using await [of 1 ?s4 7 0 ForWait True] by (simp add: step_simps r_into_rtranclp)
  moreover have "step\<^sup>*\<^sup>* ?s5 ?s6"
    using begin_write_returns [of 2 "[?F, Remove 7 0 ForWait, Idle, Idle]" "[]" "7 :: nat" 1 "[?a (Done True)]"] by simp
  moreover have "step\<^sup>*\<^sup>* ?s6 ?s7"
    using remove [of 1 ?s6 7 0 ForWait True] by (simp add: step_simps r_into_rtranclp shift_remove_def)
  moreover have "step\<^sup>*\<^sup>* ?s7 ?s8"
    using flush_returns [of 3 "[?F, ?F, ?F, Idle]" 1 "[?a (Done True), ?a Running]"] by simp
  ultimately have "reachable 1 4 ?s8"
    by (meson rtranclp_trans)
  then show ?thesis
    by (intro exI [of _ ?s8]) (simp add: state_of_def)
qed

end
