(* ===== verification/Configuration.thy ===== *)
theory Configuration
  imports Node
begin

text \<open>
  \<^verbatim>\<open>betree/src/storage_pool/configuration.rs\<close>: the description of the devices of a storage tier and its
  textual form, a sequence of words in which \<^verbatim>\<open>mirror\<close> and \<^verbatim>\<open>parity1\<close> group the paths behind them.
  Paths are strings of valid UTF-8, which are displayed as they are. A result of \<open>None\<close> is the
  error \<^verbatim>\<open>InvalidKeyword\<close>.
\<close>

subsection \<open>Access types\<close>

datatype preferred_access_type = Unknown | RandomRead | RandomWrite | RandomReadWrite
  | SequentialWrite | SequentialRead | SequentialReadWrite

fun pat_as_u8 :: "preferred_access_type \<Rightarrow> byte" where
  "pat_as_u8 Unknown = 0"
| "pat_as_u8 RandomRead = 1"
| "pat_as_u8 RandomWrite = 2"
| "pat_as_u8 RandomReadWrite = 3"
| "pat_as_u8 SequentialWrite = 4"
| "pat_as_u8 SequentialRead = 5"
| "pat_as_u8 SequentialReadWrite = 6"

definition pat_try_from :: "byte \<Rightarrow> preferred_access_type option" where
  "pat_try_from v =
     (if v = pat_as_u8 Unknown then Some Unknown
      else if v = pat_as_u8 RandomRead then Some RandomRead
      else if v = pat_as_u8 RandomWrite then Some RandomWrite
      else if v = pat_as_u8 RandomReadWrite then Some RandomReadWrite
      else if v = pat_as_u8 SequentialRead then Some SequentialRead
      else if v = pat_as_u8 SequentialWrite then Some SequentialWrite
      else if v = pat_as_u8 SequentialReadWrite then Some SequentialReadWrite
      else None)"

lemma pat_try_from_as_u8 [simp]: "pat_try_from (pat_as_u8 t) = Some t"
  by (cases t) (simp_all add: pat_try_from_def)

subsection \<open>Devices\<close>

datatype leaf_vdev = LeafFile string | FileWithOpts string "bool option" | LeafMemory nat

datatype vdev_cfg = VLeaf leaf_vdev | VMirror "leaf_vdev list" | VParity1 "leaf_vdev list"

record tier_configuration =
  top_level_vdevs :: "vdev_cfg list"
  tc_preferred_access_type :: preferred_access_type
  tc_storage_kind :: storage_kind

definition tier_configuration_new :: "vdev_cfg list \<Rightarrow> tier_configuration" where
  "tier_configuration_new vs = \<lparr>top_level_vdevs = vs, tc_preferred_access_type = Unknown, tc_storage_kind = Hdd\<rparr>"

definition leaf_vdev_from :: "string \<Rightarrow> leaf_vdev" where
  "leaf_vdev_from s = LeafFile s"

definition is_path :: "string \<Rightarrow> bool" where
  "is_path s = (case s of [] \<Rightarrow> False | c # _ \<Rightarrow> c = CHR ''.'' \<or> c = CHR ''/'')"

subsection \<open>The textual form\<close>

definition keyword :: "string \<Rightarrow> (leaf_vdev list \<Rightarrow> vdev_cfg) option" where
  "keyword s = (if s = ''mirror'' then Some VMirror
     else if s = ''parity'' \<or> s = ''parity1'' then Some VParity1 else None)"

function parse_vdevs :: "string list \<Rightarrow> vdev_cfg list option" where
  "parse_vdevs [] = Some []"
| "parse_vdevs (s # ss) =
     (if is_path s then map_option ((#) (VLeaf (leaf_vdev_from s))) (parse_vdevs ss)
      else case keyword s of
        None \<Rightarrow> None
      | Some f \<Rightarrow> map_option ((#) (f (map leaf_vdev_from (takeWhile is_path ss)))) (parse_vdevs (dropWhile is_path ss)))"
  by pat_completeness auto
termination
  by (relation "measure length") (auto simp: length_dropWhile_le less_Suc_eq_le)

definition parse_zfs_like :: "string list \<Rightarrow> tier_configuration option" where
  "parse_zfs_like ss = map_option tier_configuration_new (parse_vdevs ss)"

text \<open>Decimal numbers and the debug form of an option.\<close>

fun show_nat :: "nat \<Rightarrow> string" where
  "show_nat n = (if n < 10 then [char_of (48 + n)] else show_nat (n div 10) @ [char_of (48 + n mod 10)])"

fun show_direct :: "bool option \<Rightarrow> string" where
  "show_direct None = ''None''"
| "show_direct (Some True) = ''Some(true)''"
| "show_direct (Some False) = ''Some(false)''"

fun zfs_leaf :: "leaf_vdev \<Rightarrow> string" where
  "zfs_leaf (LeafFile path) = path @ '' ''"
| "zfs_leaf (FileWithOpts path direct) = path @ '' (direct: '' @ show_direct direct @ '') ''"
| "zfs_leaf (LeafMemory mem) = ''memory('' @ show_nat mem @ '') ''"

fun zfs_vdev :: "vdev_cfg \<Rightarrow> string" where
  "zfs_vdev (VLeaf leaf) = zfs_leaf leaf"
| "zfs_vdev (VMirror leaves) = ''mirror '' @ concat (map zfs_leaf leaves)"
| "zfs_vdev (VParity1 leaves) = ''parity1 '' @ concat (map zfs_leaf leaves)"

definition zfs_like :: "tier_configuration \<Rightarrow> string" where
  "zfs_like tc = butlast (concat (map zfs_vdev (top_level_vdevs tc)))"

fun leaf_display :: "nat \<Rightarrow> leaf_vdev \<Rightarrow> string" where
  "leaf_display indent (LeafFile path) = replicate indent CHR '' '' @ path @ [CHR 10]"
| "leaf_display indent (FileWithOpts path direct) =
     replicate indent CHR '' '' @ path @ '' (direct: '' @ show_direct direct @ '')'' @ [CHR 10]"
| "leaf_display indent (LeafMemory mem) = replicate indent CHR '' '' @ ''memory('' @ show_nat mem @ '')'' @ [CHR 10]"

fun vdev_display :: "nat \<Rightarrow> vdev_cfg \<Rightarrow> string" where
  "vdev_display indent (VLeaf leaf) = leaf_display indent leaf"
| "vdev_display indent (VMirror mirror) =
     replicate indent CHR '' '' @ ''mirror'' @ [CHR 10] @ concat (map (leaf_display (indent + 4)) mirror)"
| "vdev_display indent (VParity1 parity1) =
     replicate indent CHR '' '' @ ''parity1'' @ [CHR 10] @ concat (map (leaf_display (indent + 4)) parity1)"

definition tier_display :: "tier_configuration \<Rightarrow> string" where
  "tier_display tc = concat (map (vdev_display 0) (top_level_vdevs tc))"

subsection \<open>Parsing\<close>

lemma keyword_not_path: "keyword s = Some f \<Longrightarrow> \<not> is_path s"
  by (auto simp: keyword_def is_path_def split: if_splits)

lemma parse_vdevs_Some_iff: "parse_vdevs ss \<noteq> None \<longleftrightarrow> (\<forall>s \<in> set ss. is_path s \<or> keyword s \<noteq> None)"
proof (induction ss rule: parse_vdevs.induct)
  case (2 s ss)
  show ?case
  proof (cases "is_path s")
    case True
    then show ?thesis using 2 by auto
  next
    case False
    have "(\<forall>t \<in> set ss. is_path t \<or> keyword t \<noteq> None) \<longleftrightarrow> (\<forall>t \<in> set (dropWhile is_path ss). is_path t \<or> keyword t \<noteq> None)"
      using set_takeWhileD [of _ is_path ss] takeWhile_dropWhile_id [of is_path ss] by (metis Un_iff set_append)
    then show ?thesis using False 2 by (auto split: option.splits)
  qed
qed simp

text \<open>
  The words of a configuration. A group ends at the next keyword, so a single device can not be
  told from a member of a group right before it; \<open>separated\<close> excludes that.
\<close>

fun leaf_path :: "leaf_vdev \<Rightarrow> string" where
  "leaf_path (LeafFile p) = p"
| "leaf_path (FileWithOpts p _) = p"
| "leaf_path (LeafMemory _) = ''''"

fun vdev_words :: "vdev_cfg \<Rightarrow> string list" where
  "vdev_words (VLeaf l) = [leaf_path l]"
| "vdev_words (VMirror ls) = ''mirror'' # map leaf_path ls"
| "vdev_words (VParity1 ls) = ''parity1'' # map leaf_path ls"

fun plain_leaf :: "leaf_vdev \<Rightarrow> bool" where
  "plain_leaf (LeafFile p) \<longleftrightarrow> is_path p \<and> CHR '' '' \<notin> set p"
| "plain_leaf _ \<longleftrightarrow> False"

fun plain_vdev :: "vdev_cfg \<Rightarrow> bool" where
  "plain_vdev (VLeaf l) \<longleftrightarrow> plain_leaf l"
| "plain_vdev (VMirror ls) \<longleftrightarrow> list_all plain_leaf ls"
| "plain_vdev (VParity1 ls) \<longleftrightarrow> list_all plain_leaf ls"

fun is_single :: "vdev_cfg \<Rightarrow> bool" where
  "is_single (VLeaf _) \<longleftrightarrow> True"
| "is_single _ \<longleftrightarrow> False"

fun separated :: "vdev_cfg list \<Rightarrow> bool" where
  "separated (v # w # vs) \<longleftrightarrow> (is_single v \<or> \<not> is_single w) \<and> separated (w # vs)"
| "separated _ \<longleftrightarrow> True"

lemma plain_leaf_cases: "plain_leaf l \<longleftrightarrow> (\<exists>p. l = LeafFile p \<and> is_path p \<and> CHR '' '' \<notin> set p)"
  by (cases l) auto

lemma plain_paths: "list_all plain_leaf ls \<Longrightarrow> list_all is_path (map leaf_path ls) \<and> map leaf_vdev_from (map leaf_path ls) = ls"
  by (induction ls) (auto simp: plain_leaf_cases leaf_vdev_from_def)

lemma no_path_first: "separated (v # vs) \<Longrightarrow> \<not> is_single v \<Longrightarrow> case concat (map vdev_words vs) of [] \<Rightarrow> True | w # _ \<Rightarrow> \<not> is_path w"
  by (cases vs; cases "hd vs") (auto simp: is_path_def)

lemma take_paths:
  assumes "list_all is_path xs" "case ys of [] \<Rightarrow> True | y # _ \<Rightarrow> \<not> is_path y"
  shows "takeWhile is_path (xs @ ys) = xs" "dropWhile is_path (xs @ ys) = ys"
  using assms by (induction xs) (auto split: list.splits)

lemma parse_words: "list_all plain_vdev vs \<Longrightarrow> separated vs \<Longrightarrow> parse_vdevs (concat (map vdev_words vs)) = Some vs"
proof (induction vs)
  case (Cons v vs)
  have sep: "separated vs" using Cons.prems(2) by (cases vs) auto
  show ?case
  proof (cases v)
    case (VLeaf l)
    then show ?thesis using Cons sep by (auto simp: plain_leaf_cases leaf_vdev_from_def)
  next
    case (VMirror ls)
    note tp = take_paths [OF conjunct1 [OF plain_paths] no_path_first [OF Cons.prems(2)]]
    show ?thesis using Cons sep VMirror plain_paths [of ls] tp by (simp add: keyword_def is_path_def del: map_map)
  next
    case (VParity1 ls)
    note tp = take_paths [OF conjunct1 [OF plain_paths] no_path_first [OF Cons.prems(2)]]
    show ?thesis using Cons sep VParity1 plain_paths [of ls] tp by (simp add: keyword_def is_path_def del: map_map)
  qed
qed simp

subsection \<open>Printing\<close>

text \<open>The words between single spaces.\<close>

function split_words :: "string \<Rightarrow> string list" where
  "split_words [] = []"
| "split_words (c # cs) = (if c = CHR '' '' then split_words cs
     else (c # takeWhile (\<lambda>x. x \<noteq> CHR '' '') cs) # split_words (dropWhile (\<lambda>x. x \<noteq> CHR '' '') cs))"
  by pat_completeness auto
termination
  by (relation "measure length") (auto simp: length_dropWhile_le less_Suc_eq_le)

lemma split_word: "w \<noteq> [] \<Longrightarrow> CHR '' '' \<notin> set w \<Longrightarrow> split_words (w @ CHR '' '' # s) = w # split_words s"
  by (cases w) (auto simp: takeWhile_tail dropWhile_append3 takeWhile_append dropWhile_append)

lemma split_last: "w \<noteq> [] \<Longrightarrow> CHR '' '' \<notin> set w \<Longrightarrow> split_words w = [w]"
proof (cases w)
  case (Cons a list)
  assume "CHR '' '' \<notin> set w"
  then have "\<forall>x \<in> set list. x \<noteq> CHR '' ''" using Cons by auto
  then have "takeWhile (\<lambda>x. x \<noteq> CHR '' '') list = list" "dropWhile (\<lambda>x. x \<noteq> CHR '' '') list = []" by auto
  then show ?thesis using Cons \<open>CHR '' '' \<notin> set w\<close> by (auto simp del: dropWhile_eq_Nil_conv takeWhile_eq_all_conv)
qed simp

definition good_word :: "string \<Rightarrow> bool" where
  "good_word w \<longleftrightarrow> w \<noteq> [] \<and> CHR '' '' \<notin> set w"

lemma split_joined: "list_all good_word ws \<Longrightarrow> split_words (butlast (concat (map (\<lambda>w. w @ '' '') ws))) = ws"
proof (induction ws)
  case (Cons w ws)
  have w: "w \<noteq> []" "CHR '' '' \<notin> set w" using Cons.prems by (auto simp: good_word_def)
  show ?case
  proof (cases "ws = []")
    case True
    then show ?thesis using split_last [OF w] by simp
  next
    case False
    then have "concat (map (\<lambda>w. w @ '' '') ws) \<noteq> []" by (cases ws) auto
    then have "butlast (concat (map (\<lambda>w. w @ '' '') (w # ws))) = w @ CHR '' '' # butlast (concat (map (\<lambda>w. w @ '' '') ws))"
      by (simp add: butlast_append)
    then show ?thesis using split_word [OF w] Cons by simp
  qed
qed simp

lemma zfs_vdev_words: "plain_vdev v \<Longrightarrow> zfs_vdev v = concat (map (\<lambda>w. w @ '' '') (vdev_words v))"
proof -
  have "list_all plain_leaf ls \<Longrightarrow> concat (map zfs_leaf ls) = concat (map (\<lambda>w. w @ '' '') (map leaf_path ls))" for ls
    by (induction ls) (auto simp: plain_leaf_cases)
  then show "plain_vdev v \<Longrightarrow> zfs_vdev v = concat (map (\<lambda>w. w @ '' '') (vdev_words v))"
    by (cases v) (auto simp: plain_leaf_cases)
qed

lemma good_words: "plain_vdev v \<Longrightarrow> list_all good_word (vdev_words v)"
proof -
  have "list_all plain_leaf ls \<Longrightarrow> list_all good_word (map leaf_path ls)" for ls
    by (induction ls) (auto simp: plain_leaf_cases good_word_def is_path_def)
  then show "plain_vdev v \<Longrightarrow> list_all good_word (vdev_words v)"
    by (cases v) (auto simp: plain_leaf_cases good_word_def is_path_def)
qed

text \<open>
  The textual form of a tier. Parsing a sequence of words fails exactly when one of them is
  neither a path nor a keyword. For a configuration of plain paths without spaces in which no single
  device follows a group, the printed form, split at its spaces, is parsed to the same devices.
\<close>

theorem zfs_like_roundtrip:
  assumes "list_all plain_vdev (top_level_vdevs tc)" "separated (top_level_vdevs tc)"
  shows "parse_zfs_like (split_words (zfs_like tc)) = Some (tier_configuration_new (top_level_vdevs tc))
    \<and> (parse_zfs_like ss = None \<longleftrightarrow> (\<exists>s \<in> set ss. \<not> is_path s \<and> keyword s = None))"
proof -
  let ?ws = "concat (map vdev_words (top_level_vdevs tc))"
  have "list_all plain_vdev vs \<Longrightarrow> concat (map zfs_vdev vs) = concat (map (\<lambda>w. w @ '' '') (concat (map vdev_words vs)))
      \<and> list_all good_word (concat (map vdev_words vs))" for vs
    by (induction vs) (auto simp: zfs_vdev_words good_words)
  then have "split_words (zfs_like tc) = ?ws"
    using assms(1) split_joined [of ?ws] by (simp add: zfs_like_def)
  moreover have "parse_vdevs ss = None \<longleftrightarrow> (\<exists>s \<in> set ss. \<not> is_path s \<and> keyword s = None)"
    using parse_vdevs_Some_iff [of ss] by (metis (no_types, lifting))
  ultimately show ?thesis using parse_words [OF assms] by (simp add: parse_zfs_like_def)
qed

theorem zfs_like_roundtrip_witness:
  "parse_zfs_like (split_words (zfs_like (tier_configuration_new [VLeaf (LeafFile ''/a''), VMirror [LeafFile ''/b'', LeafFile ''./c'']])))
     = Some (tier_configuration_new [VLeaf (LeafFile ''/a''), VMirror [LeafFile ''/b'', LeafFile ''./c'']])
   \<and> parse_zfs_like [''/a'', ''raid'', ''/b''] = None"
  using zfs_like_roundtrip [of "tier_configuration_new [VLeaf (LeafFile ''/a''), VMirror [LeafFile ''/b'', LeafFile ''./c'']]" "[''/a'', ''raid'', ''/b'']"]
  by (simp add: tier_configuration_new_def is_path_def keyword_def)

text \<open>A single device behind a group is printed like one more member of the group.\<close>

lemma zfs_like_ambiguous:
  "zfs_like (tier_configuration_new [VMirror [LeafFile ''/b''], VLeaf (LeafFile ''/a'')])
     = zfs_like (tier_configuration_new [VMirror [LeafFile ''/b'', LeafFile ''/a'']])"
  by (simp add: zfs_like_def tier_configuration_new_def)

end
