(* ===== verification/StoragePool.thy ===== *)
theory StoragePool
  imports Configuration Parity1
begin

text \<open>
  \<^verbatim>\<open>betree/src/storage_pool/unit.rs\<close> and \<^verbatim>\<open>mod.rs\<close>: the storage pool, up to four tiers of devices, each a leaf
  device, a mirror or a parity group. A disk offset selects tier, device and block. Opening a file
  is a parameter \<open>open_file\<close>; in the results of the construction an inner \<open>None\<close> is an error, the outer
  one a panic. Reads and writes are the bodies of the tasks that \<^verbatim>\<open>read_async\<close> and \<^verbatim>\<open>begin_write\<close> spawn;
  the queue around them is in \<open>WriteBackQueue\<close>. \<^verbatim>\<open>read_raw\<close> and \<^verbatim>\<open>write_raw\<close> of all devices at once, whose
  order and extent after an error are up to the executor, and \<^verbatim>\<open>metrics\<close> are not modelled.
\<close>

subsection \<open>Devices\<close>

datatype dev = DevLeaf leaf | DevMirror mirror | DevParity1 parity1

fun dev_actual_size :: "dev \<Rightarrow> nat \<Rightarrow> nat" where
  "dev_actual_size (DevLeaf v) sz = sz"
| "dev_actual_size (DevMirror m) sz = mirror_actual_size sz"
| "dev_actual_size (DevParity1 pa) sz = p1_actual_size (length (pa_vdevs pa)) sz"

fun dev_num_disks :: "dev \<Rightarrow> nat" where
  "dev_num_disks (DevLeaf v) = 1"
| "dev_num_disks (DevMirror m) = length (mi_vdevs m)"
| "dev_num_disks (DevParity1 pa) = length (pa_vdevs pa)"

fun dev_size :: "dev \<Rightarrow> nat option" where
  "dev_size (DevLeaf v) = Some (leaf_size v)"
| "dev_size (DevMirror m) = mirror_size m"
| "dev_size (DevParity1 pa) = p1_size pa"

fun dev_effective_free_size :: "dev \<Rightarrow> nat \<Rightarrow> nat" where
  "dev_effective_free_size (DevLeaf v) free_size = free_size"
| "dev_effective_free_size (DevMirror m) free_size = mirror_effective_free_size free_size"
| "dev_effective_free_size (DevParity1 pa) free_size = p1_effective_free_size (length (pa_vdevs pa)) free_size"

fun dev_write :: "bytes \<Rightarrow> nat \<Rightarrow> dev \<Rightarrow> (bool \<times> dev) option" where
  "dev_write d off (DevLeaf v) = Some (map_prod id DevLeaf (leaf_write_raw d off False v))"
| "dev_write d off (DevMirror m) = Some (map_prod id DevMirror (mirror_write d off m))"
| "dev_write d off (DevParity1 pa) = map_option (map_prod id DevParity1) (p1_write d off pa)"

fun dev_read :: "(nat \<Rightarrow> byte) \<Rightarrow> csum_lib \<Rightarrow> (bytes list \<Rightarrow> 64 word) \<Rightarrow> nat \<Rightarrow> nat \<Rightarrow> 64 word \<Rightarrow> dev \<Rightarrow> (bytes option \<times> dev) option" where
  "dev_read junk lib hs sz off checksum (DevLeaf v) = Some (map_prod id DevLeaf (leaf_read lib sz off checksum v))"
| "dev_read junk lib hs sz off checksum (DevMirror m) = Some (map_prod id DevMirror (mirror_read lib sz off checksum m))"
| "dev_read junk lib hs sz off checksum (DevParity1 pa) = map_option (map_prod id DevParity1) (p1_read junk hs sz off checksum pa)"

subsection \<open>Building devices from their description\<close>

definition leaf_build :: "(string \<Rightarrow> bool \<Rightarrow> leaf option) \<Rightarrow> leaf_vdev \<Rightarrow> leaf option option" where
  "leaf_build open_file l = (case l of
     LeafFile path \<Rightarrow> Some (open_file path True)
   | FileWithOpts path direct \<Rightarrow> Some (open_file path (case direct of None \<Rightarrow> True | Some b \<Rightarrow> b))
   | LeafMemory mem \<Rightarrow> do { assert_that (mem mod BS = 0); Some (Some (leaf_new (mem div BS))) })"

text \<open>Collecting results stops at the first error.\<close>

fun collect_results :: "('a \<Rightarrow> 'b option option) \<Rightarrow> 'a list \<Rightarrow> 'b list option option" where
  "collect_results f [] = Some (Some [])"
| "collect_results f (x # xs) = do {
     r \<leftarrow> f x;
     case r of
       None \<Rightarrow> Some None
     | Some y \<Rightarrow> do { rs \<leftarrow> collect_results f xs; Some (map_option ((#) y) rs) } }"

definition mirror_new :: "leaf list \<Rightarrow> mirror" where
  "mirror_new vdevs = \<lparr>mi_vdevs = vdevs, mi_stats = lf_stats (leaf_new 0)\<rparr>"

definition vdev_build :: "(string \<Rightarrow> bool \<Rightarrow> leaf option) \<Rightarrow> vdev_cfg \<Rightarrow> dev option option" where
  "vdev_build open_file v = (case v of
     VMirror ls \<Rightarrow> do { r \<leftarrow> collect_results (leaf_build open_file) ls; Some (map_option (\<lambda>vs. DevMirror (mirror_new vs)) r) }
   | VParity1 ls \<Rightarrow> do {
       r \<leftarrow> collect_results (leaf_build open_file) ls;
       case r of None \<Rightarrow> Some None | Some vs \<Rightarrow> do { pa \<leftarrow> p1_new vs; Some (Some (DevParity1 pa)) } }
   | VLeaf l \<Rightarrow> do { r \<leftarrow> leaf_build open_file l; Some (map_option DevLeaf r) })"

definition tier_build :: "(string \<Rightarrow> bool \<Rightarrow> leaf option) \<Rightarrow> tier_configuration \<Rightarrow> dev list option option" where
  "tier_build open_file tc = collect_results (vdev_build open_file) (top_level_vdevs tc)"

subsection \<open>The pool\<close>

definition NUM_STORAGE_CLASSES :: nat where "NUM_STORAGE_CLASSES = 4"

record storage_tier =
  st_devs :: "dev list"
  st_preferred_access_type :: preferred_access_type
  st_kind :: storage_kind

record storage_pool_configuration =
  spc_tiers :: "tier_configuration list"
  queue_depth_factor :: "32 word"

record storage_pool =
  sp_tiers :: "storage_tier list"
  sp_queue_depth :: nat
  sp_default_storage_class :: byte

definition storage_tier_default :: storage_tier where
  "storage_tier_default = \<lparr>st_devs = [], st_preferred_access_type = Unknown, st_kind = Hdd\<rparr>"

definition storage_tier_from :: "(string \<Rightarrow> bool \<Rightarrow> leaf option) \<Rightarrow> tier_configuration \<Rightarrow> storage_tier option option" where
  "storage_tier_from open_file tc = do {
     r \<leftarrow> tier_build open_file tc;
     Some (map_option (\<lambda>ds. \<lparr>st_devs = ds, st_preferred_access_type = tc_preferred_access_type tc, st_kind = tc_storage_kind tc\<rparr>) r) }"

definition pool_new :: "(string \<Rightarrow> bool \<Rightarrow> leaf option) \<Rightarrow> storage_pool_configuration \<Rightarrow> byte \<Rightarrow> storage_pool option option" where
  "pool_new open_file cfg default_storage_class = do {
     r \<leftarrow> collect_results (storage_tier_from open_file) (spc_tiers cfg);
     case r of
       None \<Rightarrow> Some None
     | Some vec \<Rightarrow> do {
         assert_that (length vec \<le> NUM_STORAGE_CLASSES);
         let tiers = vec @ replicate (NUM_STORAGE_CLASSES - length vec) storage_tier_default;
         let devices_len = sum_list (map (length \<circ> st_devs) tiers);
         Some (Some \<lparr>sp_tiers = tiers, sp_queue_depth = unat (queue_depth_factor cfg) * devices_len,
           sp_default_storage_class = default_storage_class\<rparr>) } }"

definition pool_dev :: "storage_pool \<Rightarrow> byte \<Rightarrow> 16 word \<Rightarrow> dev option" where
  "pool_dev p class disk = do { tier \<leftarrow> nth_opt (sp_tiers p) (unat class); nth_opt (st_devs tier) (unat disk) }"

definition by_offset :: "storage_pool \<Rightarrow> disk_offset \<Rightarrow> dev option" where
  "by_offset p off = pool_dev p (storage_class off) (disk_id off)"

definition set_dev :: "disk_offset \<Rightarrow> dev \<Rightarrow> storage_pool \<Rightarrow> storage_pool" where
  "set_dev off dv p = p\<lparr>sp_tiers := (sp_tiers p)[unat (storage_class off) :=
     (sp_tiers p ! unat (storage_class off))\<lparr>st_devs := (st_devs (sp_tiers p ! unat (storage_class off)))[unat (disk_id off) := dv]\<rparr>]\<rparr>"

definition pool_read ::
  "(nat \<Rightarrow> byte) \<Rightarrow> csum_lib \<Rightarrow> (bytes list \<Rightarrow> 64 word) \<Rightarrow> nat \<Rightarrow> disk_offset \<Rightarrow> 64 word \<Rightarrow> storage_pool \<Rightarrow> (bytes option \<times> storage_pool) option" where
  "pool_read junk lib hs sz off checksum p = do {
     dv \<leftarrow> by_offset p off;
     (r, dv) \<leftarrow> dev_read junk lib hs sz (unat (block_offset off)) checksum dv;
     Some (r, set_dev off dv p) }"

definition pool_write :: "bytes \<Rightarrow> disk_offset \<Rightarrow> storage_pool \<Rightarrow> (bool \<times> storage_pool) option" where
  "pool_write d off p = do {
     dv \<leftarrow> by_offset p off;
     (ok, dv) \<leftarrow> dev_write d (unat (block_offset off)) dv;
     Some (ok, set_dev off dv p) }"

text \<open>Sizes are block counts of 32 and 64 bits; a sum that does not fit panics.\<close>

definition pool_actual_size :: "storage_pool \<Rightarrow> byte \<Rightarrow> 16 word \<Rightarrow> 32 block \<Rightarrow> 32 block option" where
  "pool_actual_size p class disk sz = do {
     dv \<leftarrow> pool_dev p class disk;
     let n = dev_actual_size dv (unat sz);
     assert_that (n < 2 ^ 32);
     Some (word_of_nat n) }"

definition size_in_blocks :: "storage_pool \<Rightarrow> byte \<Rightarrow> 16 word \<Rightarrow> 64 block option" where
  "size_in_blocks p class disk = do {
     dv \<leftarrow> pool_dev p class disk;
     n \<leftarrow> dev_size dv;
     assert_that (n < 2 ^ 64);
     Some (word_of_nat n) }"

definition pool_num_disks :: "storage_pool \<Rightarrow> byte \<Rightarrow> 16 word \<Rightarrow> nat option" where
  "pool_num_disks p class disk = map_option dev_num_disks (pool_dev p class disk)"

fun free_size_fits :: "dev \<Rightarrow> nat \<Rightarrow> bool" where
  "free_size_fits (DevParity1 pa) free_size \<longleftrightarrow> free_size * (length (pa_vdevs pa) - 1) < 2 ^ 64"
| "free_size_fits _ free_size \<longleftrightarrow> True"

definition pool_effective_free_size :: "storage_pool \<Rightarrow> byte \<Rightarrow> 16 word \<Rightarrow> 64 block \<Rightarrow> 64 block option" where
  "pool_effective_free_size p class disk free_size = do {
     dv \<leftarrow> pool_dev p class disk;
     assert_that (free_size_fits dv (unat free_size));
     Some (word_of_nat (dev_effective_free_size dv (unat free_size))) }"

definition disk_count :: "storage_pool \<Rightarrow> byte \<Rightarrow> 16 word option" where
  "disk_count p class = map_option (\<lambda>tier. word_of_nat (length (st_devs tier))) (nth_opt (sp_tiers p) (unat class))"

definition access_type_preference :: "storage_pool \<Rightarrow> preferred_access_type \<Rightarrow> storage_preference option" where
  "access_type_preference p t = (case find (\<lambda>i. st_preferred_access_type (sp_tiers p ! i) = t) [0..<length (sp_tiers p)] of
     Some i \<Rightarrow> pref_from_u8 (word_of_nat i)
   | None \<Rightarrow> Some NONE)"

definition storage_kind_map :: "storage_pool \<Rightarrow> storage_kind list option" where
  "storage_kind_map p = do {
     assert_that (NUM_STORAGE_CLASSES \<le> length (sp_tiers p));
     Some (map (\<lambda>i. st_kind (sp_tiers p ! i)) [0..<NUM_STORAGE_CLASSES]) }"

subsection \<open>Writing and reading back\<close>

text \<open>All leaf devices answer; the place is on the device; and what may happen to a device between a write and a read:
  nothing to a leaf, the loss of all but one device of a mirror, the loss of one device of a parity group.\<close>

fun dev_alive :: "dev \<Rightarrow> bool" where
  "dev_alive (DevLeaf v) \<longleftrightarrow> \<not> lf_dead v"
| "dev_alive (DevMirror m) \<longleftrightarrow> mi_vdevs m \<noteq> [] \<and> (\<forall>v \<in> set (mi_vdevs m). \<not> lf_dead v)"
| "dev_alive (DevParity1 pa) \<longleftrightarrow> 3 \<le> length (pa_vdevs pa) \<and> (\<forall>v \<in> set (pa_vdevs pa). \<not> lf_dead v)"

fun dev_room :: "nat \<Rightarrow> nat \<Rightarrow> dev \<Rightarrow> bool" where
  "dev_room off sz (DevLeaf v) \<longleftrightarrow> (off + sz) * BS \<le> length (lf_mem v)"
| "dev_room off sz (DevMirror m) \<longleftrightarrow> (\<forall>v \<in> set (mi_vdevs m). (off + sz) * BS \<le> length (lf_mem v))"
| "dev_room off sz (DevParity1 pa) \<longleftrightarrow> (\<forall>v \<in> set (pa_vdevs pa).
     (off div length (pa_vdevs pa) + 1 + long_col_len (length (pa_vdevs pa)) sz) * BS \<le> length (lf_mem v))"

fun survives :: "dev \<Rightarrow> dev \<Rightarrow> bool" where
  "survives (DevLeaf v) (DevLeaf v') \<longleftrightarrow> same_leaf v v'"
| "survives (DevMirror m) (DevMirror m') \<longleftrightarrow>
     list_all2 (\<lambda>v v'. same_leaf v v' \<or> lf_dead v') (mi_vdevs m) (mi_vdevs m') \<and> (\<exists>v' \<in> set (mi_vdevs m'). \<not> lf_dead v')"
| "survives (DevParity1 pa) (DevParity1 pa') \<longleftrightarrow> (\<exists>lost. one_lost lost pa pa')"
| "survives _ _ \<longleftrightarrow> False"

lemma verified_holds: "holds v off d \<Longrightarrow> length d = sz * BS \<Longrightarrow> \<not> lf_dead v \<Longrightarrow> csum_verify lib c d \<Longrightarrow> verified lib sz off c v = Some d"
  by (simp add: verified_def leaf_slice_holds)

lemma leaf_new_simps: "\<not> lf_dead (leaf_new n)" "length (lf_mem (leaf_new n)) = n * BS"
  by (simp_all add: leaf_new_def)

lemma verified_dead: "lf_dead v \<Longrightarrow> verified lib sz off c v = None"
  by (simp add: verified_def leaf_slice_def)

lemma same_leaf_holds: "same_leaf v v' \<Longrightarrow> holds v' off d = holds v off d" "same_leaf v v' \<Longrightarrow> lf_dead v' = lf_dead v"
  by (simp_all add: same_leaf_def holds_def)

lemma mirror_read_exact:
  assumes v: "\<forall>v \<in> set (mi_vdevs m). verified lib sz off c v \<in> {None, Some d}" "\<exists>v \<in> set (mi_vdevs m). verified lib sz off c v = Some d"
  shows "\<exists>m'. mirror_read lib sz off c m = (Some d, m')"
proof -
  let ?n = "length (mi_vdevs m)"
  have n: "0 < ?n" using v(2) by auto
  note ord = mirror_order_facts [OF n, of off]
  obtain x failed vs where t: "mirror_try lib sz off c (mirror_order ?n off) (mi_vdevs m) = (x, failed, vs)" by (metis prod_cases3)
  have lt: "\<forall>i \<in> set (mirror_order ?n off). i < ?n" using ord(2) by auto
  obtain i where i: "i < ?n" "verified lib sz off c (mi_vdevs m ! i) = Some d" using v(2) by (auto simp: in_set_conv_nth)
  have "x = Some d"
  proof (cases "find (\<lambda>i. verified lib sz off c (mi_vdevs m ! i) \<noteq> None) (mirror_order ?n off)")
    case None
    then show ?thesis using i ord(2) by (auto simp: find_None_iff)
  next
    case (Some j)
    then have "verified lib sz off c (mi_vdevs m ! j) \<noteq> None" "j < ?n" using lt by (auto simp: find_Some_iff)
    then have "verified lib sz off c (mi_vdevs m ! j) = Some d" using v(1) by (metis insert_iff nth_mem singletonD)
    then show ?thesis using mirror_try_spec [OF lt t] Some by simp
  qed
  then show ?thesis using t by (simp add: mirror_read_def handle_repair_def Let_def split: prod.splits)
qed

lemma mirror_write_all:
  assumes "mi_vdevs m \<noteq> []" "\<forall>v \<in> set (mi_vdevs m). \<not> lf_dead v" "\<forall>v \<in> set (mi_vdevs m). off * BS + length d \<le> length (lf_mem v)"
  shows "\<exists>m1. mirror_write d off m = (True, m1) \<and> mi_vdevs m1 = map (snd \<circ> leaf_write_raw d off False) (mi_vdevs m)"
proof -
  have "filter (\<lambda>r. \<not> fst r) (map (leaf_write_raw d off False) (mi_vdevs m)) = []"
    using assms(2,3) leaf_write_raw_holds(1) by (auto simp: filter_empty_conv)
  then show ?thesis using assms(1) by (simp add: mirror_write_def Let_def mi_count_def del: filter_map length_filter_map)
qed

lemma dev_write_then_read:
  assumes alive: "dev_alive dv" and room: "dev_room off sz dv" and d: "length d = sz * BS" "verify_buffer hs c [d]" "csum_verify lib c d"
  shows "\<exists>dv1. dev_write d off dv = Some (True, dv1) \<and> (\<forall>dv2. survives dv1 dv2 \<longrightarrow> (\<exists>dv3. dev_read junk lib hs sz off c dv2 = Some (Some d, dv3)))"
proof (cases dv)
  case (DevLeaf v)
  let ?v = "snd (leaf_write_raw d off False v)"
  have w: "fst (leaf_write_raw d off False v)" "holds ?v off d" "\<not> lf_dead ?v"
    using leaf_write_raw_holds [of v off d False] alive room d(1) DevLeaf by (auto simp: add_mult_distrib leaf_write_raw_simps)
  have "\<exists>dv3. dev_read junk lib hs sz off c dv2 = Some (Some d, dv3)" if s: "survives (DevLeaf ?v) dv2" for dv2
  proof (cases dv2)
    case (DevLeaf v2)
    then have "verified lib sz off c v2 = Some d" using s w same_leaf_holds [of ?v v2] d by (intro verified_holds) auto
    then show ?thesis using DevLeaf leaf_read_verified(1) [of lib sz off c v2] by (cases "leaf_read lib sz off c v2") auto
  qed (use s in simp_all)
  then show ?thesis using w(1) DevLeaf by (cases "leaf_write_raw d off False v") auto
next
  case (DevMirror m)
  obtain m1 where m1: "mirror_write d off m = (True, m1)" "mi_vdevs m1 = map (snd \<circ> leaf_write_raw d off False) (mi_vdevs m)"
    using mirror_write_all [of m off d] alive room d(1) DevMirror by (auto simp: add_mult_distrib)
  have h: "holds v off d \<and> \<not> lf_dead v" if "v \<in> set (mi_vdevs m1)" for v
    using that leaf_write_raw_holds(2) alive room d(1) DevMirror unfolding m1(2) by (auto simp: add_mult_distrib leaf_write_raw_simps)
  have "\<exists>dv3. dev_read junk lib hs sz off c dv2 = Some (Some d, dv3)" if s: "survives (DevMirror m1) dv2" for dv2
  proof (cases dv2)
    case (DevMirror m2)
    have all: "lf_dead v2 \<or> verified lib sz off c v2 = Some d" if v2: "v2 \<in> set (mi_vdevs m2)" for v2
    proof -
      obtain v where "v \<in> set (mi_vdevs m1)" "same_leaf v v2 \<or> lf_dead v2"
      proof -
        have "list_all2 (\<lambda>v v'. same_leaf v v' \<or> lf_dead v') (mi_vdevs m1) (mi_vdevs m2)" using s DevMirror by simp
        then have len: "length (mi_vdevs m1) = length (mi_vdevs m2)"
          and all: "\<And>i. i < length (mi_vdevs m2) \<Longrightarrow> same_leaf (mi_vdevs m1 ! i) (mi_vdevs m2 ! i) \<or> lf_dead (mi_vdevs m2 ! i)"
          by (auto simp: list_all2_conv_all_nth)
        obtain i where i: "i < length (mi_vdevs m2)" "v2 = mi_vdevs m2 ! i" using v2 by (auto simp: in_set_conv_nth)
        show ?thesis using that [of "mi_vdevs m1 ! i"] len all [OF i(1)] i by (metis nth_mem)
      qed
      then show ?thesis using h [of v] same_leaf_holds [of v v2] d by (auto intro: verified_holds)
    qed
    then have "\<forall>v \<in> set (mi_vdevs m2). verified lib sz off c v \<in> {None, Some d}" using verified_dead by blast
    moreover have "\<exists>v \<in> set (mi_vdevs m2). verified lib sz off c v = Some d" using s DevMirror all by auto
    ultimately have "\<exists>m'. mirror_read lib sz off c m2 = (Some d, m')" by (rule mirror_read_exact)
    then show ?thesis using DevMirror by auto
  qed (use s in simp_all)
  then show ?thesis using m1(1) DevMirror by auto
next
  case (DevParity1 pa)
  have alive': "\<forall>i < length (pa_vdevs pa). i \<noteq> lost \<longrightarrow> \<not> lf_dead (pa_vdevs pa ! i)" for lost
    using alive DevParity1 by auto
  have n: "3 \<le> length (pa_vdevs pa)" and r: "\<forall>v \<in> set (pa_vdevs pa).
      (off div length (pa_vdevs pa) + 1 + long_col_len (length (pa_vdevs pa)) sz) * BS \<le> length (lf_mem v)"
    using alive room DevParity1 by simp_all
  note wr = p1_write_then_read [OF n d(1,2) r alive']
  obtain pa1 where pa1: "p1_write d off pa = Some (True, pa1)" using wr by blast
  have "\<exists>dv3. dev_read junk lib hs sz off c dv2 = Some (Some d, dv3)" if s: "survives (DevParity1 pa1) dv2" for dv2
  proof (cases dv2)
    case (DevParity1 pa2)
    then obtain lost where "one_lost lost pa1 pa2" using s by auto
    then show ?thesis using wr [of lost junk] pa1 DevParity1 by auto
  qed (use s in simp_all)
  then show ?thesis using pa1 DevParity1 by auto
qed

lemma by_offset_set_dev:
  assumes "by_offset p off = Some dv"
  shows "by_offset (set_dev off dv' p) off' =
    (if storage_class off' = storage_class off \<and> disk_id off' = disk_id off then Some dv' else by_offset p off')"
proof -
  have b: "unat (storage_class off) < length (sp_tiers p)" "unat (disk_id off) < length (st_devs (sp_tiers p ! unat (storage_class off)))"
    using assms by (auto simp: by_offset_def pool_dev_def bind_eq_Some_conv nth_opt_Some)
  have c: "unat (storage_class off') = unat (storage_class off) \<longleftrightarrow> storage_class off' = storage_class off"
    "unat (disk_id off') = unat (disk_id off) \<longleftrightarrow> disk_id off' = disk_id off"
    by (simp_all add: word_unat_eq_iff)
  show ?thesis
  proof (cases "storage_class off' = storage_class off")
    case True
    then show ?thesis using b c(2) by (auto simp: by_offset_def pool_dev_def set_dev_def nth_opt_def)
  next
    case False
    then have "unat (storage_class off) \<noteq> unat (storage_class off')" using c(1) by metis
    then show ?thesis using False by (simp add: by_offset_def pool_dev_def set_dev_def nth_opt_def)
  qed
qed

text \<open>
  C17. The pool keeps what is written to it: writing to an offset whose device answers and has room succeeds and touches
  no other device; and after the device lost what its kind tolerates (all but one copy of a mirror, one device of a parity
  group) a read of the same place with the checksum of the data returns exactly the data.
\<close>

theorem pool_write_survives:
  assumes "by_offset p off = Some dv" "dev_alive dv" "dev_room (unat (block_offset off)) sz dv"
    and "length d = sz * BS" "verify_buffer hs c [d]" "csum_verify lib c d"
  shows "\<exists>p1 dv1. pool_write d off p = Some (True, p1) \<and> by_offset p1 off = Some dv1
    \<and> (\<forall>off'. (storage_class off', disk_id off') \<noteq> (storage_class off, disk_id off) \<longrightarrow> by_offset p1 off' = by_offset p off')
    \<and> (\<forall>p2 dv2. by_offset p2 off = Some dv2 \<and> survives dv1 dv2
        \<longrightarrow> (\<exists>p3. pool_read junk lib hs sz off c p2 = Some (Some d, p3)))"
proof -
  obtain dv1 where dv1: "dev_write d (unat (block_offset off)) dv = Some (True, dv1)"
    "\<forall>dv2. survives dv1 dv2 \<longrightarrow> (\<exists>dv3. dev_read junk lib hs sz (unat (block_offset off)) c dv2 = Some (Some d, dv3))"
    using dev_write_then_read [OF assms(2-6)] by blast
  have "pool_write d off p = Some (True, set_dev off dv1 p)" using assms(1) dv1(1) by (simp add: pool_write_def)
  then show ?thesis using by_offset_set_dev [OF assms(1)] dv1(2) by (fastforce simp: pool_read_def)
qed

definition example_pool :: storage_pool where
  "example_pool = \<lparr>sp_tiers = [\<lparr>st_devs = [DevMirror (mirror_new [leaf_new 4, leaf_new 4])], st_preferred_access_type = Unknown, st_kind = Hdd\<rparr>],
     sp_queue_depth = 20, sp_default_storage_class = 0\<rparr>"

theorem pool_write_survives_witness:
  "\<exists>p1 p3. pool_write (replicate BS 7) 2 example_pool = Some (True, p1)
     \<and> pool_read (\<lambda>_. 0) \<lparr>cl_hash = (\<lambda>_. 5), cl_ser = (\<lambda>c. []), cl_de = (\<lambda>b. 0)\<rparr> (\<lambda>_. 5) 1 2 5 p1 = Some (Some (replicate BS 7), p3)"
proof -
  have off: "storage_class 2 = 0" "disk_id 2 = 0" "block_offset 2 = 2"
    by (simp_all add: storage_class_def disk_id_def block_offset_def mask_eq_exp_minus_1)
  let ?dv = "DevMirror (mirror_new [leaf_new 4, leaf_new 4])"
  have dv: "by_offset example_pool 2 = Some ?dv" by (simp add: example_pool_def by_offset_def pool_dev_def off nth_opt_def)
  let ?lib = "\<lparr>cl_hash = (\<lambda>_. 5), cl_ser = (\<lambda>c. []), cl_de = (\<lambda>b. 0)\<rparr>"
  have room: "dev_alive ?dv" "dev_room (unat (block_offset 2)) 1 ?dv" "length (replicate BS (7 :: byte)) = 1 * BS"
    "verify_buffer (\<lambda>_. 5) 5 [replicate BS 7]" "csum_verify ?lib 5 (replicate BS 7)"
    by (simp_all add: off mirror_new_def leaf_new_simps verify_buffer_def csum_verify_def)
  obtain p1 dv1 where p1: "pool_write (replicate BS 7) 2 example_pool = Some (True, p1)" "by_offset p1 2 = Some dv1"
    "\<forall>p2 dv2. by_offset p2 2 = Some dv2 \<and> survives dv1 dv2 \<longrightarrow>
      (\<exists>p3. pool_read (\<lambda>_. 0) ?lib (\<lambda>_. 5) 1 2 5 p2 = Some (Some (replicate BS 7), p3))"
    using pool_write_survives [OF dv room, of "\<lambda>_. 0"] by (elim exE conjE)
  obtain ok m1 where m1: "mirror_write (replicate BS 7) 2 (mirror_new [leaf_new 4, leaf_new 4]) = (ok, m1)" by fastforce
  then have "mi_vdevs m1 = map (snd \<circ> leaf_write_raw (replicate BS 7) 2 False) [leaf_new 4, leaf_new 4]"
    by (auto simp: mirror_write_def mirror_new_def Let_def mi_count_def split: if_splits)
  then have "survives (DevMirror m1) (DevMirror m1)"
    by (simp add: leaf_write_raw_simps leaf_new_simps)
  moreover have "dv1 = DevMirror m1" using p1(1,2) dv m1 by (auto simp: pool_write_def off by_offset_set_dev)
  ultimately have "survives dv1 dv1" by simp
  then have "\<exists>p3. pool_read (\<lambda>_. 0) ?lib (\<lambda>_. 5) 1 2 5 p1 = Some (Some (replicate BS 7), p3)" using p1(2,3) by simp
  then show ?thesis using p1(1) by blast
qed

end
