(* ===== verification/Allocation.thy ===== *)
theory Allocation
  imports Handler StoragePool
begin

text \<open>
  \<^verbatim>\<open>Dmu::allocate\<close> and \<^verbatim>\<open>allocate_raw_at\<close> of \<^verbatim>\<open>betree/src/data_management/dmu.rs\<close>: finding blocks for an object. The
  allocation strategy lists the storage classes to try for a preference; in a class the disk with most
  free space is chosen, and its segments are tried in turn from the one used last. The search over
  segments is a loop that need not end (\<open>None\<close>), for example from a segment that is not on the disk. \<open>None\<close> is
  also a panic. The mutex around the last segment of a disk is held during the search, so one allocation
  per disk runs at a time.
\<close>

datatype alloc_error = OutOfSpaceError | RawAllocationError disk_offset "32 block" | AllocReadError handler_error

record alloc_state =
  al_handler :: handler
  allocation_data :: "segment_id option list list"
  next_disk_id :: "64 word"

definition alloc_state_new :: "storage_pool \<Rightarrow> handler \<Rightarrow> alloc_state" where
  "alloc_state_new p h = \<lparr>al_handler = h, allocation_data = map (\<lambda>tier. replicate (length (st_devs tier)) None) (sp_tiers p), next_disk_id = 0\<rparr>"

text \<open>The strategy of the configuration as an array of options.\<close>

definition strategy_row :: "byte list \<Rightarrow> byte option list option" where
  "strategy_row src = do {
     assert_that (length src \<le> NUM_STORAGE_CLASSES);
     Some (map Some src @ replicate (NUM_STORAGE_CLASSES - length src) None) }"

fun strategy_rows :: "byte list list \<Rightarrow> byte option list list option" where
  "strategy_rows [] = Some []"
| "strategy_rows (r # rs) = do { x \<leftarrow> strategy_row r; xs \<leftarrow> strategy_rows rs; Some (x # xs) }"

subsection \<open>The disk with most free space\<close>

text \<open>\<^verbatim>\<open>Iterator::max_by_key\<close> returns the last of the largest elements.\<close>

fun max_by_key_from :: "('a \<Rightarrow> 'k::linorder option) \<Rightarrow> 'a \<Rightarrow> 'k \<Rightarrow> 'a list \<Rightarrow> 'a option" where
  "max_by_key_from f x kx [] = Some x"
| "max_by_key_from f x kx (y # ys) = do {
     ky \<leftarrow> f y;
     if kx \<le> ky then max_by_key_from f y ky ys else max_by_key_from f x kx ys }"

fun max_by_key :: "('a \<Rightarrow> 'k::linorder option) \<Rightarrow> 'a list \<Rightarrow> 'a option" where
  "max_by_key f [] = None"
| "max_by_key f (x # xs) = do { k \<leftarrow> f x; max_by_key_from f x k xs }"

definition effective_free :: "storage_pool \<Rightarrow> handler \<Rightarrow> byte \<Rightarrow> 16 word \<Rightarrow> 64 block option" where
  "effective_free p h class disk = do {
     info \<leftarrow> h_free_space_disk h (construct_disk_id class disk);
     pool_effective_free_size p class disk (si_free info) }"

definition select_disk :: "storage_pool \<Rightarrow> handler \<Rightarrow> byte \<Rightarrow> 16 word \<Rightarrow> 64 word \<Rightarrow> 16 word option" where
  "select_disk p h class disks_in_class next_id =
     (let start_disk_id = unat next_id mod unat disks_in_class
      in max_by_key (effective_free p h class) (map word_of_nat ([start_disk_id..<unat disks_in_class] @ [0..<start_disk_id])))"

subsection \<open>The search over segments\<close>

partial_function (option) segment_loop ::
  "64 block \<Rightarrow> nat \<Rightarrow> segment_id \<Rightarrow> segment_id \<Rightarrow> handler \<Rightarrow> ((handler_error + disk_offset option) \<times> segment_id \<times> handler) option" where
  "segment_loop disk_size sz first_seen sid h = do {
     r \<leftarrow> get_allocation_bitmap sid h;
     case r of
       Inl e \<Rightarrow> Some (Inl e, sid, h)
     | Inr h \<Rightarrow> do {
         a \<leftarrow> allocators h sid;
         (allocation, a) \<leftarrow> allocate a sz;
         let h = h\<lparr>allocators := (allocators h)(sid \<mapsto> a)\<rparr>;
         case allocation of
           Some segment_offset \<Rightarrow> do {
             off \<leftarrow> segment_disk_offset sid (word_of_nat segment_offset);
             Some (Inr (Some off), sid, h) }
         | None \<Rightarrow> do {
             next_segment_id \<leftarrow> segment_next sid disk_size;
             if next_segment_id = first_seen then Some (Inr None, sid, h)
             else segment_loop disk_size sz first_seen next_segment_id h } } }"

definition last_segment :: "alloc_state \<Rightarrow> byte \<Rightarrow> 16 word \<Rightarrow> segment_id option" where
  "last_segment st class disk = do {
     slots \<leftarrow> nth_opt (allocation_data st) (unat class);
     slot \<leftarrow> nth_opt slots (unat disk);
     case slot of
       Some sid \<Rightarrow> Some sid
     | None \<Rightarrow> map_option segment_get (disk_offset_new class disk 0) }"

definition set_last_segment :: "byte \<Rightarrow> 16 word \<Rightarrow> segment_id \<Rightarrow> alloc_state \<Rightarrow> alloc_state" where
  "set_last_segment class disk sid st = st\<lparr>allocation_data := (allocation_data st)[unat class :=
     (allocation_data st ! unat class)[unat disk := Some sid]]\<rparr>"

subsection \<open>Allocation\<close>

text \<open>One iteration over the classes; \<open>Inr None\<close> continues with the next one.\<close>

definition try_class ::
  "db_codec \<Rightarrow> storage_pool \<Rightarrow> 32 block \<Rightarrow> byte \<Rightarrow> alloc_state \<Rightarrow> ((alloc_error + disk_offset option) \<times> alloc_state) option" where
  "try_class cd p size_req class st = do {
     disks_in_class \<leftarrow> disk_count p class;
     if disks_in_class = 0 then Some (Inr None, st)
     else do {
       tier \<leftarrow> h_free_space_tier (al_handler st) class;
       if si_free tier < ucast size_req then Some (Inr None, st)
       else do {
         disk \<leftarrow> select_disk p (al_handler st) class disks_in_class (next_disk_id st);
         let st = st\<lparr>next_disk_id := next_disk_id st + 1\<rparr>;
         sz \<leftarrow> pool_actual_size p class disk size_req;
         disk_size \<leftarrow> size_in_blocks p class disk;
         segment_id \<leftarrow> last_segment st class disk;
         (r, segment_id, h) \<leftarrow> segment_loop disk_size (unat sz) segment_id segment_id (al_handler st);
         let st = set_last_segment class disk segment_id (st\<lparr>al_handler := h\<rparr>);
         case r of
           Inl e \<Rightarrow> Some (Inl (AllocReadError e), st)
         | Inr None \<Rightarrow> Some (Inr None, st)
         | Inr (Some off) \<Rightarrow> do {
             h \<leftarrow> update_allocation_bitmap cd off sz Allocate h;
             Some (Inr (Some off), st\<lparr>al_handler := h\<rparr>) } } } }"

fun try_classes ::
  "db_codec \<Rightarrow> storage_pool \<Rightarrow> 32 block \<Rightarrow> byte list \<Rightarrow> alloc_state \<Rightarrow> ((alloc_error + disk_offset) \<times> alloc_state) option" where
  "try_classes cd p size_req [] st = Some (Inl OutOfSpaceError, st)"
| "try_classes cd p size_req (class # classes) st = do {
     (r, st) \<leftarrow> try_class cd p size_req class st;
     case r of
       Inl e \<Rightarrow> Some (Inl e, st)
     | Inr None \<Rightarrow> try_classes cd p size_req classes st
     | Inr (Some off) \<Rightarrow> Some (Inr off, st) }"

definition dmu_allocate ::
  "db_codec \<Rightarrow> storage_pool \<Rightarrow> byte option list list \<Rightarrow> byte \<Rightarrow> 32 block \<Rightarrow> alloc_state \<Rightarrow> ((alloc_error + disk_offset) \<times> alloc_state) option" where
  "dmu_allocate cd p alloc_strategy storage_preference size_req st = do {
     assert_that (unat storage_preference < NUM_STORAGE_CLASSES);
     strategy \<leftarrow> nth_opt alloc_strategy (unat storage_preference);
     try_classes cd p size_req (List.map_filter id strategy) st }"

definition allocate_raw_at ::
  "db_codec \<Rightarrow> storage_pool \<Rightarrow> disk_offset \<Rightarrow> 32 block \<Rightarrow> alloc_state \<Rightarrow> ((alloc_error + unit) \<times> alloc_state) option" where
  "allocate_raw_at cd p off size_req st = do {
     num_disks \<leftarrow> pool_num_disks p (storage_class off) (disk_id off);
     sz \<leftarrow> block_mul size_req (word_of_nat num_disks);
     let sid = segment_get off;
     slots \<leftarrow> nth_opt (allocation_data st) (unat (storage_class off));
     slot \<leftarrow> nth_opt slots (unat (disk_id off));
     r \<leftarrow> get_allocation_bitmap sid (al_handler st);
     case r of
       Inl e \<Rightarrow> Some (Inl (AllocReadError e), st)
     | Inr h \<Rightarrow> do {
         a \<leftarrow> allocators h sid;
         (ok, a) \<leftarrow> allocate_at a (unat sz) (unat (segment_block_offset off));
         let h = h\<lparr>allocators := (allocators h)(sid \<mapsto> a)\<rparr>;
         if ok then do {
           h \<leftarrow> update_allocation_bitmap cd off sz Allocate h;
           Some (Inr (), set_last_segment (storage_class off) (disk_id off) sid (st\<lparr>al_handler := h\<rparr>)) }
         else Some (Inl (RawAllocationError off sz), st\<lparr>al_handler := h\<rparr>) } }"

subsection \<open>Segments of a disk\<close>

lemma segment_inside:
  assumes "segment_wf s" "off < SEGMENT_SIZE"
  shows "\<exists>d. segment_disk_offset s (word_of_nat off) = Some d \<and> segment_get d = s \<and> unat (segment_block_offset d) = off
    \<and> storage_class d = storage_class s \<and> disk_id d = disk_id s \<and> class_disk_id d = class_disk_id s"
proof -
  define w where "w = (word_of_nat off :: 32 word)"
  have off: "unat w = off" using assms(2) by (simp add: w_def unat_of_nat SEGMENT_SIZE_def SEGMENT_SIZE_LOG_2_def)
  have o: "bit w i \<Longrightarrow> i < 18" for i
    using bits_below [of w 18 i] assms(2) off by (simp add: SEGMENT_SIZE_def SEGMENT_SIZE_LOG_2_def)
  have s: "bit s i \<Longrightarrow> 18 \<le> i" for i using segment_wf_bits [OF assms(1)] .
  have uo: "unat (ucast w :: 64 word) = off"
    using off unsigned_less [of w, where ?'a = nat] by (simp add: unsigned_ucast_eq take_bit_nat_eq_self)
  have room: "unat s + off < 2 ^ 64"
  proof -
    obtain k where k: "unat s = SEGMENT_SIZE * k" using assms(1) by (auto simp: segment_wf_dvd)
    have "SEGMENT_SIZE * k < SEGMENT_SIZE * 2 ^ 46" using k unsigned_less [of s, where ?'a = nat] by (simp add: SEGMENT_SIZE_def SEGMENT_SIZE_LOG_2_def)
    then have "k + 1 \<le> 2 ^ 46" by simp
    then have "SEGMENT_SIZE * (k + 1) \<le> SEGMENT_SIZE * 2 ^ 46" by (rule mult_le_mono2)
    then show ?thesis using k assms(2) by (simp add: SEGMENT_SIZE_def SEGMENT_SIZE_LOG_2_def)
  qed
  have "s AND ucast w = 0" by (rule bit_eqI) (auto simp: bit_simps dest!: s o)
  then have d: "s + ucast w = s OR ucast w" by (simp add: disjunctive_add_eq_or)
  let ?d = "s OR ucast w :: 64 word"
  have "segment_get ?d = s"
    by (rule bit_eqI) (use s o in \<open>force simp: segment_get_def bit_simps dest: bit_imp_le_length\<close>)
  moreover have "segment_block_offset ?d = w"
    by (rule bit_eqI) (use s o in \<open>force simp: segment_block_offset_def bit_simps\<close>)
  moreover have "storage_class ?d = storage_class s" "disk_id ?d = disk_id s" "class_disk_id ?d = class_disk_id s"
    by (rule bit_eqI; use o in \<open>force simp: storage_class_def disk_id_def class_disk_id_def bit_simps\<close>)+
  ultimately show ?thesis using room off uo d by (simp add: segment_disk_offset_def flip: w_def)
qed

text \<open>The segments of a disk are numbered; \<open>next\<close> goes around.\<close>

definition on_disk :: "64 block \<Rightarrow> segment_id \<Rightarrow> bool" where
  "on_disk disk_size s \<longleftrightarrow> segment_wf s \<and> (block_offset s = 0 \<or> unat (block_offset s) < unat disk_size)"

definition same_disk :: "segment_id \<Rightarrow> segment_id \<Rightarrow> bool" where
  "same_disk s t \<longleftrightarrow> storage_class s = storage_class t \<and> disk_id s = disk_id t"

definition seg_count :: "64 block \<Rightarrow> nat" where
  "seg_count disk_size = max 1 ((unat disk_size + SEGMENT_SIZE - 1) div SEGMENT_SIZE)"

definition seg_index :: "segment_id \<Rightarrow> nat" where
  "seg_index s = unat (block_offset s) div SEGMENT_SIZE"

lemma SEGMENT_SIZE_pos [simp]: "0 < SEGMENT_SIZE"
  by (simp add: SEGMENT_SIZE_def)

lemma block_offset_multiple: "segment_wf s \<Longrightarrow> unat (block_offset s) = seg_index s * SEGMENT_SIZE"
proof -
  assume wf: "segment_wf s"
  have "SEGMENT_SIZE dvd unat (s AND NOT (mask 52))"
  proof -
    have "take_bit 18 (s AND NOT (mask 52)) = 0" by (rule bit_eqI) (auto simp: bit_simps)
    then have "segment_wf (s AND NOT (mask 52))"
      by (intro iffD2 [OF segment_wf_def] bit_eqI) (auto simp: segment_get_def bit_simps)
    then show ?thesis by (simp add: segment_wf_dvd)
  qed
  then have "SEGMENT_SIZE dvd unat (block_offset s)"
    using wf high_low_sum(2) [of s] by (metis dvd_add_right_iff segment_wf_dvd)
  then show ?thesis by (simp add: seg_index_def)
qed

lemma segment_eqI: "segment_wf s \<Longrightarrow> segment_wf t \<Longrightarrow> same_disk s t \<Longrightarrow> seg_index s = seg_index t \<Longrightarrow> s = t"
proof -
  assume a: "segment_wf s" "segment_wf t" "same_disk s t" "seg_index s = seg_index t"
  then have "block_offset s = block_offset t" by (simp add: word_unat_eq_iff block_offset_multiple)
  then have "disk_offset_new (storage_class t) (disk_id t) (block_offset t) = Some s"
    using a(3) disk_offset_decompose [of s] unfolding same_disk_def by metis
  then show "s = t" using disk_offset_decompose [of t] by (metis option.inject)
qed

lemma on_disk_index: "on_disk disk_size s \<Longrightarrow> seg_index s < seg_count disk_size"
proof -
  assume od: "on_disk disk_size s"
  show ?thesis
  proof (cases "block_offset s = 0")
    case False
    then have "seg_index s * SEGMENT_SIZE + 1 \<le> unat disk_size" using od block_offset_multiple [of s] by (simp add: on_disk_def)
    then have "(seg_index s + 1) * SEGMENT_SIZE \<le> unat disk_size + SEGMENT_SIZE - 1" by (simp add: algebra_simps)
    then have "seg_index s + 1 \<le> (unat disk_size + SEGMENT_SIZE - 1) div SEGMENT_SIZE" by (simp add: less_eq_div_iff_mult_less_eq)
    then show ?thesis by (simp add: seg_count_def)
  qed (simp add: seg_index_def seg_count_def)
qed

lemma segment_next_index:
  assumes "on_disk disk_size s" "unat disk_size \<le> 2 ^ 52"
  obtains t where "segment_next s disk_size = Some t" "on_disk disk_size t" "same_disk s t" "seg_index t = (seg_index s + 1) mod seg_count disk_size"
proof (cases "unat (block_offset s) + SEGMENT_SIZE < unat disk_size")
  case True
  obtain t where t: "segment_next s disk_size = Some t" "segment_wf t" "storage_class t = storage_class s" "disk_id t = disk_id s"
    "unat (block_offset t) = unat (block_offset s) + SEGMENT_SIZE"
    using segment_next_forward [of s disk_size] assms True by (auto simp: on_disk_def)
  have od: "on_disk disk_size t" using t True by (simp add: on_disk_def)
  have "seg_index t = seg_index s + 1" using t(5) by (simp add: seg_index_def div_add_self2)
  then show ?thesis using that [of t] t od on_disk_index [OF od] by (simp add: same_disk_def)
next
  case False
  then have le: "unat disk_size \<le> unat (block_offset s) + SEGMENT_SIZE" by simp
  obtain t where t: "segment_next s disk_size = Some t" "segment_wf t" "storage_class t = storage_class s" "disk_id t = disk_id s" "block_offset t = 0"
    using segment_next_wrap [OF le] by auto
  have "unat (block_offset s) = seg_index s * SEGMENT_SIZE" using block_offset_multiple [of s] assms(1) by (simp add: on_disk_def)
  moreover have "(seg_index s + 2) * SEGMENT_SIZE = seg_index s * SEGMENT_SIZE + SEGMENT_SIZE + SEGMENT_SIZE" by simp
  ultimately have "unat disk_size + SEGMENT_SIZE - 1 < (seg_index s + 2) * SEGMENT_SIZE"
    using le SEGMENT_SIZE_pos by linarith
  then have "(unat disk_size + SEGMENT_SIZE - 1) div SEGMENT_SIZE < seg_index s + 2" by (simp add: div_less_iff_less_mult)
  then have "seg_count disk_size = seg_index s + 1" using on_disk_index [OF assms(1)] by (simp add: seg_count_def)
  then show ?thesis using that [of t] t by (simp add: same_disk_def on_disk_def seg_index_def)
qed



subsection \<open>Loading and filling the bitmaps\<close>

text \<open>The bitmaps in the root tree are as long as a segment at most.\<close>

definition readable :: "handler \<Rightarrow> bool" where
  "readable h \<longleftrightarrow> (\<exists>cur. root_tree_inner h = Some cur \<and> (\<forall>sid v. cur (id_to_key sid) = Inr (Some v) \<longrightarrow> length v \<le> SEGMENT_SIZE_BYTES))"

lemma get_allocation_bitmap_total:
  assumes inv: "handler_inv h" and rd: "readable h"
  shows "\<exists>r. get_allocation_bitmap sid h = Some r"
proof -
  obtain cur where cur: "root_tree_inner h = Some cur" "\<And>sid v. cur (id_to_key sid) = Inr (Some v) \<Longrightarrow> length v \<le> SEGMENT_SIZE_BYTES"
    using rd by (auto simp: readable_def)
  have at: "\<exists>b a'. allocate_at (segment_allocator_new bits) (unat sz) (unat (segment_block_offset offset)) = Some (b, a')"
    if old: "old_root_allocation h = Some (offset, sz)" for bits offset sz
  proof -
    have "0 < unat sz" "unat (segment_block_offset offset) + unat sz < 2 ^ 32"
      using handler_invD(5) [OF inv] old SEGMENT_SIZE_less by (auto simp: old_root_ok_def)
    then show ?thesis using sga.alloc_at_law [OF allocator_new_spec] by blast
  qed
  have a: "\<exists>a. (case old_root_allocation h of
      Some (offset, sz) \<Rightarrow> if segment_get offset = sid
        then map_option snd (allocate_at (segment_allocator_new bits) (unat sz) (unat (segment_block_offset offset)))
        else Some (segment_allocator_new bits)
    | None \<Rightarrow> Some (segment_allocator_new bits)) = Some a" for bits
    using at by (cases "old_root_allocation h") (auto, metis)
  show ?thesis
  proof (cases "allocators h sid")
    case None
    show ?thesis
    proof (cases "cur (id_to_key sid)")
      case (Inr v)
      have len: "case v of None \<Rightarrow> True | Some s \<Rightarrow> length s \<le> SEGMENT_SIZE_BYTES"
        using cur(2) [of sid] Inr by (auto split: option.splits)
      show ?thesis
      proof (cases "case root_tree_snapshot h of None \<Rightarrow> Inr None | Some tree \<Rightarrow> tree (id_to_key sid)")
        case (Inr w)
        obtain a where "(case old_root_allocation h of
            Some (offset, sz) \<Rightarrow> if segment_get offset = sid
              then map_option snd (allocate_at (segment_allocator_new (\<lambda>i. bits_of v i \<or> bits_of w i)) (unat sz) (unat (segment_block_offset offset)))
              else Some (segment_allocator_new (\<lambda>i. bits_of v i \<or> bits_of w i))
          | None \<Rightarrow> Some (segment_allocator_new (\<lambda>i. bits_of v i \<or> bits_of w i))) = Some a" using a by blast
        then show ?thesis using None cur(1) \<open>cur (id_to_key sid) = Inr v\<close> len Inr
          by (simp add: get_allocation_bitmap_def Let_def)
      qed (use None cur(1) \<open>cur (id_to_key sid) = Inr v\<close> len in \<open>simp add: get_allocation_bitmap_def Let_def\<close>)
    qed (use None cur(1) in \<open>simp add: get_allocation_bitmap_def Let_def\<close>)
  qed (simp add: get_allocation_bitmap_def)
qed

lemma get_allocation_bitmap_keeps:
  "get_allocation_bitmap sid h = Some (Inr h') \<Longrightarrow> allocators h s = Some a \<Longrightarrow> allocators h' s = Some a"
  by (auto simp: get_allocation_bitmap_def Let_def split: if_splits bind_splits sum.splits)

lemma same_handler_bits:
  assumes "h' = h\<lparr>allocators := x\<rparr>"
  shows "in_use h' = in_use h" "Handler.pending h' = Handler.pending h" "next_bits h' = next_bits h" "root_bits h' = root_bits h" "snapshot_bits h' = snapshot_bits h"
    "old_root_bits h' = old_root_bits h" "old_root_ok h' = old_root_ok h"
proof -
  have sb: "root_bits h' = root_bits h" "snapshot_bits h' = snapshot_bits h" "old_root_bits h' = old_root_bits h" "old_root_ok h' = old_root_ok h"
    by (rule same_bits; simp add: assms)+
  have "Handler.pending h' = Handler.pending h" "next_bits h' = next_bits h" by (auto simp: fun_eq_iff next_bits_def Handler.pending_def assms)
  then show "in_use h' = in_use h" "Handler.pending h' = Handler.pending h" "next_bits h' = next_bits h" "root_bits h' = root_bits h" "snapshot_bits h' = snapshot_bits h"
    "old_root_bits h' = old_root_bits h" "old_root_ok h' = old_root_ok h"
    using sb by (simp_all add: in_use_def fun_eq_iff)
qed

lemma set_allocator_inv:
  assumes "handler_inv h" "allocators h sid = Some a" "allocator_inv a'" "\<And>i. sa_data a i \<Longrightarrow> sa_data a' i"
  shows "handler_inv (h\<lparr>allocators := (allocators h)(sid \<mapsto> a')\<rparr>)"
proof -
  note sb = same_handler_bits [where h = h and x = "(allocators h)(sid \<mapsto> a')", OF refl]
  show ?thesis using handler_invD [OF assms(1)] assms(2-4) unfolding handler_inv_def sb by auto
qed

lemma readable_allocators [simp]: "readable (h\<lparr>allocators := x\<rparr>) = readable h"
  by (simp add: readable_def)

subsection \<open>The search ends, and is exhaustive\<close>

definition full :: "handler \<Rightarrow> nat \<Rightarrow> segment_id \<Rightarrow> bool" where
  "full h sz s \<longleftrightarrow> (\<exists>a. allocators h s = Some a \<and> (\<forall>off. \<not> free_range a off sz))"

definition steps_left :: "64 block \<Rightarrow> segment_id \<Rightarrow> segment_id \<Rightarrow> nat" where
  "steps_left disk_size first t = (seg_index first + seg_count disk_size - 1 - seg_index t) mod seg_count disk_size"

lemma steps_left_next:
  assumes "on_disk disk_size first" "on_disk disk_size s" "seg_index t = (seg_index s + 1) mod seg_count disk_size" "seg_index t \<noteq> seg_index first"
  shows "steps_left disk_size first s = Suc (steps_left disk_size first t)"
proof -
  define n f i where "n = seg_count disk_size" and "f = seg_index first" and "i = seg_index s"
  have b: "f < n" "i < n" using assms(1,2) on_disk_index by (auto simp: n_def f_def i_def)
  have t: "seg_index t = (i + 1) mod n" "(i + 1) mod n \<noteq> f" using assms(3,4) by (simp_all add: n_def f_def i_def)
  have "(f + n - 1 - i) mod n = Suc ((f + n - 1 - (i + 1) mod n) mod n)"
  proof (cases "i + 1 = n")
    case True
    then have "f \<noteq> 0" "f + n - 1 - i = f" "f + n - 1 = (f - 1) + n" using t(2) b by auto
    then show ?thesis using True b by (simp only: mod_self diff_zero mod_add_self2) simp
  next
    case False
    then have m: "(i + 1) mod n = i + 1" using b by simp
    show ?thesis
    proof (cases "f \<le> i")
      case True
      then have "f + n - 1 - i < n" "f + n - 1 - (i + 1) < n" "f + n - 1 - i = Suc (f + n - 1 - (i + 1))" using b False by auto
      then show ?thesis unfolding m by simp
    next
      case False
      then have "i + 1 < f" using t(2) m by auto
      then have e: "f + n - 1 - i = (f - 1 - i) + n" "f + n - 1 - (i + 1) = (f - 2 - i) + n" "f - 1 - i = Suc (f - 2 - i)" by auto
      have "(f + n - 1 - i) mod n = f - 1 - i" "(f + n - 1 - (i + 1)) mod n = f - 2 - i"
        unfolding e(1,2) using b by (simp_all only: mod_add_self2, simp_all)
      then show ?thesis unfolding m using e(3) by simp
    qed
  qed
  then show ?thesis using t by (simp add: steps_left_def flip: n_def f_def i_def)
qed

lemma steps_left_inj:
  assumes "on_disk disk_size first" "on_disk disk_size s" "on_disk disk_size t" "steps_left disk_size first s = steps_left disk_size first t"
  shows "seg_index s = seg_index t"
proof -
  define n f i j where "n = seg_count disk_size" and "f = seg_index first" and "i = seg_index s" and "j = seg_index t"
  have b: "f < n" "i < n" "j < n" using assms(1-3) on_disk_index by (auto simp: n_def f_def i_def j_def)
  have split: "(f + n - 1 - x) mod n = (if x < f then f - 1 - x else f + n - 1 - x)" if "x < n" for x
  proof (cases "x < f")
    case True
    then have e: "f + n - 1 - x = (f - 1 - x) + n" by simp
    have "(f + n - 1 - x) mod n = f - 1 - x" using True b by (subst e) (simp only: mod_add_self2, simp)
    then show ?thesis using True by simp
  qed (use that b in simp)
  have "(if i < f then f - 1 - i else f + n - 1 - i) = (if j < f then f - 1 - j else f + n - 1 - j)"
    using assms(4) split b by (simp add: steps_left_def flip: n_def f_def i_def j_def)
  then have "i = j" using b by (auto split: if_splits)
  then show ?thesis by (simp add: i_def j_def)
qed

lemma steps_left_first: "\<not> steps_left disk_size first first < steps_left disk_size first t"
proof -
  have "steps_left disk_size first first = seg_count disk_size - 1" by (simp add: steps_left_def seg_count_def)
  moreover have "steps_left disk_size first t < seg_count disk_size" by (simp add: steps_left_def seg_count_def)
  ultimately show ?thesis by simp
qed



text \<open>What the search promises: it ends on a segment of the disk; the blocks it returns were in no use and are marked in the
  cached allocator; and it gives up only when no segment of the disk has a free range of the size.\<close>

definition search_result :: "64 block \<Rightarrow> nat \<Rightarrow> segment_id \<Rightarrow> handler \<Rightarrow> (handler_error + disk_offset option) \<Rightarrow> segment_id \<Rightarrow> handler \<Rightarrow> bool" where
  "search_result disk_size sz first h r s' h' \<longleftrightarrow> on_disk disk_size s' \<and> same_disk first s' \<and> handler_inv h' \<and> h' = h\<lparr>allocators := allocators h'\<rparr>
     \<and> (case r of
          Inl e \<Rightarrow> True
        | Inr None \<Rightarrow> (\<forall>t. on_disk disk_size t \<and> same_disk first t \<longrightarrow> full h' sz t)
        | Inr (Some off) \<Rightarrow> segment_get off = s' \<and> storage_class off = storage_class first \<and> disk_id off = disk_id first
            \<and> class_disk_id off = class_disk_id s' \<and> unat (segment_block_offset off) + sz \<le> SEGMENT_SIZE
            \<and> (\<exists>a. allocators h' s' = Some a \<and> (\<forall>i. unat (segment_block_offset off) \<le> i \<and> i < unat (segment_block_offset off) + sz
                \<longrightarrow> \<not> in_use h s' i \<and> sa_data a i)))"

lemma segment_loop_spec:
  assumes "handler_inv h" "readable h" "unat disk_size \<le> 2 ^ 52" "0 < sz" "on_disk disk_size first" "on_disk disk_size s" "same_disk first s"
    "steps_left disk_size first s = k" "\<And>t. on_disk disk_size t \<Longrightarrow> same_disk first t \<Longrightarrow> k < steps_left disk_size first t \<Longrightarrow> full h sz t"
  shows "\<exists>r s' h'. segment_loop disk_size sz first s h = Some (r, s', h') \<and> search_result disk_size sz first h r s' h'"
  using assms
proof (induction k arbitrary: s h rule: less_induct)
  case (less k)
  note inv = less.prems(1) and rd = less.prems(2) and ds = less.prems(3) and sz = less.prems(4) and firstd = less.prems(5)
    and sd = less.prems(6,7) and k = less.prems(8) and tried = less.prems(9)
  obtain g where g: "get_allocation_bitmap s h = Some g" using get_allocation_bitmap_total [OF inv rd] by blast
  show ?case
  proof (cases g)
    case (Inl e)
    then have "segment_loop disk_size sz first s h = Some (Inl e, s, h)" using g by (subst segment_loop.simps) simp
    then show ?thesis using inv sd by (simp add: search_result_def)
  next
    case (Inr h1)
    note g1 = get_allocation_bitmap_spec [OF inv g [unfolded Inr]]
    obtain a where a: "allocators h1 s = Some a" using g1(2) by blast
    note ainv = handler_invD(2) [OF g1(1) a]
    obtain x a' where al: "allocate a sz = Some (x, a')" using sga.alloc_law [OF ainv sz] by blast
    note spec = allocate_spec [OF ainv sz, unfolded al]
    define h2 where "h2 = h1\<lparr>allocators := (allocators h1)(s \<mapsto> a')\<rparr>"
    have h2: "h2 = h\<lparr>allocators := allocators h2\<rparr>" using g1(3) by (metis (no_types, lifting) h2_def handler.surjective handler.update_convs(8))
    have inv2: "handler_inv h2"
      unfolding h2_def using spec by (intro set_allocator_inv [OF g1(1) a]) (auto simp: ainv split: option.splits)
    have a2: "allocators h2 s = Some a'" by (simp add: h2_def)
    show ?thesis
    proof (cases x)
      case (Some o')
      have range: "free_range a o' sz" and data: "sa_data a' = (\<lambda>i. sa_data a i \<or> o' \<le> i \<and> i < o' + sz)" using spec Some by auto
      then have "o' < SEGMENT_SIZE" using sz by (auto simp: free_range_def)
      then obtain off where off: "segment_disk_offset s (word_of_nat o') = Some off" "segment_get off = s" "unat (segment_block_offset off) = o'"
        "storage_class off = storage_class s" "disk_id off = disk_id s" "class_disk_id off = class_disk_id s"
        using segment_inside [of s o'] sd(1) by (auto simp: on_disk_def)
      have loop: "segment_loop disk_size sz first s h = Some (Inr (Some off), s, h2)"
        using g Inr a al Some off(1) by (subst segment_loop.simps) (simp add: h2_def Let_def)
      have use: "\<not> in_use h s i \<and> sa_data a' i" if "o' \<le> i \<and> i < o' + sz" for i
      proof -
        have "\<not> sa_data a i" "i < SEGMENT_SIZE" using range that by (auto simp: free_range_def)
        then show ?thesis using handler_invD(3) [OF g1(1) a] g1(4) data that by auto
      qed
      have "search_result disk_size sz first h (Inr (Some off)) s h2"
        unfolding search_result_def using sd inv2 h2 off range use a2 by (simp add: same_disk_def free_range_def)
      then show ?thesis using loop by blast
    next
      case None
      then have full_s: "full h2 sz s" using spec a2 by (auto simp: full_def)
      have keep: "full h2 sz t" if "full h sz t" for t
      proof (cases "t = s")
        case False
        obtain b where b: "allocators h t = Some b" "\<forall>off. \<not> free_range b off sz" using \<open>full h sz t\<close> by (auto simp: full_def)
        then have "allocators h2 t = Some b"
          using get_allocation_bitmap_keeps [OF g [unfolded Inr] b(1)] False by (simp add: h2_def)
        then show ?thesis using b(2) by (auto simp: full_def)
      qed (use full_s in simp)
      obtain t where t: "segment_next s disk_size = Some t" "on_disk disk_size t" "same_disk s t"
        "seg_index t = (seg_index s + 1) mod seg_count disk_size"
        using segment_next_index [OF sd(1) ds] by blast
      have loop: "segment_loop disk_size sz first s h = (if t = first then Some (Inr None, s, h2) else segment_loop disk_size sz first t h2)"
        using g Inr a al None t(1) by (subst segment_loop.simps) (simp add: h2_def Let_def)
      have here: "full h2 sz u" if "on_disk disk_size u" "same_disk first u" "k \<le> steps_left disk_size first u" for u
      proof (cases "steps_left disk_size first u = k")
        case True
        then have "u = s" using steps_left_inj [OF firstd that(1) sd(1)] k that sd by (intro segment_eqI) (auto simp: on_disk_def same_disk_def)
        then show ?thesis using full_s by simp
      next
        case False
        then show ?thesis using keep [OF tried [OF that(1,2)]] that(3) by simp
      qed
      show ?thesis
      proof (cases "t = first")
        case True
        have "k = 0"
        proof -
          have "seg_index first = (seg_index s + 1) mod seg_count disk_size" using t(4) True by simp
          moreover have "seg_index s < seg_count disk_size" using on_disk_index [OF sd(1)] .
          ultimately have "(seg_index first + seg_count disk_size - 1 - seg_index s) mod seg_count disk_size = 0"
            by (cases "seg_index s + 1 = seg_count disk_size") auto
          then show ?thesis using k by (simp add: steps_left_def)
        qed
        then have "search_result disk_size sz first h (Inr None) s h2"
          unfolding search_result_def using sd inv2 h2 here by simp
        then show ?thesis using loop True by auto
      next
        case False
        have ne: "seg_index t \<noteq> seg_index first"
          using False segment_eqI [of t first] t(2,3) firstd sd by (auto simp: on_disk_def same_disk_def)
        have st: "k = Suc (steps_left disk_size first t)" using steps_left_next [OF firstd sd(1) t(4) ne] k by simp
        have rd2: "readable h2" using rd by (subst h2) simp
        have sf: "same_disk first t" using t(3) sd(2) by (simp add: same_disk_def)
        have full_t: "full h2 sz u" if "on_disk disk_size u" "same_disk first u" "steps_left disk_size first t < steps_left disk_size first u" for u
          using here [OF that(1,2)] that(3) st by simp
        obtain r s' h' where r: "segment_loop disk_size sz first t h2 = Some (r, s', h')" "search_result disk_size sz first h2 r s' h'"
          using less.IH [of "steps_left disk_size first t" h2 t] st inv2 rd2 ds sz firstd t(2) sf full_t by blast
        have use: "in_use h2 = in_use h" using same_handler_bits(1) [OF h2] .
        have eq: "h' = h\<lparr>allocators := allocators h'\<rparr>"
        proof (rule trans)
          show "h' = h2\<lparr>allocators := allocators h'\<rparr>" using r(2) unfolding search_result_def by blast
          show "h2\<lparr>allocators := allocators h'\<rparr> = h\<lparr>allocators := allocators h'\<rparr>" by (subst h2) simp
        qed
        have "search_result disk_size sz first h r s' h'" using r(2) eq unfolding search_result_def use by blast
        then show ?thesis using loop False r(1) by auto
      qed
    qed
  qed
qed



subsection \<open>Choosing a disk\<close>

lemma max_by_key_from_spec:
  assumes "\<forall>y \<in> set ys. f y \<noteq> None" "f x = Some kx"
  shows "\<exists>z kz. max_by_key_from f x kx ys = Some z \<and> z \<in> insert x (set ys) \<and> f z = Some kz \<and> (\<forall>y \<in> insert x (set ys). the (f y) \<le> kz)"
  using assms
proof (induction ys arbitrary: x kx)
  case (Cons y ys)
  obtain ky where ky: "f y = Some ky" using Cons.prems(1) by auto
  show ?case
  proof (cases "kx \<le> ky")
    case True
    then show ?thesis using Cons.IH [of y ky] Cons.prems ky by fastforce
  next
    case False
    then show ?thesis using Cons.IH [of x kx] Cons.prems ky by fastforce
  qed
qed simp

lemma max_by_key_spec:
  assumes "\<forall>y \<in> set xs. f y \<noteq> None" "xs \<noteq> []"
  shows "\<exists>z kz. max_by_key f xs = Some z \<and> z \<in> set xs \<and> f z = Some kz \<and> (\<forall>y \<in> set xs. the (f y) \<le> kz)"
proof (cases xs)
  case (Cons x ys)
  then obtain kx where "f x = Some kx" using assms(1) by auto
  then show ?thesis using max_by_key_from_spec [of ys f x kx] assms(1) Cons by simp
qed (use assms in simp)

lemma select_disk_spec:
  assumes n: "disks \<noteq> 0" and f: "\<And>d. d < disks \<Longrightarrow> effective_free p h class d \<noteq> None"
  shows "\<exists>d k. select_disk p h class disks next_id = Some d \<and> d < disks \<and> effective_free p h class d = Some k
    \<and> (\<forall>d' < disks. the (effective_free p h class d') \<le> k)"
proof -
  define s where "s = unat next_id mod unat disks"
  define xs where "xs = map (word_of_nat :: nat \<Rightarrow> 16 word) ([s..<unat disks] @ [0..<s])"
  have pos: "0 < unat disks" using n by (simp add: unat_gt_0)
  then have s: "s < unat disks" by (simp add: s_def)
  have small: "unat (word_of_nat i :: 16 word) = i" if "i < unat disks" for i
    using that unsigned_less [of disks, where ?'a = nat] by (simp add: unat_of_nat)
  have set: "set xs = {d. d < disks}"
  proof (rule set_eqI)
    fix d
    have "set ([s..<unat disks] @ [0..<s]) = {0..<unat disks}" using s by auto
    then have "d \<in> set xs \<longleftrightarrow> (\<exists>i < unat disks. d = word_of_nat i)" unfolding xs_def set_map by auto
    also have "\<dots> \<longleftrightarrow> d < disks"
    proof
      assume "d < disks"
      then show "\<exists>i < unat disks. d = word_of_nat i" by (intro exI [of _ "unat d"]) (simp add: word_less_nat_alt)
    qed (auto simp: word_less_nat_alt small)
    finally show "d \<in> set xs \<longleftrightarrow> d \<in> {d. d < disks}" by simp
  qed
  have "xs \<noteq> []" using s by (auto simp: xs_def)
  then have "\<exists>z kz. max_by_key (effective_free p h class) xs = Some z \<and> z \<in> set xs \<and> effective_free p h class z = Some kz
      \<and> (\<forall>y \<in> set xs. the (effective_free p h class y) \<le> kz)"
    using f set by (intro max_by_key_spec) auto
  moreover have "select_disk p h class disks next_id = max_by_key (effective_free p h class) xs"
    by (simp add: select_disk_def Let_def xs_def s_def)
  ultimately show ?thesis by (simp add: set)
qed

subsection \<open>The invariant of the allocation state\<close>

definition pool_ok :: "storage_pool \<Rightarrow> bool" where
  "pool_ok p \<longleftrightarrow> length (sp_tiers p) = NUM_STORAGE_CLASSES \<and> (\<forall>tier \<in> set (sp_tiers p). length (st_devs tier) \<le> 1024)
     \<and> (\<forall>class disk dv. pool_dev p class disk = Some dv \<longrightarrow> (\<exists>n. dev_size dv = Some n \<and> n \<le> 2 ^ 52))"

definition slot :: "alloc_state \<Rightarrow> byte \<Rightarrow> 16 word \<Rightarrow> segment_id option option" where
  "slot st class disk = do { slots \<leftarrow> nth_opt (allocation_data st) (unat class); nth_opt slots (unat disk) }"

definition slots_ok :: "storage_pool \<Rightarrow> alloc_state \<Rightarrow> bool" where
  "slots_ok p st \<longleftrightarrow> (\<forall>class disk. pool_dev p class disk \<noteq> None \<longrightarrow> slot st class disk \<noteq> None)
     \<and> (\<forall>class disk s. slot st class disk = Some (Some s) \<longrightarrow> storage_class s = class \<and> disk_id s = disk
         \<and> (\<forall>disk_size. size_in_blocks p class disk = Some disk_size \<longrightarrow> on_disk disk_size s))"

text \<open>The handler can read its bitmaps and knows the free space of every disk.\<close>

definition handler_ready :: "storage_pool \<Rightarrow> handler \<Rightarrow> bool" where
  "handler_ready p h \<longleftrightarrow> readable h \<and> length (free_space_tier h) = NUM_STORAGE_CLASSES
     \<and> (\<forall>class disk. pool_dev p class disk \<noteq> None \<longrightarrow> effective_free p h class disk \<noteq> None)"

definition alloc_inv :: "storage_pool \<Rightarrow> alloc_state \<Rightarrow> bool" where
  "alloc_inv p st \<longleftrightarrow> handler_inv (al_handler st) \<and> slots_ok p st"

definition codec_total :: "db_codec \<Rightarrow> bool" where
  "codec_total cd \<longleftrightarrow> (\<forall>info. ser_storage_info cd info \<noteq> None)"

lemma segment_get_fields: "storage_class (segment_get d) = storage_class d" "disk_id (segment_get d) = disk_id d"
  by (rule bit_eqI; simp add: storage_class_def disk_id_def segment_get_def bit_simps)+

lemma field_bounds: "unat (storage_class d) < 4" "unat (disk_id d) < 1024"
proof -
  have "take_bit 2 (storage_class d) = storage_class d" "take_bit 10 (disk_id d) = disk_id d"
    by (rule bit_eqI; auto simp: storage_class_def disk_id_def bit_simps)+
  then show "unat (storage_class d) < 4" "unat (disk_id d) < 1024" by (auto dest: unat_take_bit_bound)
qed

lemma class_disk_id_fields: "class_disk_id d = construct_disk_id (storage_class d) (disk_id d)"
  by (rule class_disk_id_new [OF field_bounds disk_offset_decompose])

lemma pool_dev_bounds:
  assumes "pool_ok p" "pool_dev p class disk = Some dv"
  shows "unat class < 4" "unat disk < 1024"
proof -
  have "unat class < length (sp_tiers p)" "unat disk < length (st_devs (sp_tiers p ! unat class))"
    using assms(2) by (auto simp: pool_dev_def bind_eq_Some_conv nth_opt_Some)
  moreover have "length (st_devs (sp_tiers p ! unat class)) \<le> 1024" "length (sp_tiers p) = 4"
    using assms(1) calculation(1) nth_mem by (auto simp: pool_ok_def NUM_STORAGE_CLASSES_def)
  ultimately show "unat class < 4" "unat disk < 1024" by linarith+
qed

lemma last_segment_ok:
  assumes "pool_ok p" "slots_ok p st" "pool_dev p class disk = Some dv" "size_in_blocks p class disk = Some disk_size"
  shows "\<exists>s. last_segment st class disk = Some s \<and> storage_class s = class \<and> disk_id s = disk \<and> on_disk disk_size s"
proof -
  obtain x where x: "slot st class disk = Some x" using assms(2,3) unfolding slots_ok_def by blast
  note b = pool_dev_bounds [OF assms(1,3)]
  show ?thesis
  proof (cases x)
    case (Some s)
    then have "last_segment st class disk = Some s" using x by (auto simp: last_segment_def slot_def split: bind_splits)
    then show ?thesis using assms(2,4) x Some by (auto simp: slots_ok_def)
  next
    case None
    obtain t where t: "disk_offset_new class disk 0 = Some t" using disk_offset_new_Some_iff [of "class" disk 0] by auto
    note f = disk_offset_new_fields [OF b t]
    have "last_segment st class disk = Some (segment_get t)" using x None t by (auto simp: last_segment_def slot_def split: bind_splits)
    moreover have "block_offset (segment_get t) = 0"
      using f(3) by (auto simp: block_offset_def segment_get_def bit_eq_iff bit_simps)
    ultimately show ?thesis using f by (simp add: segment_get_fields on_disk_def)
  qed
qed

lemma set_last_segment_ok:
  assumes "slots_ok p st" "slot st class disk \<noteq> None" "storage_class s = class" "disk_id s = disk"
    "\<And>disk_size. size_in_blocks p class disk = Some disk_size \<Longrightarrow> on_disk disk_size s"
  shows "slots_ok p (set_last_segment class disk s st)"
proof -
  have b: "unat class < length (allocation_data st)" "unat disk < length (allocation_data st ! unat class)"
    using assms(2) by (auto simp: slot_def bind_eq_Some_conv nth_opt_Some)
  have "slot (set_last_segment class disk s st) c d = (if c = class \<and> d = disk then Some (Some s) else slot st c d)" for c d
  proof (cases "c = class")
    case True
    then show ?thesis using b by (auto simp: slot_def set_last_segment_def nth_opt_def word_unat_eq_iff)
  next
    case False
    then have "unat class \<noteq> unat c" by (simp add: word_unat_eq_iff)
    then show ?thesis using False by (simp add: slot_def set_last_segment_def nth_opt_def)
  qed
  then show ?thesis using assms unfolding slots_ok_def by auto
qed

lemma slots_ok_handler [simp]: "slots_ok p (st\<lparr>al_handler := h\<rparr>) = slots_ok p st" "slots_ok p (st\<lparr>next_disk_id := n\<rparr>) = slots_ok p st"
  "slot (st\<lparr>al_handler := h\<rparr>) c d = slot st c d" "slot (st\<lparr>next_disk_id := n\<rparr>) c d = slot st c d"
  "last_segment (st\<lparr>next_disk_id := n\<rparr>) c d = last_segment st c d"
  by (simp_all add: slots_ok_def slot_def last_segment_def)

lemma set_last_segment_simps [simp]: "al_handler (set_last_segment c d s st) = al_handler st"
  "set_last_segment c d s (st\<lparr>al_handler := h\<rparr>) = (set_last_segment c d s st)\<lparr>al_handler := h\<rparr>"
  by (simp_all add: set_last_segment_def)

lemma update_allocation_bitmap_total:
  assumes "codec_total cd" "free_space h (class_disk_id off) \<noteq> None" "unat (storage_class off) < length (free_space_tier h)"
  shows "\<exists>h'. update_allocation_bitmap cd off sz act h = Some h'"
proof -
  have ub: "\<exists>m. upsert_bits_msg a b v = Some m" and um: "\<exists>m. upsert_msg a d = Some m" for a b v d
    by (simp_all add: upsert_bits_msg_def upsert_msg_def build_upsert_msg_def Let_def)
  obtain msg where msg: "update_allocation_bitmap_msg off sz act = Some msg" using ub by (simp add: update_allocation_bitmap_msg_def Let_def) blast
  obtain h1 where h1: "account act off sz (h\<lparr>allocations := allocations h + 1\<rparr>) = Some h1"
    using assms(2,3) by (auto simp: account_def nth_opt_def)
  obtain info where info: "free_space h1 (class_disk_id off) = Some info"
    using account_facts(8) [OF h1] assms(2) by auto
  obtain b where b: "ser_storage_info cd info = Some b" using assms(1) by (auto simp: codec_total_def)
  obtain m where "upsert_msg 0 b = Some m" using um by blast
  then have "\<exists>h'. push_messages cd off msg h1 = Some h'" using info b by (simp add: push_messages_def update_storage_info_def)
  then show ?thesis using msg h1 by (simp add: update_allocation_bitmap_def Let_def)
qed

lemma actual_size_ge: "pool_actual_size p class disk sz = Some n \<Longrightarrow> unat sz \<le> unat n"
proof -
  assume "pool_actual_size p class disk sz = Some n"
  then obtain dv where "n = word_of_nat (dev_actual_size dv (unat sz))" "dev_actual_size dv (unat sz) < 2 ^ 32"
    by (auto simp: pool_actual_size_def Let_def split: bind_splits if_splits)
  moreover have "m \<le> dev_actual_size dv m" for m by (cases dv) (simp_all add: mirror_actual_size_def p1_actual_size_def)
  ultimately show ?thesis by (simp add: unat_of_nat)
qed



subsection \<open>Allocation\<close>

text \<open>The blocks of a new object: they lie in one segment, none of them was in use, and they are all that is in use in addition.\<close>

definition allocated :: "storage_pool \<Rightarrow> 32 block \<Rightarrow> disk_offset \<Rightarrow> handler \<Rightarrow> handler \<Rightarrow> bool" where
  "allocated p size_req off h h' \<longleftrightarrow> (\<exists>sz. pool_actual_size p (storage_class off) (disk_id off) size_req = Some sz
     \<and> unat (segment_block_offset off) + unat sz \<le> SEGMENT_SIZE
     \<and> (\<forall>sid i. let new = sid = segment_get off \<and> unat (segment_block_offset off) \<le> i \<and> i < unat (segment_block_offset off) + unat sz
         in (in_use h' sid i \<longleftrightarrow> in_use h sid i \<or> new) \<and> (new \<longrightarrow> \<not> in_use h sid i)))"

definition only_loaded :: "handler \<Rightarrow> handler \<Rightarrow> bool" where
  "only_loaded h h' \<longleftrightarrow> h' = h\<lparr>allocators := allocators h'\<rparr>"

lemma only_loaded_refl [simp]: "only_loaded h h"
  by (simp add: only_loaded_def)

lemma only_loaded_trans: "only_loaded h h' \<Longrightarrow> only_loaded h' h'' \<Longrightarrow> only_loaded h h''"
  unfolding only_loaded_def by (metis (no_types, lifting) handler.surjective handler.update_convs(8))

lemma only_loaded_facts:
  assumes "only_loaded h h'"
  shows "in_use h' = in_use h" "handler_ready p h' = handler_ready p h" "free_space h' = free_space h" "free_space_tier h' = free_space_tier h"
proof -
  have eq: "h' = h\<lparr>allocators := allocators h'\<rparr>" using assms by (simp add: only_loaded_def)
  show "in_use h' = in_use h" by (rule same_handler_bits(1) [OF eq])
  show fs: "free_space h' = free_space h" "free_space_tier h' = free_space_tier h" by (subst eq, simp)+
  have "readable h' = readable h" by (subst eq) simp
  moreover have "effective_free p h' = effective_free p h" using fs by (simp add: effective_free_def h_free_space_disk_def fun_eq_iff)
  ultimately show "handler_ready p h' = handler_ready p h" using fs by (simp add: handler_ready_def)
qed

lemma disk_count_facts:
  assumes "pool_ok p" "unat class < NUM_STORAGE_CLASSES"
  shows "\<exists>disks. disk_count p class = Some disks \<and> (\<forall>disk. pool_dev p class disk \<noteq> None \<longleftrightarrow> disk < disks)"
proof -
  let ?tier = "sp_tiers p ! unat class"
  have c: "unat class < length (sp_tiers p)" using assms by (simp add: pool_ok_def)
  then have "length (st_devs ?tier) \<le> 1024" using assms(1) nth_mem by (simp add: pool_ok_def)
  then have n: "unat (word_of_nat (length (st_devs ?tier)) :: 16 word) = length (st_devs ?tier)" by (simp add: unat_of_nat)
  have "disk_count p class = Some (word_of_nat (length (st_devs ?tier)))" using c by (simp add: disk_count_def nth_opt_def)
  moreover have "pool_dev p class disk \<noteq> None \<longleftrightarrow> disk < word_of_nat (length (st_devs ?tier))" for disk
    using c n by (simp add: pool_dev_def nth_opt_def word_less_nat_alt)
  ultimately show ?thesis by blast
qed

lemma size_in_blocks_ok:
  assumes "pool_ok p" "pool_dev p class disk = Some dv"
  shows "\<exists>n. size_in_blocks p class disk = Some n \<and> unat n \<le> 2 ^ 52"
proof -
  obtain n where n: "dev_size dv = Some n" "n \<le> 2 ^ 52" using assms unfolding pool_ok_def by blast
  have "unat (word_of_nat n :: 64 word) = n" using n(2) by (simp add: unat_of_nat)
  moreover have "n < 2 ^ 64" using n(2) by simp
  ultimately show ?thesis using n assms(2) by (simp add: size_in_blocks_def)
qed

text \<open>One class: nothing but loaded bitmaps changes unless blocks are found.\<close>

lemma try_class_spec:
  assumes pool: "pool_ok p" and inv: "alloc_inv p st" and ready: "handler_ready p (al_handler st)" and cd: "codec_total cd"
    and size: "0 < unat size_req" "\<And>class disk. pool_dev p class disk \<noteq> None \<Longrightarrow> pool_actual_size p class disk size_req \<noteq> None"
    and cl: "unat class < NUM_STORAGE_CLASSES"
  shows "\<exists>r st'. try_class cd p size_req class st = Some (r, st') \<and> alloc_inv p st'
    \<and> (case r of Inr (Some off) \<Rightarrow> storage_class off = class \<and> allocated p size_req off (al_handler st) (al_handler st')
       | _ \<Rightarrow> only_loaded (al_handler st) (al_handler st'))"
proof -
  let ?h = "al_handler st"
  obtain disks where disks: "disk_count p class = Some disks" "\<And>disk. pool_dev p class disk \<noteq> None \<longleftrightarrow> disk < disks"
    using disk_count_facts [OF pool cl] by blast
  obtain tier where tier: "h_free_space_tier ?h class = Some tier"
    using ready cl by (simp add: handler_ready_def h_free_space_tier_def nth_opt_def)
  show ?thesis
  proof (cases "disks = 0 \<or> si_free tier < ucast size_req")
    case True
    then have "try_class cd p size_req class st = Some (Inr None, st)" using disks tier by (auto simp: try_class_def)
    then show ?thesis using inv by simp
  next
    case False
    let ?st = "st\<lparr>next_disk_id := next_disk_id st + 1\<rparr>"
    have free: "\<And>d. d < disks \<Longrightarrow> effective_free p ?h class d \<noteq> None" using ready disks(2) unfolding handler_ready_def by blast
    obtain disk where disk: "select_disk p ?h class disks (next_disk_id st) = Some disk" "disk < disks"
      using select_disk_spec [OF _ free] False by blast
    obtain dv where dv: "pool_dev p class disk = Some dv" using disks(2) disk(2) by blast
    obtain sz where sz: "pool_actual_size p class disk size_req = Some sz" using size(2) dv by blast
    obtain disk_size where ds: "size_in_blocks p class disk = Some disk_size" "unat disk_size \<le> 2 ^ 52" using size_in_blocks_ok [OF pool dv] by blast
    have slots: "slots_ok p st" "handler_inv ?h" using inv by (simp_all add: alloc_inv_def)
    obtain s where s: "last_segment st class disk = Some s" "storage_class s = class" "disk_id s = disk" "on_disk disk_size s"
      using last_segment_ok [OF pool slots(1) dv ds(1)] by blast
    have all: "full ?h (unat sz) t" if "steps_left disk_size s s < steps_left disk_size s t" "on_disk disk_size t" for t
      using steps_left_first [of disk_size s t] that(1) by blast
    have rd: "readable ?h" using ready by (simp add: handler_ready_def)
    have pos: "0 < unat sz" using actual_size_ge [OF sz] size(1) by simp
    obtain r s' h' where loop: "segment_loop disk_size (unat sz) s s ?h = Some (r, s', h')" "search_result disk_size (unat sz) s ?h r s' h'"
      using segment_loop_spec [OF slots(2) rd ds(2) pos s(4) s(4) _ refl all] by (auto simp: same_disk_def)
    note res = loop(2) [unfolded search_result_def]
    let ?st' = "set_last_segment class disk s' (?st\<lparr>al_handler := h'\<rparr>)"
    have slots': "slots_ok p ?st'"
      using slots(1) dv s res ds(1) by (intro set_last_segment_ok) (auto simp: slots_ok_def same_disk_def)
    have loaded: "only_loaded ?h h'" using res by (simp add: only_loaded_def)
    have run: "try_class cd p size_req class st = (case r of
        Inl e \<Rightarrow> Some (Inl (AllocReadError e), ?st')
      | Inr None \<Rightarrow> Some (Inr None, ?st')
      | Inr (Some off) \<Rightarrow> do { h \<leftarrow> update_allocation_bitmap cd off sz Allocate h'; Some (Inr (Some off), ?st'\<lparr>al_handler := h\<rparr>) })"
      using False disks(1) tier disk(1) sz ds(1) s(1) loop(1) by (simp add: try_class_def Let_def cong: sum.case_cong option.case_cong)
    show ?thesis
    proof (cases r)
      case (Inl e)
      then show ?thesis using run slots' loaded res by (simp add: alloc_inv_def)
    next
      case (Inr x)
      show ?thesis
      proof (cases x)
        case None
        then show ?thesis using Inr run slots' loaded res by (simp add: alloc_inv_def)
      next
        case (Some off)
        let ?o = "unat (segment_block_offset off)"
        have off: "segment_get off = s'" "storage_class off = class" "disk_id off = disk" "?o + unat sz \<le> SEGMENT_SIZE"
          using res Inr Some s(2,3) by auto
        obtain a where a: "allocators h' (segment_get off) = Some a" "\<forall>i. ?o \<le> i \<and> i < ?o + unat sz \<longrightarrow> \<not> in_use ?h s' i \<and> sa_data a i"
          using res Inr Some off(1) by auto
        have free_off: "free_space h' (class_disk_id off) \<noteq> None"
          using free [OF disk(2)] off(2,3) only_loaded_facts(3) [OF loaded]
          by (auto simp: class_disk_id_fields effective_free_def h_free_space_disk_def bind_eq_Some_conv)
        have "unat (storage_class off) < length (free_space_tier h')"
          using cl ready off(2) only_loaded_facts(4) [OF loaded] by (simp add: handler_ready_def)
        then obtain h'' where h'': "update_allocation_bitmap cd off sz Allocate h' = Some h''"
          using update_allocation_bitmap_total [OF cd free_off] by blast
        have marked: "\<forall>i. ?o \<le> i \<and> i < ?o + unat sz \<longrightarrow> sa_data a i" using a(2) by blast
        have hinv: "handler_inv h'" using res by blast
        note q = queue_allocate [OF hinv off(4) a(1) marked h'']
        have "allocated p size_req off ?h h''"
          unfolding allocated_def using sz off a(2) q(3) only_loaded_facts(1) [OF loaded] by (intro exI [of _ sz]) (auto simp: Let_def)
        then show ?thesis using Inr Some run slots' q(1) h'' off by (simp add: alloc_inv_def)
      qed
    qed
  qed
qed

lemma try_classes_spec:
  assumes pool: "pool_ok p" and cd: "codec_total cd"
    and size: "0 < unat size_req" "\<And>class disk. pool_dev p class disk \<noteq> None \<Longrightarrow> pool_actual_size p class disk size_req \<noteq> None"
    and st: "alloc_inv p st" "handler_ready p (al_handler st)" and classes: "\<forall>class \<in> set classes. unat class < NUM_STORAGE_CLASSES"
  shows "\<exists>r st'. try_classes cd p size_req classes st = Some (r, st') \<and> alloc_inv p st'
    \<and> (case r of Inr off \<Rightarrow> storage_class off \<in> set classes \<and> allocated p size_req off (al_handler st) (al_handler st')
       | Inl _ \<Rightarrow> only_loaded (al_handler st) (al_handler st'))"
  using st classes
proof (induction classes arbitrary: st)
  case (Cons c cs)
  have c: "unat c < NUM_STORAGE_CLASSES" using Cons.prems(3) by simp
  obtain r st1 where r: "try_class cd p size_req c st = Some (r, st1)" "alloc_inv p st1"
    "case r of Inr (Some off) \<Rightarrow> storage_class off = c \<and> allocated p size_req off (al_handler st) (al_handler st1)
       | _ \<Rightarrow> only_loaded (al_handler st) (al_handler st1)"
    using try_class_spec [OF pool Cons.prems(1,2) cd size c] by blast
  show ?case
  proof (cases r)
    case (Inl e)
    then show ?thesis using r by simp
  next
    case (Inr x)
    show ?thesis
    proof (cases x)
      case None
      have loaded: "only_loaded (al_handler st) (al_handler st1)" using r(3) Inr None by simp
      have "handler_ready p (al_handler st1)" using Cons.prems(2) only_loaded_facts(2) [OF loaded] by simp
      then obtain r' st' where r': "try_classes cd p size_req cs st1 = Some (r', st')" "alloc_inv p st'"
        "case r' of Inr off \<Rightarrow> storage_class off \<in> set cs \<and> allocated p size_req off (al_handler st1) (al_handler st')
         | Inl _ \<Rightarrow> only_loaded (al_handler st1) (al_handler st')"
        using Cons.IH [of st1] r(2) Cons.prems(3) by auto
      have "allocated p size_req off (al_handler st1) h \<Longrightarrow> allocated p size_req off (al_handler st) h" for off h
        using only_loaded_facts(1) [OF loaded] by (simp add: allocated_def)
      then show ?thesis using r(1) Inr None r' only_loaded_trans [OF loaded] by (auto split: sum.splits)
    next
      case (Some off)
      then show ?thesis using r Inr by simp
    qed
  qed
qed simp



lemma alloc_state_new_ok:
  assumes "pool_ok p" "handler_inv h"
  shows "alloc_inv p (alloc_state_new p h)"
proof -
  have "slot (alloc_state_new p h) class disk = map_option (\<lambda>_. None) (pool_dev p class disk)" for "class" disk
    by (auto simp: slot_def alloc_state_new_def pool_dev_def nth_opt_def)
  then show ?thesis using assms(2) by (simp add: alloc_inv_def slots_ok_def alloc_state_new_def)
qed

lemma allocate_raw_at_spec:
  assumes pool: "pool_ok p" and inv: "alloc_inv p st" and ready: "handler_ready p (al_handler st)" and cd: "codec_total cd"
    and dv: "by_offset p off = Some dv" and sz: "block_mul size_req (word_of_nat (dev_num_disks dv)) = Some sz" "0 < unat sz"
    and on: "\<And>disk_size. size_in_blocks p (storage_class off) (disk_id off) = Some disk_size \<Longrightarrow> on_disk disk_size (segment_get off)"
    and run: "allocate_raw_at cd p off size_req st = Some (r, st')"
  shows "alloc_inv p st'"
    "(\<exists>e. r = Inl e) \<and> only_loaded (al_handler st) (al_handler st')
      \<or> r = Inr () \<and> unat (segment_block_offset off) + unat sz \<le> SEGMENT_SIZE \<and> (\<forall>sid i.
          let new = sid = segment_get off \<and> unat (segment_block_offset off) \<le> i \<and> i < unat (segment_block_offset off) + unat sz
          in (in_use (al_handler st') sid i \<longleftrightarrow> in_use (al_handler st) sid i \<or> new) \<and> (new \<longrightarrow> \<not> in_use (al_handler st) sid i))"
proof -
  let ?h = "al_handler st" and ?s = "segment_get off" and ?o = "unat (segment_block_offset off)"
  have hinv: "handler_inv ?h" and slots: "slots_ok p st" using inv by (simp_all add: alloc_inv_def)
  have dv': "pool_dev p (storage_class off) (disk_id off) = Some dv" using dv by (simp add: by_offset_def)
  obtain g where g: "get_allocation_bitmap ?s ?h = Some g"
    using get_allocation_bitmap_total [OF hinv] ready unfolding handler_ready_def by blast
  have "alloc_inv p st' \<and> ((\<exists>e. r = Inl e) \<and> only_loaded ?h (al_handler st')
      \<or> r = Inr () \<and> ?o + unat sz \<le> SEGMENT_SIZE \<and> (\<forall>sid i. let new = sid = ?s \<and> ?o \<le> i \<and> i < ?o + unat sz
          in (in_use (al_handler st') sid i \<longleftrightarrow> in_use ?h sid i \<or> new) \<and> (new \<longrightarrow> \<not> in_use ?h sid i)))"
  proof (cases g)
    case (Inl e)
    then have "r = Inl (AllocReadError e) \<and> st' = st"
      using run dv' sz(1) g by (auto simp: allocate_raw_at_def pool_num_disks_def Let_def split: bind_splits)
    then show ?thesis using inv by simp
  next
    case (Inr h1)
    note g1 = get_allocation_bitmap_spec [OF hinv g [unfolded Inr]]
    obtain a where a: "allocators h1 ?s = Some a" using g1(2) by blast
    note ainv = handler_invD(2) [OF g1(1) a]
    show ?thesis
    proof (cases "allocate_at a (unat sz) ?o")
      case None
      then show ?thesis using run dv' sz(1) g Inr a by (auto simp: allocate_raw_at_def pool_num_disks_def Let_def split: bind_splits)
    next
      case (Some x)
      obtain ok a' where x: "x = (ok, a')" by (cases x)
      have small: "?o + unat sz < 2 ^ 32" using Some sz(2) by (auto simp: allocate_at_def add_u32_def split: if_splits)
      have law: "allocator_inv a'" "if ok then ?o + unat sz \<le> SEGMENT_SIZE \<and> (\<forall>i. ?o \<le> i \<and> i < ?o + unat sz \<longrightarrow> \<not> sa_data a i)
          \<and> sa_data a' = (\<lambda>i. sa_data a i \<or> ?o \<le> i \<and> i < ?o + unat sz) else a' = a"
        using sga.alloc_at_law [OF ainv sz(2) small] Some x by auto
      define h2 where "h2 = h1\<lparr>allocators := (allocators h1)(?s \<mapsto> a')\<rparr>"
      have inv2: "handler_inv h2" unfolding h2_def using law by (intro set_allocator_inv [OF g1(1) a]) (auto split: if_splits)
      have loaded: "only_loaded ?h h2"
        using g1(3) unfolding only_loaded_def h2_def by (metis (no_types, lifting) handler.surjective handler.update_convs(8))
      have a2: "allocators h2 ?s = Some a'" by (simp add: h2_def)
      show ?thesis
      proof (cases ok)
        case False
        then have "r = Inl (RawAllocationError off sz) \<and> st' = st\<lparr>al_handler := h2\<rparr>"
          using run dv' sz(1) g Inr a Some x by (auto simp: allocate_raw_at_def pool_num_disks_def Let_def h2_def split: bind_splits)
        then show ?thesis using inv2 slots loaded by (simp add: alloc_inv_def)
      next
        case True
        obtain h3 where h3: "update_allocation_bitmap cd off sz Allocate h2 = Some h3"
          "r = Inr ()" "st' = set_last_segment (storage_class off) (disk_id off) ?s (st\<lparr>al_handler := h3\<rparr>)"
          using run dv' sz(1) g Inr a Some x True
          by (auto simp: allocate_raw_at_def pool_num_disks_def Let_def simp flip: h2_def split: bind_splits)
        have len: "?o + unat sz \<le> SEGMENT_SIZE" and marked: "\<forall>i. ?o \<le> i \<and> i < ?o + unat sz \<longrightarrow> sa_data a' i"
          and free: "\<And>i. ?o \<le> i \<Longrightarrow> i < ?o + unat sz \<Longrightarrow> \<not> sa_data a i" using law True by auto
        note q = queue_allocate [OF inv2 len a2 marked h3(1)]
        have "\<not> in_use ?h ?s i" if "?o \<le> i" "i < ?o + unat sz" for i
          using free [OF that] handler_invD(3) [OF g1(1) a, of i] g1(4) that len by auto
        moreover have "slots_ok p st'" unfolding h3(3)
          using slots dv' on by (intro set_last_segment_ok) (auto simp: slots_ok_def segment_get_fields)
        ultimately show ?thesis using h3 q(1,3) len only_loaded_facts(1) [OF loaded] by (auto simp: alloc_inv_def Let_def)
      qed
    qed
  qed
  then show "alloc_inv p st'" "(\<exists>e. r = Inl e) \<and> only_loaded ?h (al_handler st')
      \<or> r = Inr () \<and> ?o + unat sz \<le> SEGMENT_SIZE \<and> (\<forall>sid i. let new = sid = ?s \<and> ?o \<le> i \<and> i < ?o + unat sz
          in (in_use (al_handler st') sid i \<longleftrightarrow> in_use ?h sid i \<or> new) \<and> (new \<longrightarrow> \<not> in_use ?h sid i))" by blast+
qed



subsection \<open>Claims\<close>

text \<open>
  C5. Allocation gives out unused blocks: from a state that satisfies the invariant, and with a positive size that does not
  overflow on any device, allocation neither panics nor loops and keeps the invariant. If it succeeds, the class of the
  result is one of the strategy for the preference, the blocks lie in one segment, none of them was in use (in the current
  root tree, in that of the last sync, or by a queued message), and exactly they are in use in addition. If it fails,
  nothing but cached bitmaps changed.
\<close>

theorem allocate_unused:
  assumes "pool_ok p" "alloc_inv p st" "handler_ready p (al_handler st)" "codec_total cd" "0 < unat size_req"
    and "\<And>class disk. pool_dev p class disk \<noteq> None \<Longrightarrow> pool_actual_size p class disk size_req \<noteq> None"
    and "unat pref < NUM_STORAGE_CLASSES" "unat pref < length strategy" "\<forall>class. Some class \<in> set (strategy ! unat pref) \<longrightarrow> unat class < NUM_STORAGE_CLASSES"
  shows "\<exists>r st'. dmu_allocate cd p strategy pref size_req st = Some (r, st') \<and> alloc_inv p st'
    \<and> (case r of Inr off \<Rightarrow> Some (storage_class off) \<in> set (strategy ! unat pref) \<and> allocated p size_req off (al_handler st) (al_handler st')
       | Inl _ \<Rightarrow> only_loaded (al_handler st) (al_handler st'))"
proof -
  have set: "set (List.map_filter id xs) = {c. Some c \<in> set xs}" for xs :: "byte option list"
    by (induction xs) (auto simp: List.map_filter_simps split: option.splits)
  have classes: "\<forall>class \<in> set (List.map_filter id (strategy ! unat pref)). unat class < NUM_STORAGE_CLASSES"
    using assms(9) unfolding set by blast
  have "dmu_allocate cd p strategy pref size_req st = try_classes cd p size_req (List.map_filter id (strategy ! unat pref)) st"
    using assms(7,8) by (simp add: dmu_allocate_def nth_opt_def)
  then show ?thesis using try_classes_spec [OF assms(1,4,5,6,2,3) classes] unfolding set mem_Collect_eq by simp
qed

definition example_alloc_pool :: storage_pool where
  "example_alloc_pool = \<lparr>sp_tiers = [\<lparr>st_devs = [DevLeaf (leaf_new 100)], st_preferred_access_type = Unknown, st_kind = Hdd\<rparr>,
     storage_tier_default, storage_tier_default, storage_tier_default], sp_queue_depth = 20, sp_default_storage_class = 0\<rparr>"

definition example_alloc_handler :: handler where
  "example_alloc_handler = example_handler\<lparr>free_space_tier := replicate 4 \<lparr>si_free = 100, si_total = 108\<rparr>\<rparr>"

lemma example_alloc_dev: "pool_dev example_alloc_pool class disk = Some dv \<longleftrightarrow> class = 0 \<and> disk = 0 \<and> dv = DevLeaf (leaf_new 100)"
  by (auto simp: example_alloc_pool_def pool_dev_def nth_opt_def storage_tier_default_def nth_Cons' split: bind_splits if_splits) (simp_all add: word_unat_eq_iff)

lemma example_alloc_dev0 [simp]: "pool_dev example_alloc_pool 0 0 = Some (DevLeaf (leaf_new 100))"
  by (simp add: example_alloc_dev)

lemma example_alloc_inv: "pool_ok example_alloc_pool" "handler_inv example_alloc_handler" "handler_ready example_alloc_pool example_alloc_handler"
proof -
  have "\<exists>n. dev_size (DevLeaf (leaf_new 100)) = Some n \<and> n \<le> 2 ^ 52" by (simp add: leaf_size_def leaf_new_simps BS_def)
  then show "pool_ok example_alloc_pool"
    unfolding pool_ok_def using example_alloc_dev by (auto simp: NUM_STORAGE_CLASSES_def) (auto simp: example_alloc_pool_def storage_tier_default_def)
  show "handler_inv example_alloc_handler"
    by (simp add: handler_inv_def example_alloc_handler_def example_handler_def Handler.pending_def next_bits_def root_bits_def old_root_ok_def)
  have "readable example_alloc_handler"
    by (simp add: readable_def example_alloc_handler_def example_handler_def SEGMENT_SIZE_BYTES_def SEGMENT_SIZE_def SEGMENT_SIZE_LOG_2_def)
  moreover have "effective_free example_alloc_pool example_alloc_handler 0 0 \<noteq> None"
  proof -
    have "construct_disk_id 0 0 = 0" by (simp add: construct_disk_id_def)
    then show ?thesis by (simp add: effective_free_def h_free_space_disk_def example_alloc_handler_def example_handler_def pool_effective_free_size_def)
  qed
  ultimately show "handler_ready example_alloc_pool example_alloc_handler"
    unfolding handler_ready_def using example_alloc_dev by (auto simp: example_alloc_handler_def NUM_STORAGE_CLASSES_def)
qed

theorem allocate_unused_witness:
  "\<exists>r st'. dmu_allocate Handler.example_codec example_alloc_pool [[Some 0], [], [], []] 0 5 (alloc_state_new example_alloc_pool example_alloc_handler) = Some (r, st')
     \<and> (case r of Inr off \<Rightarrow> storage_class off = 0 \<and> allocated example_alloc_pool 5 off example_alloc_handler (al_handler st')
        | Inl _ \<Rightarrow> only_loaded example_alloc_handler (al_handler st'))"
proof -
  let ?st = "alloc_state_new example_alloc_pool example_alloc_handler"
  have h: "al_handler ?st = example_alloc_handler" by (simp add: alloc_state_new_def)
  have size: "pool_dev example_alloc_pool class disk \<noteq> None \<Longrightarrow> pool_actual_size example_alloc_pool class disk 5 \<noteq> None" for "class" disk
    by (auto simp: pool_actual_size_def example_alloc_dev)
  have cd: "codec_total Handler.example_codec" by (simp add: codec_total_def Handler.example_codec_def)
  have "\<exists>r st'. dmu_allocate Handler.example_codec example_alloc_pool [[Some 0], [], [], []] 0 5 ?st = Some (r, st') \<and> alloc_inv example_alloc_pool st'
    \<and> (case r of Inr off \<Rightarrow> Some (storage_class off) \<in> set ([[Some 0], [], [], []] ! unat (0 :: byte)) \<and> allocated example_alloc_pool 5 off (al_handler ?st) (al_handler st')
       | Inl _ \<Rightarrow> only_loaded (al_handler ?st) (al_handler st'))"
    by (rule allocate_unused [OF example_alloc_inv(1) alloc_state_new_ok [OF example_alloc_inv(1,2)] _ cd _ size])
      (simp_all add: h example_alloc_inv NUM_STORAGE_CLASSES_def)
  then show ?thesis unfolding h by (elim exE conjE, intro exI conjI) (auto split: sum.splits)
qed



end
