(* ===== verification/ObjectMeta.thy ===== *)
theory ObjectMeta
  imports Configuration
begin

text \<open>
  The messages of the metadata tree of an object store (\<^verbatim>\<open>object/meta.rs\<close>). A key without zero byte
  names an object and holds its \<open>object_info\<close>; the keys below it hold custom metadata. A message for an
  object sets some of the fields. The encoding of \<^verbatim>\<open>ObjectInfo\<close> is derived by the crate \<^verbatim>\<open>speedy\<close> and is a parameter,
  \<open>info_codec\<close>. A \<^verbatim>\<open>SystemTime\<close> is the number of nanoseconds since the epoch.
\<close>

unbundle bit_operations_syntax

type_synonym object_id = "64 word"

record object_info =
  oi_object_id :: object_id
  oi_size :: "64 word"
  oi_mtime :: int
  oi_pref :: storage_preference
  oi_access_pattern :: preferred_access_type

record info_codec =
  ic_write :: "object_info \<Rightarrow> bytes"
  ic_read :: "bytes \<Rightarrow> object_info option"

record meta_message =
  mm_object_id :: "object_id option"
  mm_size :: "64 word option"
  mm_mtime :: "int option"
  mm_pref :: "storage_preference option"
  mm_access_pattern :: "preferred_access_type option"

definition meta_delete :: meta_message where
  "meta_delete = \<lparr>mm_object_id = None, mm_size = None, mm_mtime = None, mm_pref = None, mm_access_pattern = None\<rparr>"

definition meta_set_info :: "object_info \<Rightarrow> meta_message" where
  "meta_set_info i = \<lparr>mm_object_id = Some (oi_object_id i), mm_size = Some (oi_size i), mm_mtime = Some (oi_mtime i),
     mm_pref = Some (oi_pref i), mm_access_pattern = Some (oi_access_pattern i)\<rparr>"

subsection \<open>Encoding\<close>

definition to_content_flags :: "meta_message \<Rightarrow> byte" where
  "to_content_flags m =
     (if mm_object_id m \<noteq> None then 1 else 0) OR (if mm_size m \<noteq> None then 2 else 0)
     OR (if mm_mtime m \<noteq> None then 4 else 0) OR (if mm_pref m \<noteq> None then 8 else 0)
     OR (if mm_access_pattern m \<noteq> None then 16 else 0)"

definition us_since_epoch :: "int \<Rightarrow> nat option" where
  "us_since_epoch t = do { assert_that (0 \<le> t); assert_that (t div 1000 < 2 ^ 64); Some (nat (t div 1000)) }"

definition meta_pack :: "meta_message \<Rightarrow> bytes option" where
  "meta_pack m = do {
     us \<leftarrow> (case mm_mtime m of None \<Rightarrow> Some None | Some t \<Rightarrow> map_option Some (us_since_epoch t));
     Some (to_content_flags m
       # (case mm_object_id m of None \<Rightarrow> [] | Some i \<Rightarrow> to_le 8 (unat i))
       @ (case mm_size m of None \<Rightarrow> [] | Some s \<Rightarrow> to_le 8 (unat s))
       @ (case us of None \<Rightarrow> [] | Some u \<Rightarrow> to_le 8 u)
       @ (case mm_pref m of None \<Rightarrow> [] | Some p \<Rightarrow> [p])
       @ (case mm_access_pattern m of None \<Rightarrow> [] | Some a \<Rightarrow> [pat_as_u8 a])) }"

text \<open>A field that is read only when its flag is set; \<open>None\<close> is the error of a cursor at its end.\<close>

definition read_le64 :: "bytes \<Rightarrow> (nat \<times> bytes) option" where
  "read_le64 c = (if length c < 8 then None else Some (from_le (take 8 c), drop 8 c))"

fun read_u8 :: "bytes \<Rightarrow> (byte \<times> bytes) option" where
  "read_u8 [] = None"
| "read_u8 (b # c) = Some (b, c)"

definition field :: "bool \<Rightarrow> (bytes \<Rightarrow> ('a \<times> bytes) option) \<Rightarrow> bytes \<Rightarrow> ('a option \<times> bytes) option" where
  "field present rd c = (if present then map_option (map_prod Some id) (rd c) else Some (None, c))"

definition meta_unpack :: "bytes \<Rightarrow> meta_message option option" where
  "meta_unpack msg = (case do {
       (flags, c) \<leftarrow> read_u8 msg;
       (oid, c) \<leftarrow> field (flags AND 1 \<noteq> 0) read_le64 c;
       (sz, c) \<leftarrow> field (flags AND 2 \<noteq> 0) read_le64 c;
       (us, c) \<leftarrow> field (flags AND 4 \<noteq> 0) read_le64 c;
       (p, c) \<leftarrow> field (flags AND 8 \<noteq> 0) read_u8 c;
       Some (flags, oid, sz, us, p, c) }
     of None \<Rightarrow> Some None
     | Some (flags, oid, sz, us, p, c) \<Rightarrow> do {
         pref \<leftarrow> (case p of None \<Rightarrow> Some None | Some b \<Rightarrow> map_option Some (pref_from_u8 b));
         Some (map_option (\<lambda>(ap, c).
           \<lparr>mm_object_id = map_option word_of_nat oid, mm_size = map_option word_of_nat sz,
            mm_mtime = map_option (\<lambda>u. 1000 * int u) us, mm_pref = pref,
            mm_access_pattern = map_option (\<lambda>b. case pat_try_from b of None \<Rightarrow> Unknown | Some a \<Rightarrow> a) ap\<rparr>)
           (field (flags AND 16 \<noteq> 0) read_u8 c)) })"

subsection \<open>The message action\<close>

definition FIXED_DELETE :: byte where "FIXED_DELETE = 0"
definition FIXED_REPLACE :: byte where "FIXED_REPLACE = 1"

definition is_fixed_key :: "bytes \<Rightarrow> bool" where
  "is_fixed_key key \<longleftrightarrow> 0 \<notin> set key"

definition delete_custom :: bytes where "delete_custom = [FIXED_DELETE]"

definition set_custom :: "bytes \<Rightarrow> bytes" where "set_custom v = FIXED_REPLACE # v"

text \<open>A message that sets every field overwrites, one that sets none deletes; any other changes an
  existing entry.\<close>

definition or_old :: "'a option \<Rightarrow> 'a \<Rightarrow> 'a" where
  "or_old x old = (case x of None \<Rightarrow> old | Some v \<Rightarrow> v)"

definition update_info :: "meta_message \<Rightarrow> object_info \<Rightarrow> object_info" where
  "update_info m i = \<lparr>oi_object_id = or_old (mm_object_id m) (oi_object_id i), oi_size = or_old (mm_size m) (oi_size i),
     oi_mtime = or_old (mm_mtime m) (oi_mtime i), oi_pref = or_old (mm_pref m) (oi_pref i),
     oi_access_pattern = or_old (mm_access_pattern m) (oi_access_pattern i)\<rparr>"

definition apply_info :: "info_codec \<Rightarrow> meta_message \<Rightarrow> bytes option \<Rightarrow> bytes option option" where
  "apply_info ic m data = (case (mm_object_id m, mm_size m, mm_mtime m, mm_pref m, mm_access_pattern m) of
     (Some oid, Some sz, Some t, Some p, Some a) \<Rightarrow>
       Some (Some (ic_write ic \<lparr>oi_object_id = oid, oi_size = sz, oi_mtime = t, oi_pref = p, oi_access_pattern = a\<rparr>))
   | (None, None, None, None, None) \<Rightarrow> Some None
   | _ \<Rightarrow> (case data of
       None \<Rightarrow> Some None
     | Some d \<Rightarrow> do { i \<leftarrow> ic_read ic d; Some (Some (ic_write ic (update_info m i))) }))"

definition meta_apply :: "info_codec \<Rightarrow> bytes \<Rightarrow> bytes \<Rightarrow> bytes option \<Rightarrow> bytes option option" where
  "meta_apply ic key msg data =
     (if is_fixed_key key then do { r \<leftarrow> meta_unpack msg; m \<leftarrow> r; apply_info ic m data }
      else do {
        b \<leftarrow> nth_opt msg 0;
        if b = FIXED_DELETE then Some None
        else if b = FIXED_REPLACE then Some (Some (drop 1 msg))
        else None })"

fun or_max :: "'a::linorder option \<Rightarrow> 'a option \<Rightarrow> 'a option" where
  "or_max None None = None"
| "or_max (Some x) None = Some x"
| "or_max None (Some x) = Some x"
| "or_max (Some a) (Some b) = Some (max a b)"

definition or_opt :: "'a option \<Rightarrow> 'a option \<Rightarrow> 'a option" where
  "or_opt a b = (case a of None \<Rightarrow> b | Some x \<Rightarrow> Some x)"

definition merge_messages :: "meta_message \<Rightarrow> meta_message \<Rightarrow> meta_message" where
  "merge_messages u l = \<lparr>mm_object_id = or_opt (mm_object_id u) (mm_object_id l),
     mm_size = or_max (mm_size u) (mm_size l), mm_mtime = or_max (mm_mtime u) (mm_mtime l),
     mm_pref = or_opt (mm_pref u) (mm_pref l), mm_access_pattern = or_opt (mm_access_pattern u) (mm_access_pattern l)\<rparr>"

definition meta_merge :: "bytes \<Rightarrow> bytes \<Rightarrow> bytes \<Rightarrow> bytes option" where
  "meta_merge key upper_msg lower_msg =
     (if is_fixed_key key then do {
        r \<leftarrow> meta_unpack upper_msg;
        upper \<leftarrow> r;
        if to_content_flags upper = 31 then Some upper_msg
        else if to_content_flags upper = 0 then Some lower_msg
        else do { r \<leftarrow> meta_unpack lower_msg; lower \<leftarrow> r; meta_pack (merge_messages upper lower) } }
      else Some upper_msg)"

definition meta_message_action :: "info_codec \<Rightarrow> msg_action" where
  "meta_message_action ic = \<lparr>ma_apply = meta_apply ic, ma_merge = meta_merge\<rparr>"

subsection \<open>Round trip of the encoding\<close>

lemma content_flags_bits:
  "to_content_flags m AND 1 \<noteq> 0 \<longleftrightarrow> mm_object_id m \<noteq> None"
  "to_content_flags m AND 2 \<noteq> 0 \<longleftrightarrow> mm_size m \<noteq> None"
  "to_content_flags m AND 4 \<noteq> 0 \<longleftrightarrow> mm_mtime m \<noteq> None"
  "to_content_flags m AND 8 \<noteq> 0 \<longleftrightarrow> mm_pref m \<noteq> None"
  "to_content_flags m AND 16 \<noteq> 0 \<longleftrightarrow> mm_access_pattern m \<noteq> None"
  by (simp_all add: to_content_flags_def)

lemma field_le64:
  "(\<forall>n. x = Some n \<longrightarrow> n < 2 ^ 64) \<Longrightarrow> field (x \<noteq> None) read_le64 ((case x of None \<Rightarrow> [] | Some n \<Rightarrow> to_le 8 n) @ c) = Some (x, c)"
  by (cases x) (auto simp: field_def read_le64_def codec length_to_le)

lemma field_u8:
  "field (x \<noteq> None) read_u8 ((case x of None \<Rightarrow> [] | Some b \<Rightarrow> [b]) @ c) = Some (x, c)"
  by (cases x) (auto simp: field_def)

lemma field_w64:
  "field (x \<noteq> None) read_le64 ((case map_option unat x of None \<Rightarrow> [] | Some n \<Rightarrow> to_le 8 n) @ c) = Some (map_option unat x, c)"
  for x :: "64 word option"
proof (cases x)
  case (Some w)
  have "unat w < 2 ^ 64" using unsigned_less [of w] by simp
  with Some show ?thesis using field_le64 [of "Some (unat w)" c] by simp
qed (simp add: field_def)

text \<open>Times are stored in whole microseconds.\<close>

definition whole_us :: "int \<Rightarrow> int" where
  "whole_us t = 1000 * (t div 1000)"

definition truncate_mtime :: "meta_message \<Rightarrow> meta_message" where
  "truncate_mtime m = m\<lparr>mm_mtime := map_option whole_us (mm_mtime m)\<rparr>"

definition storable_message :: "meta_message \<Rightarrow> bool" where
  "storable_message m \<longleftrightarrow> (\<forall>t. mm_mtime m = Some t \<longrightarrow> 0 \<le> t \<and> t div 1000 < 2 ^ 64)
     \<and> (\<forall>p. mm_pref m = Some p \<longrightarrow> valid_pref p)"

lemma pat_roundtrip: "pat_try_from (pat_as_u8 a) = Some a"
  by (cases a) (simp_all add: pat_try_from_def)

lemma meta_pack_unpack:
  assumes "storable_message m"
  shows "\<exists>b. meta_pack m = Some b \<and> meta_unpack b = Some (Some (truncate_mtime m))"
proof -
  define us where "us = map_option (\<lambda>t. nat (t div 1000)) (mm_mtime m)"
  have us: "(case mm_mtime m of None \<Rightarrow> Some None | Some t \<Rightarrow> map_option Some (us_since_epoch t)) = Some us"
    using assms by (cases "mm_mtime m") (auto simp: us_def storable_message_def us_since_epoch_def)
  have present: "mm_mtime m \<noteq> None \<longleftrightarrow> us \<noteq> None" by (simp add: us_def)
  have us_bound: "\<forall>n. us = Some n \<longrightarrow> n < 2 ^ 64"
    using assms by (auto simp: us_def storable_message_def)
  define ap where "ap = map_option pat_as_u8 (mm_access_pattern m)"
  define b where "b = to_content_flags m
       # (case map_option unat (mm_object_id m) of None \<Rightarrow> [] | Some i \<Rightarrow> to_le 8 i)
       @ (case map_option unat (mm_size m) of None \<Rightarrow> [] | Some s \<Rightarrow> to_le 8 s)
       @ (case us of None \<Rightarrow> [] | Some u \<Rightarrow> to_le 8 u)
       @ (case mm_pref m of None \<Rightarrow> [] | Some p \<Rightarrow> [p])
       @ (case ap of None \<Rightarrow> [] | Some a \<Rightarrow> [a]) @ []"
  have tm: "field (us \<noteq> None) read_le64 ((case us of None \<Rightarrow> [] | Some i \<Rightarrow> to_le 8 i) @ c) = Some (us, c)" for c
    by (rule field_le64 [OF us_bound])
  have apn: "mm_access_pattern m \<noteq> None \<longleftrightarrow> ap \<noteq> None" by (simp add: ap_def)
  have pref: "(case mm_pref m of None \<Rightarrow> Some None | Some b \<Rightarrow> map_option Some (pref_from_u8 b)) = Some (mm_pref m)"
    using assms by (cases "mm_pref m") (auto simp: storable_message_def pref_from_u8_def valid_pref_def NONE_def)
  have pack: "meta_pack m = Some b"
    by (simp add: meta_pack_def us b_def ap_def split: option.split)
  have fields: "\<lparr>mm_object_id = map_option word_of_nat (map_option unat (mm_object_id m)),
      mm_size = map_option word_of_nat (map_option unat (mm_size m)),
      mm_mtime = map_option (\<lambda>u. 1000 * int u) us, mm_pref = mm_pref m,
      mm_access_pattern = map_option (\<lambda>b. case pat_try_from b of None \<Rightarrow> Unknown | Some a \<Rightarrow> a) ap\<rparr> = truncate_mtime m"
    using assms by (cases m) (auto simp: truncate_mtime_def us_def ap_def whole_us_def storable_message_def option.map_comp comp_def
        pat_roundtrip option.map_ident split: option.split intro!: option.map_cong0)
  have "meta_unpack b = Some (Some (truncate_mtime m))"
    unfolding meta_unpack_def b_def read_u8.simps content_flags_bits bind.bind_lunit prod.case present apn
    by (simp only: bind.bind_lunit prod.case content_flags_bits apn field_w64 tm field_u8 option.case pref option.map id_def fields)
  with pack show ?thesis by blast
qed

text \<open>What is read from bytes can be written again and is not changed by it.\<close>

lemma meta_unpack_storable:
  assumes "meta_unpack b = Some (Some m)"
  shows "storable_message m \<and> truncate_mtime m = m"
proof -
  have le64: "n < 2 ^ 64" if "read_le64 c = Some (n, c')" for c n c'
    using that from_le_bound [of "take 8 c"] by (auto simp: read_le64_def split: if_splits)
  have f: "(\<forall>n. us = Some n \<longrightarrow> n < 2 ^ 64)" if "field p read_le64 c = Some (us, c')" for p c us c'
    using that by (auto simp: field_def split: if_splits dest: le64)
  have w: "map_option whole_us (map_option (\<lambda>u. 1000 * int u) x) = map_option (\<lambda>u. 1000 * int u) x" for x
    by (cases x) (simp_all add: whole_us_def)
  show ?thesis
    using assms
    by (auto simp: meta_unpack_def storable_message_def truncate_mtime_def w valid_pref_def NONE_def pref_from_u8_def
        bind_eq_Some_conv split: option.splits if_splits prod.splits dest!: f)
qed

subsection \<open>When merging messages is faithful\<close>

definition sets_all :: "meta_message \<Rightarrow> bool" where
  "sets_all m \<longleftrightarrow> mm_object_id m \<noteq> None \<and> mm_size m \<noteq> None \<and> mm_mtime m \<noteq> None \<and> mm_pref m \<noteq> None \<and> mm_access_pattern m \<noteq> None"

definition sets_none :: "meta_message \<Rightarrow> bool" where
  "sets_none m \<longleftrightarrow> mm_object_id m = None \<and> mm_size m = None \<and> mm_mtime m = None \<and> mm_pref m = None \<and> mm_access_pattern m = None"

definition not_above :: "'a::linorder option \<Rightarrow> 'a option \<Rightarrow> bool" where
  "not_above a b \<longleftrightarrow> (case (a, b) of (Some x, Some y) \<Rightarrow> x \<le> y | _ \<Rightarrow> True)"

definition merge_faithful :: "meta_message \<Rightarrow> meta_message \<Rightarrow> bool" where
  "merge_faithful u l \<longleftrightarrow> sets_all u \<or> sets_none u \<and> sets_none l
     \<or> \<not> sets_none u \<and> \<not> sets_none l \<and> not_above (mm_size l) (mm_size u) \<and> not_above (mm_mtime l) (mm_mtime u)
        \<and> (sets_all l \<or> \<not> sets_all (merge_messages u l))"

text \<open>The values the metadata tree holds for an object.\<close>

definition stored_info :: "info_codec \<Rightarrow> bytes option \<Rightarrow> bool" where
  "stored_info ic d \<longleftrightarrow> d = None \<or> (\<exists>i. d = Some (ic_write ic i))"

definition info_roundtrip :: "info_codec \<Rightarrow> bool" where
  "info_roundtrip ic \<longleftrightarrow> (\<forall>i. ic_read ic (ic_write ic i) = Some i)"

lemma content_flags_all: "to_content_flags m = 31 \<longleftrightarrow> sets_all m"
  by (simp add: to_content_flags_def sets_all_def)

lemma content_flags_none: "to_content_flags m = 0 \<longleftrightarrow> sets_none m"
  by (simp add: to_content_flags_def sets_none_def)

lemma ic_write_inj: "info_roundtrip ic \<Longrightarrow> ic_write ic i = ic_write ic j \<longleftrightarrow> i = j"
  unfolding info_roundtrip_def by (metis option.inject)

lemma apply_info_all: "sets_all m \<Longrightarrow> apply_info ic m d = Some (Some (ic_write ic (update_info m i)))"
  by (auto simp: apply_info_def sets_all_def update_info_def or_old_def)

lemma apply_info_none: "sets_none m \<Longrightarrow> apply_info ic m d = Some None"
  by (auto simp: apply_info_def sets_none_def)

lemma apply_info_part:
  assumes "\<not> sets_all m" "\<not> sets_none m"
  shows "apply_info ic m None = Some None"
    and "info_roundtrip ic \<Longrightarrow> apply_info ic m (Some (ic_write ic i)) = Some (Some (ic_write ic (update_info m i)))"
  using assms by (auto simp: apply_info_def sets_all_def sets_none_def info_roundtrip_def split: option.splits)

lemma sets_disjoint: "sets_none m \<Longrightarrow> \<not> sets_all m"
  by (simp add: sets_none_def sets_all_def)

lemma apply_info_some: "\<not> sets_none m \<Longrightarrow> info_roundtrip ic \<Longrightarrow>
    apply_info ic m (Some (ic_write ic i)) = Some (Some (ic_write ic (update_info m i)))"
  using apply_info_all apply_info_part(2) by blast

lemma or_old_max: "or_old (or_max a b) x = or_old a (or_old b x) \<longleftrightarrow> not_above b a"
  by (cases a; cases b) (auto simp: or_old_def not_above_def max_def)

lemma or_old_or: "or_old (or_opt a b) x = or_old a (or_old b x)"
  by (cases a) (simp_all add: or_old_def or_opt_def)

lemma update_merge: "update_info (merge_messages u l) i = update_info u (update_info l i)
    \<longleftrightarrow> not_above (mm_size l) (mm_size u) \<and> not_above (mm_mtime l) (mm_mtime u)"
  by (simp add: update_info_def merge_messages_def or_old_or or_old_max)

lemma or_none: "or_max a b = None \<longleftrightarrow> a = None \<and> b = None" "or_opt c d = None \<longleftrightarrow> c = None \<and> d = None"
  by (cases a; cases b; simp) (cases c; simp add: or_opt_def)

lemma merge_sets:
  "sets_none (merge_messages u l) \<longleftrightarrow> sets_none u \<and> sets_none l"
  "sets_all l \<Longrightarrow> sets_all (merge_messages u l)"
  by (auto simp: sets_none_def sets_all_def merge_messages_def or_none simp del: not_None_eq)

lemma truncate_mtime_id: "truncate_mtime m = m \<longleftrightarrow> map_option whole_us (mm_mtime m) = mm_mtime m"
  by (cases m) (simp add: truncate_mtime_def)

lemma update_all: "sets_all u \<Longrightarrow> update_info u i = update_info u j"
  by (auto simp: sets_all_def update_info_def or_old_def)

lemma merged_bytes:
  assumes "is_fixed_key key" "meta_unpack bu = Some (Some u)" "meta_unpack bl = Some (Some l)"
  shows "\<exists>bm. meta_merge key bu bl = Some bm \<and>
    meta_unpack bm = Some (Some (if sets_all u then u else if sets_none u then l else merge_messages u l))"
proof (cases "sets_all u \<or> sets_none u")
  case False
  have "storable_message (merge_messages u l) \<and> truncate_mtime (merge_messages u l) = merge_messages u l"
    using meta_unpack_storable [OF assms(2)] meta_unpack_storable [OF assms(3)]
    by (cases "mm_mtime u"; cases "mm_mtime l"; cases "mm_pref u"; cases "mm_pref l")
      (auto simp: storable_message_def truncate_mtime_id merge_messages_def or_opt_def max_def)
  with meta_pack_unpack [of "merge_messages u l"] False assms show ?thesis
    by (auto simp: meta_merge_def content_flags_all content_flags_none)
qed (use assms in \<open>auto simp: meta_merge_def content_flags_all content_flags_none dest: sets_disjoint\<close>)

lemma meta_apply_unpacked:
  "is_fixed_key key \<Longrightarrow> meta_unpack b = Some (Some m) \<Longrightarrow> meta_apply ic key b = apply_info ic m"
  by (rule ext) (simp add: meta_apply_def)

lemma merge_faithful_iff:
  assumes "info_roundtrip ic"
  shows "(\<forall>d. stored_info ic d \<longrightarrow> apply_info ic (if sets_all u then u else if sets_none u then l else merge_messages u l) d
      = apply_info ic l d \<bind> apply_info ic u) \<longleftrightarrow> merge_faithful u l" (is "(\<forall>d. _ \<longrightarrow> ?m d = ?s d) \<longleftrightarrow> _")
proof -
  obtain i :: object_info where True by blast
  have all_d: "(\<forall>d. stored_info ic d \<longrightarrow> ?m d = ?s d) \<longleftrightarrow> ?m None = ?s None \<and> (\<forall>i. ?m (Some (ic_write ic i)) = ?s (Some (ic_write ic i)))"
    by (auto simp: stored_info_def)
  have d_none: "apply_info ic m None = Some (if sets_all m then Some (ic_write ic (update_info m i)) else None)" for m
    using apply_info_all [of m ic None i] apply_info_none [of m ic None] apply_info_part(1) [of m ic] by auto
  have d_some: "apply_info ic m (Some (ic_write ic j)) = Some (if sets_none m then None else Some (ic_write ic (update_info m j)))" for m j
    using apply_info_some [OF _ assms, of m j] apply_info_none [of m ic] by auto
  have ua: "sets_all u \<Longrightarrow> (update_info u j = update_info u k) = True" for j k
    using update_all by blast
  show ?thesis
    unfolding all_d merge_faithful_def
    using merge_sets [of u l] sets_disjoint [of u] sets_disjoint [of l]
    by (auto simp: d_none d_some ua ic_write_inj [OF assms] update_merge merge_sets split: if_splits)
qed

text \<open>C21. Merging two messages for an object is defined for all messages that can be read, and acts like the lower
  message followed by the upper one exactly when the upper one sets everything, or both delete, or neither
  deletes, size and time of the lower one do not exceed those of the upper one and the union does not become
  a complete message. In particular a deletion merged with another message is lost.\<close>

theorem meta_merge_exact:
  assumes "info_roundtrip ic" "is_fixed_key key" "meta_unpack bu = Some (Some u)" "meta_unpack bl = Some (Some l)"
  shows "\<exists>bm. meta_merge key bu bl = Some bm \<and>
    ((\<forall>d. stored_info ic d \<longrightarrow> meta_apply ic key bm d = meta_apply ic key bl d \<bind> meta_apply ic key bu) \<longleftrightarrow> merge_faithful u l)"
  using merged_bytes [OF assms(2-4)] merge_faithful_iff [OF assms(1), of u l] meta_apply_unpacked [OF assms(2)] assms(3,4)
  by fastforce

text \<open>A deletion on top of a change of the size.\<close>

definition example_info_codec :: info_codec where
  "example_info_codec = \<lparr>
     ic_write = (\<lambda>i. to_le 8 (unat (oi_object_id i)) @ to_le 8 (unat (oi_size i))
       @ [oi_pref i, pat_as_u8 (oi_access_pattern i), if oi_mtime i < 0 then 1 else 0] @ replicate (nat \<bar>oi_mtime i\<bar>) 0),
     ic_read = (\<lambda>b. do {
       a \<leftarrow> pat_try_from (b ! 17);
       Some \<lparr>oi_object_id = word_of_nat (from_le (take 8 b)), oi_size = word_of_nat (from_le (take 8 (drop 8 b))),
         oi_mtime = (if b ! 18 = 1 then - int (length b - 19) else int (length b - 19)),
         oi_pref = b ! 16, oi_access_pattern = a\<rparr> })\<rparr>"

lemma example_info_roundtrip: "info_roundtrip example_info_codec"
proof -
  have "unat w < 256 ^ 8" for w :: "64 word" using unsigned_less [of w] by simp
  then show ?thesis
    by (auto simp: info_roundtrip_def example_info_codec_def nth_append codec length_to_le pat_roundtrip)
qed

theorem meta_merge_exact_witness:
  "info_roundtrip example_info_codec \<and>
   (\<exists>bm. meta_merge [97] [0] [2, 5, 0, 0, 0, 0, 0, 0, 0] = Some bm \<and>
    \<not> (\<forall>d. stored_info example_info_codec d \<longrightarrow> meta_apply example_info_codec [97] bm d =
        meta_apply example_info_codec [97] [2, 5, 0, 0, 0, 0, 0, 0, 0] d \<bind> meta_apply example_info_codec [97] [0]))"
proof -
  let ?l = "\<lparr>mm_object_id = None, mm_size = Some 5, mm_mtime = None, mm_pref = None, mm_access_pattern = None\<rparr>"
  have u: "meta_unpack [0] = Some (Some meta_delete)"
    by (simp add: meta_unpack_def field_def meta_delete_def)
  have l: "meta_unpack [2, 5, 0, 0, 0, 0, 0, 0, 0] = Some (Some ?l)"
    by (simp add: meta_unpack_def field_def read_le64_def)
  have "\<not> merge_faithful meta_delete ?l"
    by (simp add: merge_faithful_def sets_all_def sets_none_def meta_delete_def)
  with meta_merge_exact [OF example_info_roundtrip _ u l, of "[97]"] example_info_roundtrip show ?thesis
    by (simp add: is_fixed_key_def)
qed

end
