(* ===== verification/Dataset.thy ===== *)
theory Dataset
  imports RootTreeMsg DefaultMessageAction BTreeMap
begin

text \<open>
  The key-value interface of a dataset (\<^verbatim>\<open>database/dataset.rs\<close>) and the bounds of range queries
  (\<^verbatim>\<open>range_validation.rs\<close>, \<^verbatim>\<open>tree/imp/range.rs\<close>). A tree is represented by its contents, the ordered map of the
  values its keys have: a message takes effect when it is inserted. For the default message action this is what
  a lookup sees, however the messages are buffered and merged (\<open>DefaultMessageAction\<close>); for the metadata of objects
  \<open>ObjectMeta\<close> shows when it is. The storage preference of an entry does not influence its value and is left out; errors of
  the device do not occur.
\<close>

type_synonym tree_contents = "(bytes, bytes) btree_map"

datatype db_error = KeyContainsNullByte | MessageTooLarge | InvalidRange | DoesNotExist | AlreadyExists | InUse

datatype range_bound = Unbounded | Included bytes | Excluded bytes

definition is_inclusive_non_empty :: "range_bound \<Rightarrow> range_bound \<Rightarrow> bool" where
  "is_inclusive_non_empty lo hi = (case (lo, hi) of
     (Unbounded, _) \<Rightarrow> True
   | (_, Unbounded) \<Rightarrow> True
   | (Included a, Included b) \<Rightarrow> a \<le> b
   | (Excluded a, Included b) \<Rightarrow> a < b
   | (Included a, Excluded b) \<Rightarrow> a < b
   | (Excluded a, Excluded b) \<Rightarrow> a < b)"

definition increment_pivot_key :: "bytes \<Rightarrow> bytes" where
  "increment_pivot_key v = v @ [0]"

text \<open>The bounds a range iterator starts with; the upper one is always inclusive.\<close>

definition below_min :: "range_bound \<Rightarrow> bytes \<Rightarrow> bool" where
  "below_min lo key = (case lo of Unbounded \<Rightarrow> False | Included a \<Rightarrow> key < a | Excluded a \<Rightarrow> key \<le> a)"

definition max_key :: "range_bound \<Rightarrow> bytes option" where
  "max_key hi = (case hi of Unbounded \<Rightarrow> None | Included b \<Rightarrow> Some b | Excluded b \<Rightarrow> Some (increment_pivot_key b))"

definition above_max :: "range_bound \<Rightarrow> bytes \<Rightarrow> bool" where
  "above_max hi key = (case max_key hi of None \<Rightarrow> False | Some b \<Rightarrow> b < key)"

definition tree_range :: "range_bound \<Rightarrow> range_bound \<Rightarrow> tree_contents \<Rightarrow> db_error + (bytes \<times> bytes) list" where
  "tree_range lo hi t =
     (if \<not> is_inclusive_non_empty lo hi then Inl InvalidRange
      else Inr (filter (\<lambda>e. \<not> below_min lo (fst e) \<and> \<not> above_max hi (fst e)) t))"

definition tree_insert :: "msg_action \<Rightarrow> bytes \<Rightarrow> bytes \<Rightarrow> tree_contents \<Rightarrow> tree_contents option" where
  "tree_insert ma key msg t = do {
     v \<leftarrow> ma_apply ma key msg (bt_get t key);
     Some (case v of None \<Rightarrow> bt_remove key t | Some d \<Rightarrow> bt_insert key d t) }"

definition MAX_MESSAGE_SIZE :: nat where "MAX_MESSAGE_SIZE = 512 * 1024"

definition ds_insert :: "bytes \<Rightarrow> bytes \<Rightarrow> tree_contents \<Rightarrow> (db_error + tree_contents) option" where
  "ds_insert key data t =
     (if MAX_MESSAGE_SIZE < length data then Some (Inl MessageTooLarge)
      else do {
        msg \<leftarrow> sliced_deref (insert_msg data);
        map_option Inr (tree_insert default_message_action key msg t) })"

definition ds_upsert :: "bytes \<Rightarrow> bytes \<Rightarrow> nat \<Rightarrow> tree_contents \<Rightarrow> (db_error + tree_contents) option" where
  "ds_upsert key data off t =
     (if MAX_MESSAGE_SIZE < off + length data then Some (Inl MessageTooLarge)
      else do {
        m \<leftarrow> upsert_msg off data;
        msg \<leftarrow> sliced_deref m;
        map_option Inr (tree_insert default_message_action key msg t) })"

definition ds_delete :: "bytes \<Rightarrow> tree_contents \<Rightarrow> tree_contents option" where
  "ds_delete key t = do { msg \<leftarrow> sliced_deref delete_msg; tree_insert default_message_action key msg t }"

primrec ds_delete_all :: "(bytes \<times> bytes) list \<Rightarrow> tree_contents \<Rightarrow> tree_contents option" where
  "ds_delete_all [] t = Some t"
| "ds_delete_all (e # es) t = ds_delete (fst e) t \<bind> ds_delete_all es"

definition ds_range_delete :: "range_bound \<Rightarrow> range_bound \<Rightarrow> tree_contents \<Rightarrow> (db_error + tree_contents) option" where
  "ds_range_delete lo hi t = (case tree_range lo hi t of
     Inl e \<Rightarrow> Some (Inl e)
   | Inr es \<Rightarrow> map_option Inr (ds_delete_all es t))"

subsection \<open>Effects\<close>

lemma tree_insert_get:
  "tree_insert ma key msg t = Some t' \<Longrightarrow> \<exists>v. ma_apply ma key msg (bt_get t key) = Some v \<and> bt_get t' = (bt_get t)(key := v)"
  unfolding tree_insert_def by (cases "ma_apply ma key msg (bt_get t key)") (auto simp: bt_get_insert bt_get_remove split: option.splits)

lemma tree_insert_sorted: "tree_insert ma key msg t = Some t' \<Longrightarrow> sorted_keys t \<Longrightarrow> sorted_keys t'"
  by (auto simp: tree_insert_def bind_eq_Some_conv sorted_bt_insert sorted_bt_remove split: option.splits)

lemma sliced_deref_of_cow: "length b < 2 ^ 32 \<Longrightarrow> sliced_deref (sliced_of_cow b) = Some b"
  by (simp add: sliced_deref_wf sliced_of_cow_wf sliced_of_cow_bytes)

text \<open>A value is replaced, overwritten in place, or removed.\<close>

lemma ds_insert_spec:
  assumes "length data \<le> MAX_MESSAGE_SIZE"
  shows "ds_insert key data t = Some (Inr (bt_insert key data t))"
  using assms sliced_deref_of_cow [of "1 # data"]
  by (simp add: ds_insert_def insert_msg_def build_overwrite_msg_def tree_insert_def default_message_action_def
      apply_bytes_def MAX_MESSAGE_SIZE_def)

definition overlay :: "nat \<Rightarrow> bytes \<Rightarrow> bytes \<Rightarrow> bytes" where
  "overlay off new d = map (\<lambda>i. if off \<le> i \<and> i < off + length new then new ! (i - off)
     else if i < length d then d ! i else 0) [0..<max (length d) (off + length new)]"

lemma ds_upsert_spec:
  assumes "off + length data \<le> MAX_MESSAGE_SIZE"
  shows "ds_upsert key data off t = Some (Inr (bt_insert key (overlay off data (case bt_get t key of None \<Rightarrow> [] | Some b \<Rightarrow> b)) t))"
proof -
  have "length (append_upsert [2] (UBytes off data)) < 2 ^ 32" using assms by (simp add: length_append_upsert MAX_MESSAGE_SIZE_def)
  moreover have "append_upsert [2] (UBytes off data) = 2 # encode_upserts [UBytes off data]"
    using append_upsert_append [of "[2]" "UBytes off data"] by (simp add: encode_upserts_def)
  ultimately have msg: "\<exists>m. upsert_msg off data = Some m \<and> sliced_deref m = Some (2 # encode_upserts [UBytes off data])"
    using sliced_deref_of_cow [of "append_upsert [2] (UBytes off data)"]
    by (simp add: upsert_msg_def build_upsert_msg_def length_append_upsert length_encode_upserts Let_def del: append_upsert.simps)
  have "apply_bytes key (2 # encode_upserts [UBytes off data]) d
      = Some (Some (overlay off data (case d of None \<Rightarrow> [] | Some b \<Rightarrow> b)))" for d
    using assms parse_encode_upserts [of "[UBytes off data]"]
    by (simp add: apply_bytes_def MAX_MESSAGE_SIZE_def byte_upsert_effect overlay_def del: apply_upsert.simps)
  with msg assms show ?thesis
    by (auto simp: ds_upsert_def tree_insert_def default_message_action_def)
qed

lemma ds_delete_spec: "ds_delete key t = Some (bt_remove key t)"
  using sliced_deref_of_cow [of "[0]"]
  by (simp add: ds_delete_def delete_msg_def build_overwrite_msg_def tree_insert_def default_message_action_def apply_bytes_def)

lemma ds_delete_all_spec: "ds_delete_all es t = Some (filter (\<lambda>e. fst e \<notin> fst ` set es) t)"
  by (induction es arbitrary: t) (auto simp: ds_delete_spec bt_remove_def intro!: filter_cong)

text \<open>An exclusive upper bound is not: the bound itself is in the range, and its successor.\<close>

lemma le_append_zero: "k \<le> b @ [0] \<longleftrightarrow> k \<le> b \<or> k = b @ [0]" for k b :: bytes
proof (induction b arbitrary: k)
  case Nil
  show ?case by (cases k) (auto simp: order.order_iff_strict)
next
  case (Cons x b)
  then show ?case by (cases k) auto
qed

lemma tree_range_get:
  "tree_range lo hi t = Inr es \<Longrightarrow> bt_get es k = (if below_min lo k \<or> above_max hi k then None else bt_get t k)"
  using bt_get_filter [of "\<lambda>k. \<not> below_min lo k \<and> \<not> above_max hi k" t k]
  by (auto simp: tree_range_def split: if_splits)

lemma tree_range_sorted: "tree_range lo hi t = Inr es \<Longrightarrow> sorted_keys t \<Longrightarrow> sorted_keys es"
  by (auto simp: tree_range_def sorted_keys_filter split: if_splits)

end
