(* ===== verification/ObjectStore.thy ===== *)
theory ObjectStore
  imports ObjectMeta Dataset
begin

text \<open>
  The object store (\<^verbatim>\<open>object/mod.rs\<close>, \<^verbatim>\<open>chunk.rs\<close>, \<^verbatim>\<open>cursor.rs\<close>): an object is cut into chunks, the values of
  consecutive keys of the data tree; its name, size and custom metadata are in the metadata tree. The trees
  are represented by their contents (\<open>Dataset\<close>). A buffer is its list of bytes; the clock is an argument; reports to the
  migration policies and storage preferences of chunks do not influence the contents and are left out.
\<close>

subsection \<open>Chunks\<close>

definition CHUNK_SIZE :: nat where "CHUNK_SIZE = 128 * 1024"

record chunk_offset =
  co_chunk_id :: nat
  co_offset :: nat

record chunk_range =
  cr_start :: chunk_offset
  cr_end :: chunk_offset

definition co_as_bytes :: "chunk_offset \<Rightarrow> nat" where
  "co_as_bytes c = co_chunk_id c * CHUNK_SIZE + co_offset c"

definition from_byte_bounds :: "nat \<Rightarrow> nat \<Rightarrow> chunk_range" where
  "from_byte_bounds off len =
     (let stop = min (off + len) (2 ^ 64 - 1)
      in \<lparr>cr_start = \<lparr>co_chunk_id = (off div CHUNK_SIZE) mod 2 ^ 32, co_offset = off mod CHUNK_SIZE\<rparr>,
          cr_end = \<lparr>co_chunk_id = (stop div CHUNK_SIZE) mod 2 ^ 32, co_offset = stop mod CHUNK_SIZE\<rparr>\<rparr>)"

definition single_chunk_len :: "chunk_range \<Rightarrow> nat option" where
  "single_chunk_len r = checked_sub (co_offset (cr_end r)) (co_offset (cr_start r))"

function split_chunks :: "chunk_offset \<Rightarrow> chunk_offset \<Rightarrow> chunk_range list" where
  "split_chunks start stop =
     (if co_chunk_id stop < co_chunk_id start \<or> start = stop then []
      else \<lparr>cr_start = start, cr_end = \<lparr>co_chunk_id = co_chunk_id start,
              co_offset = (if co_chunk_id start = co_chunk_id stop then co_offset stop else CHUNK_SIZE)\<rparr>\<rparr>
        # (if co_chunk_id start + 1 < 2 ^ 32 then split_chunks \<lparr>co_chunk_id = co_chunk_id start + 1, co_offset = 0\<rparr> stop else []))"
  by pat_completeness auto
termination
  by (relation "measure (\<lambda>(start, stop). Suc (co_chunk_id stop) - co_chunk_id start)") auto

declare split_chunks.simps [simp del]

definition split_at_chunk_bounds :: "chunk_range \<Rightarrow> chunk_range list" where
  "split_at_chunk_bounds r = split_chunks (cr_start r) (cr_end r)"

definition object_chunk_key :: "object_id \<Rightarrow> nat \<Rightarrow> bytes" where
  "object_chunk_key oid chunk_id = to_be 8 (unat oid) @ to_be 4 chunk_id"

definition decode_object_chunk_key :: "bytes \<Rightarrow> object_id \<times> nat" where
  "decode_object_chunk_key key = (word_of_nat (from_be (take 8 key)), from_be (drop 8 key))"

subsection \<open>The store\<close>

definition OBJECT_ID_COUNTER_KEY :: bytes where "OBJECT_ID_COUNTER_KEY = [0, 111, 105, 100]"

record object_store =
  os_data :: tree_contents
  os_metadata :: tree_contents
  object_id_counter :: object_id

record object_handle =
  ob_key :: bytes
  ob_id :: object_id
  ob_storage_preference :: storage_preference

definition with_datasets :: "tree_contents \<Rightarrow> tree_contents \<Rightarrow> object_store option" where
  "with_datasets data metadata = do {
     counter \<leftarrow> (case bt_get data OBJECT_ID_COUNTER_KEY of
       Some b \<Rightarrow> if length b = 8 then do { assert_that (from_le b + 1 < 2 ^ 64); Some (word_of_nat (from_le b + 1)) } else Some 0
     | None \<Rightarrow> Some 0);
     Some \<lparr>os_data = data, os_metadata = metadata, object_id_counter = counter\<rparr> }"

definition read_object_info :: "info_codec \<Rightarrow> bytes \<Rightarrow> object_store \<Rightarrow> object_info option option" where
  "read_object_info ic key os = (case bt_get (os_metadata os) key of
     Some d \<Rightarrow> map_option Some (ic_read ic d)
   | None \<Rightarrow> Some None)"

definition update_object_info :: "info_codec \<Rightarrow> bytes \<Rightarrow> meta_message \<Rightarrow> object_store \<Rightarrow> object_store option" where
  "update_object_info ic key m os = do {
     b \<leftarrow> meta_pack m;
     t \<leftarrow> tree_insert (meta_message_action ic) key b (os_metadata os);
     Some (os\<lparr>os_metadata := t\<rparr>) }"

text \<open>The search for an unused object identifier; the counter wraps.\<close>

partial_function (option) find_oid :: "tree_contents \<Rightarrow> object_id \<Rightarrow> (object_id \<times> object_id) option" where
  "find_oid data counter =
     (if bt_get data (object_chunk_key counter 0) \<noteq> None then find_oid data (counter + 1)
      else Some (counter, counter + 1))"

definition init_object ::
  "info_codec \<Rightarrow> int \<Rightarrow> bytes \<Rightarrow> storage_preference \<Rightarrow> preferred_access_type \<Rightarrow> object_store
    \<Rightarrow> ((db_error + object_handle \<times> object_info) \<times> object_store) option" where
  "init_object ic now key pref access_type os =
     (if 0 \<in> set key then Some (Inl KeyContainsNullByte, os)
      else do {
        (oid, counter) \<leftarrow> find_oid (os_data os) (object_id_counter os);
        let os = os\<lparr>object_id_counter := counter\<rparr>;
        let info = \<lparr>oi_object_id = oid, oi_size = 0, oi_mtime = now, oi_pref = pref, oi_access_pattern = access_type\<rparr>;
        os \<leftarrow> update_object_info ic key (meta_set_info info) os;
        r \<leftarrow> ds_insert OBJECT_ID_COUNTER_KEY (to_le 8 (unat oid)) (os_data os);
        case r of
          Inl e \<Rightarrow> Some (Inl e, os)
        | Inr t \<Rightarrow> Some (Inr (\<lparr>ob_key = key, ob_id = oid, ob_storage_preference = pref\<rparr>, info), os\<lparr>os_data := t\<rparr>) })"

definition open_object ::
  "info_codec \<Rightarrow> bytes \<Rightarrow> storage_preference \<Rightarrow> object_store \<Rightarrow> (db_error + (object_handle \<times> object_info) option) option" where
  "open_object ic key pref os =
     (if 0 \<in> set key then Some (Inl KeyContainsNullByte)
      else do {
        info \<leftarrow> read_object_info ic key os;
        Some (Inr (map_option (\<lambda>i. (\<lparr>ob_key = key, ob_id = oi_object_id i, ob_storage_preference = pref\<rparr>, i)) info)) })"

definition open_or_create_object ::
  "info_codec \<Rightarrow> int \<Rightarrow> bytes \<Rightarrow> storage_preference \<Rightarrow> object_store
    \<Rightarrow> ((db_error + object_handle \<times> object_info) \<times> object_store) option" where
  "open_or_create_object ic now key pref os = do {
     r \<leftarrow> open_object ic key pref os;
     case r of
       Inl e \<Rightarrow> Some (Inl e, os)
     | Inr (Some obj) \<Rightarrow> Some (Inr obj, os)
     | Inr None \<Rightarrow> init_object ic now key pref Unknown os }"

subsection \<open>Custom metadata, deletion, renaming\<close>

definition metadata_key :: "object_handle \<Rightarrow> bytes \<Rightarrow> bytes" where
  "metadata_key ob name = ob_key ob @ [0] @ name"

definition metadata_bounds :: "object_handle \<Rightarrow> bytes \<times> bytes" where
  "metadata_bounds ob = (ob_key ob @ [0], ob_key ob @ [1])"

definition get_metadata :: "object_handle \<Rightarrow> bytes \<Rightarrow> object_store \<Rightarrow> db_error + bytes option" where
  "get_metadata ob name os =
     (if 0 \<in> set name then Inl KeyContainsNullByte else Inr (bt_get (os_metadata os) (metadata_key ob name)))"

definition insert_meta :: "info_codec \<Rightarrow> bytes \<Rightarrow> bytes \<Rightarrow> object_store \<Rightarrow> object_store option" where
  "insert_meta ic key msg os = map_option (\<lambda>t. os\<lparr>os_metadata := t\<rparr>) (tree_insert (meta_message_action ic) key msg (os_metadata os))"

definition set_metadata :: "info_codec \<Rightarrow> object_handle \<Rightarrow> bytes \<Rightarrow> bytes \<Rightarrow> object_store \<Rightarrow> (db_error + object_store) option" where
  "set_metadata ic ob name val os =
     (if 0 \<in> set name then Some (Inl KeyContainsNullByte)
      else map_option Inr (insert_meta ic (metadata_key ob name) (set_custom val) os))"

definition delete_metadata :: "info_codec \<Rightarrow> object_handle \<Rightarrow> bytes \<Rightarrow> object_store \<Rightarrow> (db_error + object_store) option" where
  "delete_metadata ic ob name os =
     (if 0 \<in> set name then Some (Inl KeyContainsNullByte)
      else map_option Inr (insert_meta ic (metadata_key ob name) delete_custom os))"

definition iter_metadata :: "object_handle \<Rightarrow> object_store \<Rightarrow> db_error + (bytes \<times> bytes) list" where
  "iter_metadata ob os = (case metadata_bounds ob of (start, stop) \<Rightarrow>
     (case tree_range (Included start) (Excluded stop) (os_metadata os) of
        Inl e \<Rightarrow> Inl e
      | Inr es \<Rightarrow> Inr (map (\<lambda>(k, v). (drop (length start) k, v)) es)))"

primrec insert_meta_all :: "info_codec \<Rightarrow> bytes \<Rightarrow> (bytes \<times> bytes) list \<Rightarrow> object_store \<Rightarrow> object_store option" where
  "insert_meta_all ic msg [] os = Some os"
| "insert_meta_all ic msg (e # es) os = insert_meta ic (fst e) msg os \<bind> insert_meta_all ic msg es"

definition delete_object :: "info_codec \<Rightarrow> object_handle \<Rightarrow> object_store \<Rightarrow> (db_error option \<times> object_store) option" where
  "delete_object ic ob os = do {
     os \<leftarrow> update_object_info ic (ob_key ob) meta_delete os;
     let (start, stop) = metadata_bounds ob;
     case tree_range (Included start) (Excluded stop) (os_metadata os) of
       Inl e \<Rightarrow> Some (Some e, os)
     | Inr es \<Rightarrow> do {
         os \<leftarrow> insert_meta_all ic delete_custom es os;
         r \<leftarrow> ds_range_delete (Included (object_chunk_key (ob_id ob) 0)) (Excluded (object_chunk_key (ob_id ob) (2 ^ 32 - 1))) (os_data os);
         case r of
           Inl e \<Rightarrow> Some (Some e, os)
         | Inr t \<Rightarrow> Some (None, os\<lparr>os_data := t\<rparr>) } }"

definition rename_entry :: "info_codec \<Rightarrow> bytes \<Rightarrow> bytes \<Rightarrow> bytes \<Rightarrow> object_store \<Rightarrow> object_store option" where
  "rename_entry ic new_key k v os =
     (if is_fixed_key k then do {
        b \<leftarrow> meta_pack meta_delete;
        os \<leftarrow> insert_meta ic k b os;
        insert_meta ic new_key v os }
      else do {
        os \<leftarrow> insert_meta ic k delete_custom os;
        insert_meta ic (new_key @ [0] @ drop 1 (dropWhile (\<lambda>b. b \<noteq> 0) k)) (set_custom v) os })"

primrec rename_entries :: "info_codec \<Rightarrow> bytes \<Rightarrow> (bytes \<times> bytes) list \<Rightarrow> object_store \<Rightarrow> object_store option" where
  "rename_entries ic new_key [] os = Some os"
| "rename_entries ic new_key (e # es) os = rename_entry ic new_key (fst e) (snd e) os \<bind> rename_entries ic new_key es"

definition rename :: "info_codec \<Rightarrow> bytes \<Rightarrow> object_handle \<Rightarrow> object_store \<Rightarrow> (db_error option \<times> object_handle \<times> object_store) option" where
  "rename ic new_key ob os =
     (if 0 \<in> set new_key then Some (Some KeyContainsNullByte, ob, os)
      else let old_key = ob_key ob; ob = ob\<lparr>ob_key := new_key\<rparr>
        in case tree_range (Included old_key) (Excluded (ob_key ob @ [1])) (os_metadata os) of
             Inl e \<Rightarrow> Some (Some e, ob, os)
           | Inr es \<Rightarrow> map_option (\<lambda>os. (None, ob, os)) (rename_entries ic new_key es os))"

definition list_objects :: "info_codec \<Rightarrow> range_bound \<Rightarrow> range_bound \<Rightarrow> object_store \<Rightarrow> (db_error + (object_handle \<times> object_info) list) option" where
  "list_objects ic lo hi os = (case tree_range lo hi (os_metadata os) of
     Inl e \<Rightarrow> Some (Inl e)
   | Inr es \<Rightarrow> map_option Inr (those (map (\<lambda>(key, v). map_option (\<lambda>i.
       (\<lparr>ob_key = key, ob_id = oi_object_id i, ob_storage_preference = NONE\<rparr>, i)) (ic_read ic v))
       (filter (\<lambda>(key, v). is_fixed_key key) es))))"

subsection \<open>Reading and writing\<close>

definition read_chunk_range :: "object_handle \<Rightarrow> nat \<Rightarrow> nat \<Rightarrow> object_store \<Rightarrow> (db_error + (nat \<times> nat \<times> bytes) list) option" where
  "read_chunk_range ob c0 c1 os =
     (case tree_range (Included (object_chunk_key (ob_id ob) c0)) (Included (object_chunk_key (ob_id ob) c1)) (os_data os) of
        Inl e \<Rightarrow> Some (Inl e)
      | Inr es \<Rightarrow> map_option Inr (those (map (\<lambda>(k, v). do {
          assert_that (length k = 12);
          let byte_offset = co_as_bytes \<lparr>co_chunk_id = snd (decode_object_chunk_key k), co_offset = 0\<rparr>;
          Some (byte_offset, byte_offset + length v, v) }) es)))"

text \<open>One chunk in the loop of \<^verbatim>\<open>read_at\<close>: the filled and the remaining part of the buffer, the end of the last chunk and
  the number of bytes read.\<close>

type_synonym read_state = "bytes \<times> bytes \<times> nat \<times> nat"

definition read_chunk :: "nat \<Rightarrow> nat \<Rightarrow> nat \<times> nat \<times> bytes \<Rightarrow> read_state \<Rightarrow> read_state option" where
  "read_chunk off to_be_read chunk st = (case (chunk, st) of ((start, stop, v), (filled, buf, last_offset, total_read)) \<Rightarrow> do {
     let chunk_start = max start off;
     let gap = min (chunk_start - last_offset) to_be_read;
     assert_that (gap \<le> length buf);
     let filled = filled @ replicate gap 0;
     let buf = drop gap buf;
     let chunk_end = min stop (off + to_be_read);
     let want_len = chunk_end - chunk_start;
     let have_len = (if chunk_start - start \<le> length v then min want_len (length v - (chunk_start - start)) else 0);
     assert_that (want_len \<le> length buf);
     let filled = filled @ take have_len (drop (chunk_start - start) v) @ replicate (want_len - have_len) 0;
     Some (filled, drop want_len buf, stop, total_read + gap + want_len) })"

primrec read_chunks :: "nat \<Rightarrow> nat \<Rightarrow> (nat \<times> nat \<times> bytes) list \<Rightarrow> read_state \<Rightarrow> read_state option" where
  "read_chunks off to_be_read [] st = Some st"
| "read_chunks off to_be_read (chunk # chunks) st = read_chunk off to_be_read chunk st \<bind> read_chunks off to_be_read chunks"

definition read_at :: "info_codec \<Rightarrow> object_handle \<Rightarrow> bytes \<Rightarrow> nat \<Rightarrow> object_store \<Rightarrow> ((db_error + nat) \<times> bytes) option" where
  "read_at ic ob buf off os = do {
     info \<leftarrow> read_object_info ic (ob_key ob) os;
     let obj_size = (case info of None \<Rightarrow> 0 | Some i \<Rightarrow> unat (oi_size i));
     let to_be_read = min (length buf) (obj_size - off);
     let r = from_byte_bounds off to_be_read;
     chunks \<leftarrow> read_chunk_range ob (co_chunk_id (cr_start r)) (co_chunk_id (cr_end r)) os;
     case chunks of
       Inl e \<Rightarrow> Some (Inl e, buf)
     | Inr chunks \<Rightarrow> do {
         (filled, rest, last_offset, total_read) \<leftarrow> read_chunks off to_be_read chunks ([], buf, off, 0);
         if total_read \<noteq> length rest then Some (Inr to_be_read, filled @ replicate (length rest) 0)
         else Some (Inr total_read, filled @ rest) } }"

fun write_chunks :: "object_id \<Rightarrow> chunk_range list \<Rightarrow> bytes \<Rightarrow> nat \<Rightarrow> nat option \<Rightarrow> tree_contents
    \<Rightarrow> (db_error option \<times> nat \<times> nat option \<times> tree_contents) option" where
  "write_chunks oid [] buf total_written sz t = Some (None, total_written, sz, t)"
| "write_chunks oid (chunk # chunks) buf total_written sz t = do {
     len \<leftarrow> single_chunk_len chunk;
     assert_that (len \<le> length buf);
     r \<leftarrow> ds_upsert (object_chunk_key oid (co_chunk_id (cr_start chunk))) (take len buf) (co_offset (cr_start chunk)) t;
     case r of
       Inl e \<Rightarrow> Some (Some e, total_written, sz, t)
     | Inr t \<Rightarrow> write_chunks oid chunks (drop len buf) (total_written + len) (Some (co_as_bytes (cr_end chunk))) t }"

definition write_at ::
  "info_codec \<Rightarrow> int \<Rightarrow> object_handle \<Rightarrow> bytes \<Rightarrow> nat \<Rightarrow> storage_preference \<Rightarrow> object_store \<Rightarrow> ((nat \<times> db_error + nat) \<times> object_store) option" where
  "write_at ic now ob buf off pref os = do {
     (err, total_written, sz, t) \<leftarrow> write_chunks (ob_id ob) (split_at_chunk_bounds (from_byte_bounds off (length buf))) buf 0 None (os_data os);
     let os = os\<lparr>os_data := t\<rparr>;
     let meta_change = meta_delete\<lparr>mm_size := map_option word_of_nat sz, mm_mtime := Some now\<rparr>;
     case err of
       Some e \<Rightarrow> do { os \<leftarrow> update_object_info ic (ob_key ob) meta_change os; Some (Inl (total_written, e), os) }
     | None \<Rightarrow> do {
         os \<leftarrow> update_object_info ic (ob_key ob) (meta_change\<lparr>mm_pref := Some pref\<rparr>) os;
         Some (Inr total_written, os) } }"

subsection \<open>Cursors\<close>

record object_cursor =
  oc_handle :: object_handle
  oc_pos :: "64 word"
  oc_pref :: storage_preference

datatype seek_from = SeekStart "64 word" | SeekEnd "64 word" | SeekCurrent "64 word"

datatype seek_error = InvalidInput | NotFound

text \<open>The offset is a signed number.\<close>

definition add_u64_i64 :: "64 word \<Rightarrow> 64 word \<Rightarrow> 64 word option" where
  "add_u64_i64 base delta =
     (if 0 \<le> sint delta then (if uint base + uint delta < 2 ^ 64 then Some (base + delta) else None)
      else (if - delta \<le> base then Some (base - (- delta)) else None))"

definition seek_to :: "64 word option \<Rightarrow> object_cursor \<Rightarrow> (seek_error + 64 word) \<times> object_cursor" where
  "seek_to new_pos cur = (case new_pos of
     Some p \<Rightarrow> (Inr p, cur\<lparr>oc_pos := p\<rparr>)
   | None \<Rightarrow> (Inl InvalidInput, cur))"

definition cursor_seek :: "info_codec \<Rightarrow> seek_from \<Rightarrow> object_cursor \<Rightarrow> object_store \<Rightarrow> ((seek_error + 64 word) \<times> object_cursor) option" where
  "cursor_seek ic target cur os = (case target of
     SeekStart new_pos \<Rightarrow> Some (Inr new_pos, cur\<lparr>oc_pos := new_pos\<rparr>)
   | SeekEnd delta \<Rightarrow> do {
       info \<leftarrow> read_object_info ic (ob_key (oc_handle cur)) os;
       Some (case info of
         Some i \<Rightarrow> seek_to (add_u64_i64 (oi_size i) delta) cur
       | None \<Rightarrow> (Inl NotFound, cur)) }
   | SeekCurrent delta \<Rightarrow> Some (seek_to (add_u64_i64 (oc_pos cur) delta) cur))"

definition cursor_read :: "info_codec \<Rightarrow> bytes \<Rightarrow> object_cursor \<Rightarrow> object_store \<Rightarrow> ((db_error + nat) \<times> bytes \<times> object_cursor) option" where
  "cursor_read ic buf cur os = do {
     (r, buf) \<leftarrow> read_at ic (oc_handle cur) buf (unat (oc_pos cur)) os;
     let n = (case r of Inl e \<Rightarrow> 0 | Inr n \<Rightarrow> n);
     assert_that (unat (oc_pos cur) + n < 2 ^ 64);
     Some (r, buf, cur\<lparr>oc_pos := oc_pos cur + word_of_nat n\<rparr>) }"

definition cursor_write :: "info_codec \<Rightarrow> int \<Rightarrow> bytes \<Rightarrow> object_cursor \<Rightarrow> object_store
    \<Rightarrow> ((db_error + nat) \<times> object_cursor \<times> object_store) option" where
  "cursor_write ic now buf cur os = do {
     (r, os) \<leftarrow> write_at ic now (oc_handle cur) buf (unat (oc_pos cur)) (oc_pref cur) os;
     let n = (case r of Inl (n, e) \<Rightarrow> n | Inr n \<Rightarrow> n);
     assert_that (unat (oc_pos cur) + n < 2 ^ 64);
     Some (case r of Inl (n, e) \<Rightarrow> Inl e | Inr n \<Rightarrow> Inr n, cur\<lparr>oc_pos := oc_pos cur + word_of_nat n\<rparr>, os) }"

subsection \<open>Cutting a byte range into chunks\<close>

text \<open>The pieces of a byte range: chunk, position in the chunk and length.\<close>

function pieces :: "nat \<Rightarrow> nat \<Rightarrow> (nat \<times> nat \<times> nat) list" where
  "pieces off len = (if len = 0 then [] else
     let l = min len (CHUNK_SIZE - off mod CHUNK_SIZE)
     in (off div CHUNK_SIZE, off mod CHUNK_SIZE, l) # pieces (off + l) (len - l))"
  by pat_completeness auto
termination
  by (relation "measure snd") (auto simp: CHUNK_SIZE_def)

declare pieces.simps [simp del]

lemma CHUNK_SIZE_pos [simp]: "0 < CHUNK_SIZE" "CHUNK_SIZE \<noteq> 0"
  by (simp_all add: CHUNK_SIZE_def)

definition piece_range :: "nat \<times> nat \<times> nat \<Rightarrow> chunk_range" where
  "piece_range p = (case p of (c, o', l) \<Rightarrow>
     \<lparr>cr_start = \<lparr>co_chunk_id = c, co_offset = o'\<rparr>, cr_end = \<lparr>co_chunk_id = c, co_offset = o' + l\<rparr>\<rparr>)"

definition place :: "nat \<Rightarrow> chunk_offset" where
  "place n = \<lparr>co_chunk_id = n div CHUNK_SIZE, co_offset = n mod CHUNK_SIZE\<rparr>"

lemma place_inj: "place a = place b \<longleftrightarrow> a = b"
  by (auto simp: place_def) (metis div_mult_mod_eq)

lemma div_mod_add:
  fixes a n c :: nat
  assumes "a mod c + n < c"
  shows "(a + n) div c = a div c \<and> (a + n) mod c = a mod c + n"
  using assms mod_add_left_eq [of a c n] by (simp add: div_add1_eq)

lemma next_chunk:
  assumes "l = CHUNK_SIZE - off mod CHUNK_SIZE"
  shows "off + l = (off div CHUNK_SIZE + 1) * CHUNK_SIZE"
proof -
  have "x + (c - r) = (q + 1) * c" if "x = q * c + r" "r < c" for x q r c :: nat using that by simp
  from this [of off "off div CHUNK_SIZE" CHUNK_SIZE "off mod CHUNK_SIZE"] show ?thesis
    using assms mod_less_divisor [of CHUNK_SIZE off] by (simp add: div_mult_mod_eq)
qed

lemma split_chunks_pieces:
  assumes "off + len < 2 ^ 32 * CHUNK_SIZE"
  shows "split_chunks (place off) (place (off + len)) = map piece_range (pieces off len)"
  using assms
proof (induction off len rule: pieces.induct)
  case (1 off len)
  define l where "l = min len (CHUNK_SIZE - off mod CHUNK_SIZE)"
  show ?case
  proof (cases "len = 0")
    case True
    then show ?thesis by (simp add: split_chunks.simps pieces.simps)
  next
    case False
    have not_end: "\<not> (off + len) div CHUNK_SIZE < off div CHUNK_SIZE" "place off \<noteq> place (off + len)"
      using False by (simp_all add: place_inj not_less div_le_mono)
    show ?thesis
    proof (cases "off mod CHUNK_SIZE + len < CHUNK_SIZE")
      case True
      then have l: "l = len" by (simp add: l_def)
      have e: "(off + len) div CHUNK_SIZE = off div CHUNK_SIZE" "(off + len) mod CHUNK_SIZE = off mod CHUNK_SIZE + len"
        using div_mod_add [OF True] by simp_all
      have rec: "split_chunks \<lparr>co_chunk_id = Suc (off div CHUNK_SIZE), co_offset = 0\<rparr> (place (off + len)) = []"
        by (subst split_chunks.simps) (simp add: place_def e)
      show ?thesis using False not_end l rec e
        by (subst split_chunks.simps, subst pieces.simps)
          (simp add: Let_def l_def [symmetric] piece_range_def pieces.simps [of _ 0], simp add: place_def e)
    next
      case wide: False
      then have l: "l = CHUNK_SIZE - off mod CHUNK_SIZE" "l \<le> len" by (auto simp: l_def)
      have nxt: "off + l = (off div CHUNK_SIZE + 1) * CHUNK_SIZE" by (rule next_chunk [OF l(1)])
      then have p: "place (off + l) = \<lparr>co_chunk_id = off div CHUNK_SIZE + 1, co_offset = 0\<rparr>"
        by (simp add: place_def)
      have "(off div CHUNK_SIZE + 1) * CHUNK_SIZE \<le> off + len" using nxt l(2) by linarith
      then have below: "off div CHUNK_SIZE < (off + len) div CHUNK_SIZE"
        by (metis Suc_eq_plus1 Suc_le_lessD div_le_mono nonzero_mult_div_cancel_right CHUNK_SIZE_pos(2))
      have "(off + len) div CHUNK_SIZE < 2 ^ 32" using 1(2) by (simp add: less_mult_imp_div_less)
      then have fits: "off div CHUNK_SIZE + 1 < 2 ^ 32" using below by linarith
      have IH: "split_chunks (place (off + l)) (place (off + len)) = map piece_range (pieces (off + l) (len - l))"
        using 1(1) [OF False l_def] 1(2) l(2) by simp
      show ?thesis
        using False not_end below fits IH l(1) mod_less_divisor [of CHUNK_SIZE off] unfolding p
        by (subst split_chunks.simps, subst pieces.simps) (simp add: Let_def l_def [symmetric] piece_range_def, simp add: place_def)
    qed
  qed
qed

lemma from_byte_bounds_place:
  assumes "off + len < 2 ^ 32 * CHUNK_SIZE"
  shows "from_byte_bounds off len = \<lparr>cr_start = place off, cr_end = place (off + len)\<rparr>"
proof -
  have "off div CHUNK_SIZE < 2 ^ 32" "(off + len) div CHUNK_SIZE < 2 ^ 32"
    using assms by (auto intro!: less_mult_imp_div_less)
  moreover have "off + len \<le> 2 ^ 64 - 1" using assms by (simp add: CHUNK_SIZE_def)
  ultimately show ?thesis by (simp add: from_byte_bounds_def place_def Let_def min_absorb1)
qed

lemma split_bounds_pieces:
  "off + len < 2 ^ 32 * CHUNK_SIZE \<Longrightarrow> split_at_chunk_bounds (from_byte_bounds off len) = map piece_range (pieces off len)"
  by (simp add: split_at_chunk_bounds_def from_byte_bounds_place split_chunks_pieces)

text \<open>The pieces of a byte range in terms of positions.\<close>

definition piece_bytes :: "chunk_range \<Rightarrow> nat list" where
  "piece_bytes r = [co_as_bytes (cr_start r)..<co_as_bytes (cr_end r)]"

lemma pieces_cover: "concat (map (piece_bytes \<circ> piece_range) (pieces off len)) = [off..<off + len]"
proof (induction off len rule: pieces.induct)
  case (1 off len)
  define l where "l = min len (CHUNK_SIZE - off mod CHUNK_SIZE)"
  show ?case
  proof (cases "len = 0")
    case False
    have "piece_bytes (piece_range (off div CHUNK_SIZE, off mod CHUNK_SIZE, l)) = [off..<off + l]"
      by (simp add: piece_bytes_def piece_range_def co_as_bytes_def add.assoc [symmetric])
    moreover have "[off..<off + l] @ [off + l..<off + l + (len - l)] = [off..<off + len]"
      using upt_add_eq_append [of off "off + l" "len - l"] by (simp add: l_def)
    ultimately show ?thesis using False 1 [OF False l_def]
      by (subst pieces.simps) (simp add: Let_def l_def [symmetric] comp_def)
  qed (simp add: pieces.simps)
qed

lemma pieces_within: "(c, o', l) \<in> set (pieces off len) \<Longrightarrow> 0 < l \<and> o' + l \<le> CHUNK_SIZE \<and> c * CHUNK_SIZE + o' + l \<le> off + len"
proof (induction off len rule: pieces.induct)
  case (1 off len)
  define m where "m = min len (CHUNK_SIZE - off mod CHUNK_SIZE)"
  from 1(2) have "len \<noteq> 0" by (cases "len = 0") (simp_all add: pieces.simps)
  then have "(c, o', l) = (off div CHUNK_SIZE, off mod CHUNK_SIZE, m) \<or> (c, o', l) \<in> set (pieces (off + m) (len - m))"
    using 1(2) by (subst (asm) pieces.simps) (auto simp: Let_def m_def)
  then show ?case
  proof
    assume "(c, o', l) = (off div CHUNK_SIZE, off mod CHUNK_SIZE, m)"
    then show ?thesis using \<open>len \<noteq> 0\<close> mod_less_divisor [of CHUNK_SIZE off] by (auto simp: m_def min_def)
  next
    assume "(c, o', l) \<in> set (pieces (off + m) (len - m))"
    with 1(1) [OF \<open>len \<noteq> 0\<close> m_def] show ?thesis by (simp add: m_def)
  qed
qed

subsection \<open>Chunk keys\<close>

lemma chunk_key_less:
  "c < 2 ^ 32 \<Longrightarrow> c' < 2 ^ 32 \<Longrightarrow> object_chunk_key oid c < object_chunk_key oid' c' \<longleftrightarrow> oid < oid' \<or> oid = oid' \<and> c < c'"
  using id_pack_less_iff [of oid oid'] id_pack_inj [of oid oid'] to_be_less_iff [of c 4 c']
  by (simp add: object_chunk_key_def append_less_iff id_pack_def)

lemma length_chunk_key [simp]: "length (object_chunk_key oid c) = 12"
  by (simp add: object_chunk_key_def)

lemma decode_chunk_key: "c < 2 ^ 32 \<Longrightarrow> decode_object_chunk_key (object_chunk_key oid c) = (oid, c)"
  by (simp add: decode_object_chunk_key_def object_chunk_key_def from_be_8 from_be_to_be)

lemma chunk_key_inj: "c < 2 ^ 32 \<Longrightarrow> c' < 2 ^ 32 \<Longrightarrow> object_chunk_key oid c = object_chunk_key oid' c' \<longleftrightarrow> oid = oid' \<and> c = c'"
  using decode_chunk_key by (metis prod.inject)

lemma chunk_key_le:
  "c < 2 ^ 32 \<Longrightarrow> c' < 2 ^ 32 \<Longrightarrow> object_chunk_key oid c \<le> object_chunk_key oid' c' \<longleftrightarrow> oid < oid' \<or> oid = oid' \<and> c \<le> c'"
  using chunk_key_less [of c' c oid' oid] by (auto simp: linorder_not_less [symmetric])

text \<open>The key of the counter is not between two chunks of an object.\<close>

lemma counter_key_outside: "\<not> (object_chunk_key oid c \<le> OBJECT_ID_COUNTER_KEY \<and> OBJECT_ID_COUNTER_KEY \<le> object_chunk_key oid c')"
proof -
  define h where "h = take 4 (to_be 8 (unat oid))"
  define r where "r = drop 4 (to_be 8 (unat oid))"
  have k: "object_chunk_key oid c = h @ (r @ to_be 4 c)" for c
    by (simp add: object_chunk_key_def h_def r_def)
  have len: "length h = length OBJECT_ID_COUNTER_KEY" by (simp add: h_def OBJECT_ID_COUNTER_KEY_def)
  have ne: "\<not> r @ to_be 4 c < []" "r @ to_be 4 c \<noteq> []" for c using length_to_be [of 4 c] by (auto simp del: length_to_be)
  have "h < OBJECT_ID_COUNTER_KEY" if "object_chunk_key oid c \<le> OBJECT_ID_COUNTER_KEY"
    using that append_less_iff [OF len [symmetric], of "[]" "r @ to_be 4 c"] append_less_iff [OF len, of "r @ to_be 4 c" "[]"] ne
    by (auto simp: k order.order_iff_strict)
  moreover have "OBJECT_ID_COUNTER_KEY \<le> h" if "OBJECT_ID_COUNTER_KEY \<le> object_chunk_key oid c'"
    using that append_less_iff [OF len, of "r @ to_be 4 c'" "[]"] by (auto simp: k linorder_not_less [symmetric])
  ultimately show ?thesis by fastforce
qed

subsection \<open>The bytes of an object\<close>

definition chunk_at :: "tree_contents \<Rightarrow> object_id \<Rightarrow> nat \<Rightarrow> bytes option" where
  "chunk_at t oid c = bt_get t (object_chunk_key oid c)"

definition byte_at :: "tree_contents \<Rightarrow> object_id \<Rightarrow> nat \<Rightarrow> byte" where
  "byte_at t oid p = (case chunk_at t oid (p div CHUNK_SIZE) of None \<Rightarrow> 0
     | Some v \<Rightarrow> if p mod CHUNK_SIZE < length v then v ! (p mod CHUNK_SIZE) else 0)"

definition data_ok :: "tree_contents \<Rightarrow> bool" where
  "data_ok t \<longleftrightarrow> sorted_keys t \<and> (\<forall>k v. bt_get t k = Some v \<longrightarrow> k = OBJECT_ID_COUNTER_KEY
     \<or> (\<exists>oid c. c < 2 ^ 32 \<and> k = object_chunk_key oid c \<and> length v \<le> CHUNK_SIZE))"

lemma those_map_Some: "\<forall>x \<in> set xs. f x = Some (g x) \<Longrightarrow> those (map f xs) = Some (map g xs)"
  by (induction xs) auto

lemma read_chunk_range_spec:
  assumes "data_ok (os_data os)" "a \<le> b" "b < 2 ^ 32"
  shows "\<exists>L. read_chunk_range ob a b os = Some (Inr (map (\<lambda>(c, v). (c * CHUNK_SIZE, c * CHUNK_SIZE + length v, v)) L))
    \<and> sorted_wrt (<) (map fst L)
    \<and> (\<forall>c v. (c, v) \<in> set L \<longleftrightarrow> a \<le> c \<and> c \<le> b \<and> chunk_at (os_data os) (ob_id ob) c = Some v)"
proof -
  let ?t = "os_data os" and ?k = "object_chunk_key (ob_id ob)"
  define es where "es = filter (\<lambda>e. \<not> below_min (Included (?k a)) (fst e) \<and> \<not> above_max (Included (?k b)) (fst e)) ?t"
  have a: "a < 2 ^ 32" using assms by linarith
  have range: "tree_range (Included (?k a)) (Included (?k b)) ?t = Inr es"
    using chunk_key_le [OF a assms(3), of "ob_id ob" "ob_id ob"] assms(2)
    by (simp add: tree_range_def es_def is_inclusive_non_empty_def)
  have srt: "sorted_keys ?t" using assms(1) by (simp add: data_ok_def)
  have mem: "(k, v) \<in> set es \<longleftrightarrow> (\<exists>c. k = ?k c \<and> a \<le> c \<and> c \<le> b \<and> chunk_at ?t (ob_id ob) c = Some v)" for k v
  proof -
    have "(k, v) \<in> set es \<longleftrightarrow> bt_get ?t k = Some v \<and> ?k a \<le> k \<and> k \<le> ?k b"
      using bt_get_iff_mem [OF srt] by (auto simp: es_def below_min_def above_max_def max_key_def)
    also have "\<dots> \<longleftrightarrow> (\<exists>c. k = ?k c \<and> a \<le> c \<and> c \<le> b \<and> chunk_at ?t (ob_id ob) c = Some v)"
    proof
      assume *: "bt_get ?t k = Some v \<and> ?k a \<le> k \<and> k \<le> ?k b"
      with assms(1) counter_key_outside obtain oid c where c: "c < 2 ^ 32" "k = object_chunk_key oid c"
        unfolding data_ok_def by blast
      with * chunk_key_le [OF a c(1)] chunk_key_le [OF c(1) assms(3)] have "oid = ob_id ob \<and> a \<le> c \<and> c \<le> b" by fastforce
      with * c show "\<exists>c. k = ?k c \<and> a \<le> c \<and> c \<le> b \<and> chunk_at ?t (ob_id ob) c = Some v" by (auto simp: chunk_at_def)
    next
      assume "\<exists>c. k = ?k c \<and> a \<le> c \<and> c \<le> b \<and> chunk_at ?t (ob_id ob) c = Some v"
      then obtain c where c: "k = ?k c" "a \<le> c" "c \<le> b" "chunk_at ?t (ob_id ob) c = Some v" by blast
      then have "c < 2 ^ 32" using assms(3) by linarith
      with c show "bt_get ?t k = Some v \<and> ?k a \<le> k \<and> k \<le> ?k b"
        using chunk_key_le [OF a, of c] chunk_key_le [OF _ assms(3), of c] by (auto simp: chunk_at_def)
    qed
    finally show ?thesis .
  qed
  define cid where "cid k = snd (decode_object_chunk_key k)" for k
  have cid: "cid (?k c) = c" if "c \<le> b" for c using that assms(3) decode_chunk_key [of c] by (simp add: cid_def)
  define L where "L = map (\<lambda>(k, v). (cid k, v)) es"
  have "read_chunk_range ob a b os = Some (Inr (map (\<lambda>(k, v). (cid k * CHUNK_SIZE, cid k * CHUNK_SIZE + length v, v)) es))"
  proof -
    have "those (map (\<lambda>(k, v). do {
          assert_that (length k = 12);
          let byte_offset = co_as_bytes \<lparr>co_chunk_id = snd (decode_object_chunk_key k), co_offset = 0\<rparr>;
          Some (byte_offset, byte_offset + length v, v) }) es)
        = Some (map (\<lambda>(k, v). (cid k * CHUNK_SIZE, cid k * CHUNK_SIZE + length v, v)) es)"
      by (rule those_map_Some) (auto simp: mem cid_def co_as_bytes_def Let_def)
    then show ?thesis by (simp add: read_chunk_range_def range)
  qed
  then have "read_chunk_range ob a b os = Some (Inr (map (\<lambda>(c, v). (c * CHUNK_SIZE, c * CHUNK_SIZE + length v, v)) L))"
    by (simp add: L_def comp_def split_beta)
  moreover have "sorted_wrt (<) (map fst L)"
  proof -
    have sk: "sorted_wrt (\<lambda>e e'. fst e < fst e') es"
      using tree_range_sorted [OF range srt] by (simp add: sorted_wrt_map)
    have "sorted_wrt (\<lambda>e e'. cid (fst e) < cid (fst e')) es"
    proof (rule sorted_wrt_mono_rel [OF _ sk])
      fix e e' assume "e \<in> set es" "e' \<in> set es" and lt: "fst e < fst e'"
      then obtain c c' where "fst e = ?k c" "fst e' = ?k c'" "c \<le> b" "c' \<le> b"
        using mem [of "fst e" "snd e"] mem [of "fst e'" "snd e'"] by auto
      then show "cid (fst e) < cid (fst e')"
        using lt cid chunk_key_less [of c c' "ob_id ob" "ob_id ob"] assms(3) by auto
    qed
    then show ?thesis by (simp add: L_def sorted_wrt_map split_beta)
  qed
  moreover have "(c, v) \<in> set L \<longleftrightarrow> a \<le> c \<and> c \<le> b \<and> chunk_at ?t (ob_id ob) c = Some v" for c v
  proof -
    have "(c, v) \<in> set L \<longleftrightarrow> (\<exists>k. (k, v) \<in> set es \<and> cid k = c)" by (force simp: L_def)
    also have "\<dots> \<longleftrightarrow> a \<le> c \<and> c \<le> b \<and> chunk_at ?t (ob_id ob) c = Some v"
      unfolding mem using cid by metis
    finally show ?thesis .
  qed
  ultimately show ?thesis by blast
qed

subsection \<open>Reading\<close>

text \<open>The byte at a position, from a list of chunks.\<close>

definition list_byte :: "(nat \<times> bytes) list \<Rightarrow> nat \<Rightarrow> byte" where
  "list_byte L p = (case map_of L (p div CHUNK_SIZE) of None \<Rightarrow> 0
     | Some v \<Rightarrow> if p mod CHUNK_SIZE < length v then v ! (p mod CHUNK_SIZE) else 0)"

definition list_has :: "(nat \<times> bytes) list \<Rightarrow> nat \<Rightarrow> bool" where
  "list_has L p \<longleftrightarrow> (\<exists>v. map_of L (p div CHUNK_SIZE) = Some v \<and> p mod CHUNK_SIZE < length v)"

abbreviation chunk_triple :: "nat \<times> bytes \<Rightarrow> nat \<times> nat \<times> bytes" where
  "chunk_triple \<equiv> \<lambda>(c, v). (c * CHUNK_SIZE, c * CHUNK_SIZE + length v, v)"

definition read_inv :: "(nat \<Rightarrow> byte) \<Rightarrow> (nat \<Rightarrow> bool) \<Rightarrow> nat \<Rightarrow> nat \<Rightarrow> bytes \<Rightarrow> (nat \<times> bytes) list \<Rightarrow> read_state \<Rightarrow> bool" where
  "read_inv B H off n buf0 L st = (case st of (filled, buf, last_offset, total_read) \<Rightarrow>
     filled = map B [off..<off + total_read] \<and> off \<le> last_offset \<and> off + total_read = min last_offset (off + n)
     \<and> buf = drop total_read buf0 \<and> n \<le> length buf0
     \<and> (\<forall>(c, v) \<in> set L. last_offset \<le> max (c * CHUNK_SIZE) off)
     \<and> (\<forall>p. last_offset \<le> p \<and> p < off + n \<longrightarrow> B p = list_byte L p \<and> H p = list_has L p))"

definition readable_chunks :: "nat \<Rightarrow> nat \<Rightarrow> (nat \<times> bytes) list \<Rightarrow> bool" where
  "readable_chunks off n L \<longleftrightarrow> sorted_wrt (<) (map fst L)
     \<and> (\<forall>(c, v) \<in> set L. length v \<le> CHUNK_SIZE \<and> c * CHUNK_SIZE \<le> off + n \<and> off \<le> c * CHUNK_SIZE + length v)"

lemma list_byte_skip:
  assumes "c * CHUNK_SIZE + length v \<le> p"
  shows "list_byte ((c, v) # L) p = (if p div CHUNK_SIZE = c then 0 else list_byte L p)"
    and "list_has ((c, v) # L) p = (p div CHUNK_SIZE \<noteq> c \<and> list_has L p)"
proof -
  have "length v \<le> p mod CHUNK_SIZE" if "p div CHUNK_SIZE = c"
    using assms that by (metis add_le_cancel_left div_mult_mod_eq)
  then show "list_byte ((c, v) # L) p = (if p div CHUNK_SIZE = c then 0 else list_byte L p)"
    "list_has ((c, v) # L) p = (p div CHUNK_SIZE \<noteq> c \<and> list_has L p)"
    by (auto simp: list_byte_def list_has_def)
qed

lemma map_byte_split: "a \<le> b \<Longrightarrow> b \<le> c \<Longrightarrow> map B [a..<c] = map B [a..<b] @ map B [b..<c]"
  by (metis le_Suc_ex map_append upt_add_eq_append)

lemma read_chunk_step:
  assumes inv: "read_inv B H off n buf0 ((c, v) # L) st" and ok: "readable_chunks off n ((c, v) # L)"
  shows "\<exists>st'. read_chunk off n (chunk_triple (c, v)) st = Some st' \<and> read_inv B H off n buf0 L st'"
proof -
  obtain filled buf last_offset total_read where st: "st = (filled, buf, last_offset, total_read)" by (cases st)
  let ?s = "c * CHUNK_SIZE" and ?e = "c * CHUNK_SIZE + length v"
  define start where "start = max ?s off"
  define stop where "stop = min ?e (off + n)"
  have v: "length v \<le> CHUNK_SIZE" "?s \<le> off + n" "off \<le> ?e" using ok by (auto simp: readable_chunks_def)
  have later: "c < c'" if "(c', v') \<in> set L" for c' v' using ok that by (force simp: readable_chunks_def)
  have i: "filled = map B [off..<off + total_read]" "off \<le> last_offset" "off + total_read = min last_offset (off + n)"
    "buf = drop total_read buf0" "n \<le> length buf0" "last_offset \<le> start"
    "last_offset \<le> p \<Longrightarrow> p < off + n \<Longrightarrow> B p = list_byte ((c, v) # L) p"
    "last_offset \<le> p \<Longrightarrow> p < off + n \<Longrightarrow> H p = list_has ((c, v) # L) p" for p
    using inv by (auto simp: read_inv_def st start_def)
  have s: "start \<le> off + n" "off \<le> start" "?s \<le> start" "start \<le> ?e" using v by (auto simp: start_def)
  then have t: "off + total_read = last_offset" using i by simp
  have gap: "min (start - last_offset) n = start - last_offset" using s i t by linarith
  have stop: "start \<le> stop" "stop \<le> off + n" using s by (auto simp: stop_def)
  have have_len: "min (stop - start) (length v - (start - ?s)) = stop - start" using s by (simp add: stop_def)
  have vis: "start - ?s \<le> length v" using s by linarith
  have zeros: "replicate (start - last_offset) 0 = map B [last_offset..<start]"
  proof (rule nth_equalityI)
    fix j assume "j < length (replicate (start - last_offset) (0 :: byte))"
    then have p: "last_offset + j < start" by simp
    moreover have "list_byte ((c, v) # L) (last_offset + j) = 0"
    proof (cases "map_of ((c, v) # L) ((last_offset + j) div CHUNK_SIZE)")
      case (Some w)
      then have "c \<le> (last_offset + j) div CHUNK_SIZE" using later by (fastforce dest: map_of_SomeD split: if_splits)
      then have "?s \<le> last_offset + j"
        by (metis div_times_less_eq_dividend le_trans mult_le_mono1)
      then show ?thesis using p i by (simp add: start_def max_def split: if_splits)
    qed (simp add: list_byte_def)
    ultimately show "replicate (start - last_offset) 0 ! j = map B [last_offset..<start] ! j"
      using i(7) [of "last_offset + j"] s by simp
  qed simp
  have data: "take (stop - start) (drop (start - ?s) v) = map B [start..<stop]"
  proof (rule nth_equalityI)
    show "length (take (stop - start) (drop (start - ?s) v)) = length (map B [start..<stop])" using s by (auto simp: stop_def)
    fix j assume "j < length (take (stop - start) (drop (start - ?s) v))"
    then have j: "j < stop - start" by simp
    then have "start + j < ?e" by (simp add: stop_def)
    then have k: "start + j - ?s < CHUNK_SIZE" "start + j - ?s < length v" using s v by auto
    have sj: "start + j = (start + j - ?s) + c * CHUNK_SIZE" using s by simp
    have "(start + j) div CHUNK_SIZE = c" "(start + j) mod CHUNK_SIZE = start + j - ?s"
      using k by (subst sj, simp)+
    then have "list_byte ((c, v) # L) (start + j) = v ! (start + j - ?s)" using k by (simp add: list_byte_def)
    also have "start + j - ?s = (start - ?s) + j" using s by simp
    finally have lb: "list_byte ((c, v) # L) (start + j) = v ! ((start - ?s) + j)" .
    have "last_offset \<le> start + j" "start + j < off + n" using i(6) j stop by linarith+
    from i(7) [OF this] have "B (start + j) = v ! ((start - ?s) + j)" by (simp only: lb)
    moreover have "take (stop - start) (drop (start - ?s) v) ! j = v ! ((start - ?s) + j)"
      using j s k by (subst nth_take, simp, subst nth_drop) auto
    moreover have "map B [start..<stop] ! j = B (start + j)" using j by simp
    ultimately show "take (stop - start) (drop (start - ?s) v) ! j = map B [start..<stop] ! j" by (simp only:)
  qed
  define total' where "total' = total_read + (start - last_offset) + (stop - start)"
  have tot: "off + total' = stop" using t i stop by (simp add: total'_def)
  have "filled @ replicate (start - last_offset) 0 @ take (stop - start) (drop (start - ?s) v) = map B [off..<off + total']"
    using i(1) t i(2) i(6) s stop by (simp add: zeros data tot map_byte_split [of off last_offset stop] map_byte_split [of last_offset start stop])
  moreover have "start - last_offset \<le> length buf" "stop - start \<le> length (drop (start - last_offset) buf)"
    using i(4,5,6) t s stop by auto
  ultimately have step: "read_chunk off n (chunk_triple (c, v)) st = Some (map B [off..<off + total'], drop (stop - start) (drop (start - last_offset) buf), ?e, total')"
    using s(1-3) gap have_len stop vis
    by (simp add: read_chunk_def st Let_def start_def [symmetric] stop_def [symmetric] total'_def)
  have "read_inv B H off n buf0 L (map B [off..<off + total'], drop (stop - start) (drop (start - last_offset) buf), ?e, total')"
    unfolding read_inv_def prod.case
  proof (intro conjI ballI allI impI)
    show "off + total' = min ?e (off + n)" using tot by (simp add: stop_def)
    show "drop (stop - start) (drop (start - last_offset) buf) = drop total' buf0" using i(4) by (simp add: total'_def add_ac)
    show "case e of (c', v') \<Rightarrow> ?e \<le> max (c' * CHUNK_SIZE) off" if "e \<in> set L" for e
    proof -
      obtain c' v' where e: "e = (c', v')" by (cases e)
      then have "c + 1 \<le> c'" using later that by (metis Suc_eq_plus1 Suc_leI)
      then have "(c + 1) * CHUNK_SIZE \<le> c' * CHUNK_SIZE" by (rule mult_le_mono1)
      then show ?thesis using v by (simp add: e)
    qed
    have "map_of L c = None" using later by (force simp: map_of_eq_None_iff)
    then show "B p = list_byte L p" "H p = list_has L p" if "?e \<le> p \<and> p < off + n" for p
      using i(7,8) [of p] that s i(6) list_byte_skip [of c v p L] by (auto simp: list_byte_def list_has_def)
  qed (use v i in auto)
  with step show ?thesis by blast
qed

lemma read_chunks_spec:
  assumes "read_inv B H off n buf0 L st" "readable_chunks off n L"
  shows "\<exists>st'. read_chunks off n (map chunk_triple L) st = Some st' \<and> read_inv B H off n buf0 [] st'"
  using assms
proof (induction L arbitrary: st)
  case (Cons e L)
  obtain c v where e: "e = (c, v)" by (cases e)
  from read_chunk_step [OF Cons.prems [unfolded e]] obtain st1 where
    "read_chunk off n (chunk_triple e) st = Some st1" "read_inv B H off n buf0 L st1" by (auto simp: e)
  moreover have "readable_chunks off n L" using Cons.prems(2) by (simp add: readable_chunks_def)
  ultimately show ?case using Cons.IH by simp
qed simp

text \<open>What a read returns: the bytes of the object up to its size. A read shorter than asked for happens only when
  the number of bytes found equals the number of bytes left.\<close>

definition object_size :: "info_codec \<Rightarrow> object_handle \<Rightarrow> object_store \<Rightarrow> nat option" where
  "object_size ic ob os = map_option (\<lambda>info. case info of None \<Rightarrow> 0 | Some i \<Rightarrow> unat (oi_size i)) (read_object_info ic (ob_key ob) os)"

definition stored_at :: "tree_contents \<Rightarrow> object_id \<Rightarrow> nat \<Rightarrow> bool" where
  "stored_at t oid p \<longleftrightarrow> (\<exists>v. chunk_at t oid (p div CHUNK_SIZE) = Some v \<and> p mod CHUNK_SIZE < length v)"

lemma list_byte_at:
  assumes "\<forall>c v. (c, v) \<in> set L \<longleftrightarrow> a \<le> c \<and> c \<le> b \<and> chunk_at t oid c = Some v" "distinct (map fst L)"
    "a \<le> p div CHUNK_SIZE" "p div CHUNK_SIZE \<le> b"
  shows "byte_at t oid p = list_byte L p \<and> stored_at t oid p = list_has L p"
proof -
  have "map_of L (p div CHUNK_SIZE) = chunk_at t oid (p div CHUNK_SIZE)"
    using assms map_of_eq_Some_iff [OF assms(2)] by (cases "chunk_at t oid (p div CHUNK_SIZE)"; cases "map_of L (p div CHUNK_SIZE)") auto
  then show ?thesis by (simp add: byte_at_def list_byte_def stored_at_def list_has_def)
qed

lemma chunk_at_length: "data_ok t \<Longrightarrow> c < 2 ^ 32 \<Longrightarrow> chunk_at t oid c = Some v \<Longrightarrow> length v \<le> CHUNK_SIZE"
proof -
  assume *: "data_ok t" "c < 2 ^ 32" "chunk_at t oid c = Some v"
  have "object_chunk_key oid c \<noteq> OBJECT_ID_COUNTER_KEY" 
    using length_chunk_key [of oid c] by (auto simp: OBJECT_ID_COUNTER_KEY_def simp del: length_chunk_key)
  with * show "length v \<le> CHUNK_SIZE" by (auto simp: data_ok_def chunk_at_def)
qed

lemma read_at_spec:
  assumes ok: "data_ok (os_data os)" and sz: "object_size ic ob os = Some sz"
    and fits: "off + length buf < 2 ^ 32 * CHUNK_SIZE"
    and first: "\<And>v. chunk_at (os_data os) (ob_id ob) (off div CHUNK_SIZE) = Some v \<Longrightarrow> off mod CHUNK_SIZE \<le> length v"
  defines "n \<equiv> min (length buf) (sz - off)"
  shows "\<exists>r buf'. read_at ic ob buf off os = Some (Inr r, buf') \<and> length buf' = length buf \<and> r \<le> n
    \<and> (r = n \<or> 2 * r = length buf \<and> (\<forall>p. off + r \<le> p \<and> p < off + n \<longrightarrow> \<not> stored_at (os_data os) (ob_id ob) p))
    \<and> take r buf' = map (byte_at (os_data os) (ob_id ob)) [off..<off + r]"
proof -
  let ?t = "os_data os" and ?B = "byte_at (os_data os) (ob_id ob)" and ?H = "stored_at (os_data os) (ob_id ob)"
  obtain info where info: "read_object_info ic (ob_key ob) os = Some info" "(case info of None \<Rightarrow> 0 | Some i \<Rightarrow> unat (oi_size i)) = sz"
    using sz by (auto simp: object_size_def)
  define a where "a = off div CHUNK_SIZE"
  define b where "b = (off + n) div CHUNK_SIZE"
  have n: "n \<le> length buf" by (simp add: n_def)
  then have fn: "off + n < 2 ^ 32 * CHUNK_SIZE" using fits by linarith
  have ab: "a \<le> b" by (simp add: a_def b_def div_le_mono)
  have b: "b < 2 ^ 32" unfolding b_def by (rule less_mult_imp_div_less [OF fn])
  obtain L where L: "read_chunk_range ob a b os = Some (Inr (map chunk_triple L))" "sorted_wrt (<) (map fst L)"
    and mem: "\<forall>c v. (c, v) \<in> set L \<longleftrightarrow> a \<le> c \<and> c \<le> b \<and> chunk_at ?t (ob_id ob) c = Some v"
    using read_chunk_range_spec [OF ok ab b, of ob] by blast
  have dist: "distinct (map fst L)" using L(2) by (simp add: strict_sorted_iff)
  have pos: "c * CHUNK_SIZE \<le> off + n" if "c \<le> b" for c
    using that by (simp add: b_def less_eq_div_iff_mult_less_eq)
  have after: "off \<le> c * CHUNK_SIZE + length v" if cv: "(c, v) \<in> set L" for c v
  proof (cases "c = a")
    case True
    then have "off mod CHUNK_SIZE \<le> length v" using first mem cv by (auto simp: a_def)
    then show ?thesis unfolding True a_def by (metis add_le_cancel_left div_mult_mod_eq)
  next
    case False
    then have "a + 1 \<le> c" using mem cv by (metis Suc_eq_plus1 Suc_leI le_neq_implies_less)
    then have "(a + 1) * CHUNK_SIZE \<le> c * CHUNK_SIZE" by (rule mult_le_mono1)
    moreover have "off < (a + 1) * CHUNK_SIZE" using dividend_less_div_times [of CHUNK_SIZE off] by (simp add: a_def algebra_simps)
    ultimately show ?thesis by linarith
  qed
  have rc: "readable_chunks off n L"
  proof -
    have "length v \<le> CHUNK_SIZE \<and> c * CHUNK_SIZE \<le> off + n \<and> off \<le> c * CHUNK_SIZE + length v" if cv: "(c, v) \<in> set L" for c v
    proof -
      from mem cv have "c \<le> b" "chunk_at ?t (ob_id ob) c = Some v" by blast+
      then show ?thesis using chunk_at_length [OF ok, of c "ob_id ob" v] b pos after [OF cv] by auto
    qed
    then show ?thesis using L(2) by (auto simp: readable_chunks_def)
  qed
  have ri: "read_inv ?B ?H off n buf L ([], buf, off, 0)"
  proof -
    have "?B p = list_byte L p \<and> ?H p = list_has L p" if "off \<le> p" "p < off + n" for p
      by (rule list_byte_at [OF mem dist]) (use that in \<open>simp_all add: a_def b_def div_le_mono\<close>)
    then show ?thesis using n by (simp add: read_inv_def split: prod.split)
  qed
  from read_chunks_spec [OF ri rc] obtain filled rest last_offset total where
    run: "read_chunks off n (map chunk_triple L) ([], buf, off, 0) = Some (filled, rest, last_offset, total)"
    and inv: "read_inv ?B ?H off n buf [] (filled, rest, last_offset, total)"
    by auto
  have i: "filled = map ?B [off..<off + total]" "off + total = min last_offset (off + n)" "rest = drop total buf"
    "last_offset \<le> p \<Longrightarrow> p < off + n \<Longrightarrow> ?B p = 0 \<and> \<not> ?H p" for p
    using inv by (auto simp: read_inv_def list_byte_def list_has_def)
  have t: "total \<le> n" using i(2) by simp
  have zeros: "?B p = 0 \<and> \<not> ?H p" if "off + total \<le> p" "p < off + n" for p using i(4) [of p] i(2) that by simp
  have bounds: "from_byte_bounds off n = \<lparr>cr_start = \<lparr>co_chunk_id = a, co_offset = off mod CHUNK_SIZE\<rparr>,
      cr_end = \<lparr>co_chunk_id = b, co_offset = (off + n) mod CHUNK_SIZE\<rparr>\<rparr>"
    by (simp add: from_byte_bounds_place [OF fn] place_def a_def b_def)
  have "read_at ic ob buf off os = (if total \<noteq> length rest then Some (Inr n, filled @ replicate (length rest) 0) else Some (Inr total, filled @ rest))"
    using info(2) by (simp add: read_at_def info(1) n_def [symmetric] bounds L(1) run Let_def)
  moreover have "take n (filled @ replicate (length rest) 0) = map ?B [off..<off + n]"
  proof -
    have "map ?B [off + total..<off + n] = replicate (n - total) 0"
      using zeros by (intro nth_equalityI) auto
    then show ?thesis using t n i(3) map_byte_split [of off "off + total" "off + n" ?B]
      by (simp add: i(1) min_def)
  qed
  moreover have "take total (filled @ rest) = map ?B [off..<off + total]" by (simp add: i(1))
  ultimately show ?thesis using t n i(3) zeros by (auto simp: i(1))
qed

subsection \<open>Writing\<close>

text \<open>The tree after bytes of an object were overwritten.\<close>

definition written :: "object_id \<Rightarrow> nat \<Rightarrow> bytes \<Rightarrow> tree_contents \<Rightarrow> tree_contents \<Rightarrow> bool" where
  "written oid off new t t' \<longleftrightarrow> data_ok t'
     \<and> (\<forall>p < 2 ^ 32 * CHUNK_SIZE. byte_at t' oid p = (if off \<le> p \<and> p < off + length new then new ! (p - off) else byte_at t oid p))
     \<and> (\<forall>c v. chunk_at t oid c = Some v \<longrightarrow> (\<exists>v'. chunk_at t' oid c = Some v' \<and> length v \<le> length v'))
     \<and> (\<forall>p. off \<le> p \<and> p < off + length new \<longrightarrow> stored_at t' oid p)
     \<and> (\<forall>k. (\<forall>c < 2 ^ 32. k \<noteq> object_chunk_key oid c) \<longrightarrow> bt_get t' k = bt_get t k)"

lemma written_nil: "data_ok t \<Longrightarrow> written oid off [] t t"
  by (auto simp: written_def)

lemma written_append:
  assumes "written oid off a t t1" "written oid (off + length a) b t1 t2"
  shows "written oid off (a @ b) t t2"
  unfolding written_def
proof (intro conjI allI impI)
  show "data_ok t2" using assms(2) by (simp add: written_def)
  show "byte_at t2 oid p = (if off \<le> p \<and> p < off + length (a @ b) then (a @ b) ! (p - off) else byte_at t oid p)"
    if "p < 2 ^ 32 * CHUNK_SIZE" for p
    using assms that by (auto simp: written_def nth_append)
  show "\<exists>v'. chunk_at t2 oid c = Some v' \<and> length v \<le> length v'" if "chunk_at t oid c = Some v" for c v
    using assms that unfolding written_def by (meson le_trans)
  show "stored_at t2 oid p" if "off \<le> p \<and> p < off + length (a @ b)" for p
  proof (cases "p < off + length a")
    case True
    with assms(1) that obtain v where "chunk_at t1 oid (p div CHUNK_SIZE) = Some v" "p mod CHUNK_SIZE < length v"
      unfolding written_def stored_at_def by blast
    then show ?thesis using assms(2) unfolding written_def stored_at_def by (meson less_le_trans)
  qed (use assms(2) that in \<open>auto simp: written_def\<close>)
  show "bt_get t2 k = bt_get t k" if "\<forall>c < 2 ^ 32. k \<noteq> object_chunk_key oid c" for k
    using assms that by (simp add: written_def)
qed

lemma length_overlay: "length (overlay off new d) = max (length d) (off + length new)"
  by (simp add: overlay_def)

lemma nth_overlay: "i < max (length d) (off + length new) \<Longrightarrow> overlay off new d ! i =
    (if off \<le> i \<and> i < off + length new then new ! (i - off) else if i < length d then d ! i else 0)"
  by (simp add: overlay_def)

lemma upsert_written:
  assumes ok: "data_ok t" and c: "c < 2 ^ 32" and fits: "o' + length new \<le> CHUNK_SIZE" and ne: "new \<noteq> []"
  shows "written oid (c * CHUNK_SIZE + o') new t
    (bt_insert (object_chunk_key oid c) (overlay o' new (case chunk_at t oid c of None \<Rightarrow> [] | Some b \<Rightarrow> b)) t)"
proof -
  define d where "d = (case chunk_at t oid c of None \<Rightarrow> [] | Some b \<Rightarrow> b)"
  define t' where "t' = bt_insert (object_chunk_key oid c) (overlay o' new d) t"
  have get: "bt_get t' = (bt_get t)(object_chunk_key oid c \<mapsto> overlay o' new d)" by (simp add: t'_def bt_get_insert)
  have at: "chunk_at t' oid e = (if e = c then Some (overlay o' new d) else chunk_at t oid e)" if "e < 2 ^ 32" for e
    using that c by (auto simp: chunk_at_def get chunk_key_inj)
  have d: "length d \<le> CHUNK_SIZE" using chunk_at_length [OF ok c] by (auto simp: d_def split: option.split)
  have mem: "p div CHUNK_SIZE = c \<and> o' \<le> p mod CHUNK_SIZE \<and> p mod CHUNK_SIZE < o' + length new \<and> p mod CHUNK_SIZE - o' = p - (c * CHUNK_SIZE + o')"
    if "c * CHUNK_SIZE + o' \<le> p" "p < c * CHUNK_SIZE + o' + length new" for p
  proof -
    define q where "q = p - c * CHUNK_SIZE"
    have "p = q + c * CHUNK_SIZE" "q < CHUNK_SIZE" using that fits by (auto simp: q_def)
    then have "p div CHUNK_SIZE = c" "p mod CHUNK_SIZE = q" by simp_all
    then show ?thesis using that by (auto simp: q_def)
  qed
  have mem': "c * CHUNK_SIZE + o' \<le> p \<and> p < c * CHUNK_SIZE + o' + length new"
    if "p div CHUNK_SIZE = c" "o' \<le> p mod CHUNK_SIZE" "p mod CHUNK_SIZE < o' + length new" for p
    using that div_mult_mod_eq [of p CHUNK_SIZE] by (metis add.assoc add_le_cancel_left add_less_cancel_left)
  have "written oid (c * CHUNK_SIZE + o') new t t'"
    unfolding written_def
  proof (intro conjI allI impI)
    show "data_ok t'"
      using ok c d fits unfolding data_ok_def get by (auto simp: t'_def sorted_bt_insert length_overlay)
    show "byte_at t' oid p = (if c * CHUNK_SIZE + o' \<le> p \<and> p < c * CHUNK_SIZE + o' + length new then new ! (p - (c * CHUNK_SIZE + o')) else byte_at t oid p)"
      if "p < 2 ^ 32 * CHUNK_SIZE" for p
    proof (cases "p div CHUNK_SIZE = c")
      case True
      define m where "m = p mod CHUNK_SIZE"
      have old: "byte_at t oid p = (if m < length d then d ! m else 0)"
        by (simp add: byte_at_def True d_def m_def split: option.split)
      have new: "byte_at t' oid p = (if o' \<le> m \<and> m < o' + length new then new ! (m - o') else if m < length d then d ! m else 0)"
        using nth_overlay [of m d o' new] by (simp add: byte_at_def True at [OF c] length_overlay m_def less_max_iff_disj)
      show ?thesis
      proof (cases "o' \<le> m \<and> m < o' + length new")
        case in_range: True
        with mem' [OF True] have r: "c * CHUNK_SIZE + o' \<le> p" "p < c * CHUNK_SIZE + o' + length new" by (simp_all add: m_def)
        from mem [OF this] have e: "m - o' = p - (c * CHUNK_SIZE + o')" by (simp add: m_def)
        have "byte_at t' oid p = new ! (m - o')" unfolding new by (rule if_P [OF in_range])
        also have "\<dots> = new ! (p - (c * CHUNK_SIZE + o'))" by (simp only: e)
        finally show ?thesis using r by (simp only: if_P conj_absorb simp_thms)
      next
        case out: False
        have "\<not> (c * CHUNK_SIZE + o' \<le> p \<and> p < c * CHUNK_SIZE + o' + length new)" using out mem [of p] by (auto simp: m_def)
        moreover have "byte_at t' oid p = byte_at t oid p" unfolding new old by (rule if_not_P [OF out])
        ultimately show ?thesis by (simp only: if_False simp_thms)
      qed
    next
      case False
      moreover have "p div CHUNK_SIZE < 2 ^ 32" by (rule less_mult_imp_div_less [OF that])
      ultimately show ?thesis using mem [of p] by (auto simp: byte_at_def at)
    qed
    show "\<exists>v'. chunk_at t' oid e = Some v' \<and> length v \<le> length v'" if "chunk_at t oid e = Some v" for e v
    proof (cases "object_chunk_key oid e = object_chunk_key oid c")
      case True
      then have "length v \<le> length (overlay o' new d)" using that by (simp add: d_def chunk_at_def length_overlay)
      with True show ?thesis by (simp add: chunk_at_def get)
    qed (use that in \<open>simp add: chunk_at_def get\<close>)
    show "stored_at t' oid p"
      if "c * CHUNK_SIZE + o' \<le> p \<and> p < c * CHUNK_SIZE + o' + length new" for p
      using mem [of p] that c by (simp add: stored_at_def at length_overlay less_max_iff_disj)
    show "bt_get t' k = bt_get t k" if "\<forall>c < 2 ^ 32. k \<noteq> object_chunk_key oid c" for k using that c by (simp add: get)
  qed
  then show ?thesis by (simp add: t'_def d_def)
qed

lemma write_chunks_spec:
  assumes "data_ok t" "off + len < 2 ^ 32 * CHUNK_SIZE" "length buf = len"
  shows "\<exists>t'. write_chunks oid (map piece_range (pieces off len)) buf tot sz t
      = Some (None, tot + len, if len = 0 then sz else Some (off + len), t') \<and> written oid off buf t t'"
  using assms
proof (induction off len arbitrary: buf tot sz t rule: pieces.induct)
  case (1 off len)
  show ?case
  proof (cases "len = 0")
    case True
    then show ?thesis using 1 by (simp add: pieces.simps written_nil)
  next
    case False
    define l where "l = min len (CHUNK_SIZE - off mod CHUNK_SIZE)"
    let ?c = "off div CHUNK_SIZE" and ?o = "off mod CHUNK_SIZE"
    have l: "0 < l" "l \<le> len" "?o + l \<le> CHUNK_SIZE" using False mod_less_divisor [of CHUNK_SIZE off] by (auto simp: l_def min_def simp del: mod_less_divisor)
    have c: "?c < 2 ^ 32" using 1(3) by (intro less_mult_imp_div_less) linarith
    have ps: "pieces off len = (?c, ?o, l) # pieces (off + l) (len - l)" using False by (subst pieces.simps) (simp add: Let_def l_def)
    define t1 where "t1 = bt_insert (object_chunk_key oid ?c) (overlay ?o (take l buf) (case chunk_at t oid ?c of None \<Rightarrow> [] | Some b \<Rightarrow> b)) t"
    have up: "ds_upsert (object_chunk_key oid ?c) (take l buf) ?o t = Some (Inr t1)"
      using l 1(4) ds_upsert_spec [of ?o "take l buf"] by (simp add: t1_def chunk_at_def MAX_MESSAGE_SIZE_def CHUNK_SIZE_def)
    have w1: "written oid off (take l buf) t t1"
    proof -
      have "?o + length (take l buf) \<le> CHUNK_SIZE" "take l buf \<noteq> []" using l 1(4) by auto
      from upsert_written [OF 1(2) c this] show ?thesis by (simp add: t1_def)
    qed
    then have "data_ok t1" by (simp add: written_def)
    from 1(1) [OF False l_def this, of "drop l buf" "tot + l" "Some (off + l)"] obtain t2 where
      t2: "write_chunks oid (map piece_range (pieces (off + l) (len - l))) (drop l buf) (tot + l) (Some (off + l)) t1
          = Some (None, tot + l + (len - l), if len - l = 0 then Some (off + l) else Some (off + l + (len - l)), t2)"
        "written oid (off + l) (drop l buf) t1 t2"
      using 1(3,4) l by auto
    have stop: "co_as_bytes (cr_end (piece_range (?c, ?o, l))) = off + l"
      by (simp add: piece_range_def co_as_bytes_def add.assoc [symmetric])
    have run: "write_chunks oid (map piece_range (pieces off len)) buf tot sz t
        = Some (None, tot + len, Some (off + len), t2)"
    proof -
      have "single_chunk_len (piece_range (?c, ?o, l)) = Some l" "co_chunk_id (cr_start (piece_range (?c, ?o, l))) = ?c"
        "co_offset (cr_start (piece_range (?c, ?o, l))) = ?o"
        by (simp_all add: single_chunk_len_def piece_range_def checked_sub_def)
      then show ?thesis using up l 1(4) t2(1) stop by (auto simp: ps)
    qed
    have "written oid off (take l buf @ drop l buf) t t2"
      using w1 t2(2) l 1(4) by (intro written_append) simp_all
    then show ?thesis using False run by simp
  qed
qed

subsection \<open>Objects as sequences of bytes\<close>

text \<open>C40. Cutting a byte range at the chunk bounds gives consecutive pieces that together are exactly the range; each is not
  empty and lies in one chunk.\<close>

theorem chunk_split_covers:
  assumes "off + len < 2 ^ 32 * CHUNK_SIZE"
  shows "concat (map piece_bytes (split_at_chunk_bounds (from_byte_bounds off len))) = [off..<off + len]
    \<and> (\<forall>r \<in> set (split_at_chunk_bounds (from_byte_bounds off len)). co_chunk_id (cr_start r) = co_chunk_id (cr_end r)
      \<and> co_offset (cr_start r) < co_offset (cr_end r) \<and> co_offset (cr_end r) \<le> CHUNK_SIZE
      \<and> single_chunk_len r = Some (length (piece_bytes r)))"
proof (intro conjI ballI)
  show "concat (map piece_bytes (split_at_chunk_bounds (from_byte_bounds off len))) = [off..<off + len]"
    using pieces_cover [of off len] by (simp add: split_bounds_pieces [OF assms])
next
  fix r assume "r \<in> set (split_at_chunk_bounds (from_byte_bounds off len))"
  then obtain c o' l where r: "r = piece_range (c, o', l)" "(c, o', l) \<in> set (pieces off len)"
    by (auto simp: split_bounds_pieces [OF assms])
  note r1 = r(1) piece_range_def single_chunk_len_def checked_sub_def piece_bytes_def co_as_bytes_def
  from pieces_within [OF r(2)] show "co_chunk_id (cr_start r) = co_chunk_id (cr_end r)"
    "co_offset (cr_start r) < co_offset (cr_end r)" "co_offset (cr_end r) \<le> CHUNK_SIZE"
    "single_chunk_len r = Some (length (piece_bytes r))"
    by (simp_all add: r1)
qed

theorem chunk_split_covers_witness:
  "concat (map piece_bytes (split_at_chunk_bounds (from_byte_bounds 131070 4))) = [131070..<131074]
   \<and> co_offset (cr_end (hd (split_at_chunk_bounds (from_byte_bounds 131070 4)))) = 131072"
proof -
  have f: "(131070 :: nat) + 4 < 2 ^ 32 * CHUNK_SIZE" by (simp add: CHUNK_SIZE_def)
  have "split_at_chunk_bounds (from_byte_bounds 131070 4) = map piece_range [(0, 131070, 2), (1, 0, 2)]"
    unfolding split_bounds_pieces [OF f] by (simp add: pieces.simps CHUNK_SIZE_def)
  then show ?thesis using chunk_split_covers [OF f] by (simp add: piece_range_def)
qed

lemma update_object_info_spec:
  assumes "info_roundtrip ic" "is_fixed_key key" "storable_message m" "\<not> sets_none m"
    "bt_get (os_metadata os) key = Some (ic_write ic i)"
  shows "\<exists>mt. update_object_info ic key m os = Some (os\<lparr>os_metadata := mt\<rparr>)
    \<and> bt_get mt = (bt_get (os_metadata os))(key \<mapsto> ic_write ic (update_info (truncate_mtime m) i))"
proof -
  obtain b where b: "meta_pack m = Some b" "meta_unpack b = Some (Some (truncate_mtime m))" using meta_pack_unpack [OF assms(3)] by blast
  have "\<not> sets_none (truncate_mtime m)" using assms(4) by (simp add: sets_none_def truncate_mtime_def)
  then have "meta_apply ic key b (Some (ic_write ic i)) = Some (Some (ic_write ic (update_info (truncate_mtime m) i)))"
    using meta_apply_unpacked [OF assms(2) b(2)] apply_info_some [OF _ assms(1)] by simp
  then show ?thesis
    using assms(5) by (auto simp: update_object_info_def b(1) tree_insert_def meta_message_action_def bt_get_insert)
qed

lemma object_size_entry:
  "info_roundtrip ic \<Longrightarrow> bt_get (os_metadata os) (ob_key ob) = Some (ic_write ic i) \<Longrightarrow> object_size ic ob os = Some (unat (oi_size i))"
  by (simp add: object_size_def read_object_info_def info_roundtrip_def)

definition object_ready :: "info_codec \<Rightarrow> object_handle \<Rightarrow> object_info \<Rightarrow> object_store \<Rightarrow> bool" where
  "object_ready ic ob i os \<longleftrightarrow> data_ok (os_data os) \<and> is_fixed_key (ob_key ob) \<and> bt_get (os_metadata os) (ob_key ob) = Some (ic_write ic i)"

lemma object_size_word:
  assumes "info_roundtrip ic" "object_ready ic ob i os" "oi_size i = word_of_nat n" "n < 2 ^ 64"
  shows "object_size ic ob os = Some n"
  using object_size_entry [OF assms(1), of os ob i] assms(2-4)
  by (simp add: object_ready_def unsigned_of_nat take_bit_nat_eq_self)

definition clock_ok :: "int \<Rightarrow> bool" where
  "clock_ok now \<longleftrightarrow> 0 \<le> now \<and> now div 1000 < 2 ^ 64"

lemma write_at_spec:
  assumes ic: "info_roundtrip ic" and ready: "object_ready ic ob i os" and now: "clock_ok now" "valid_pref pref"
    and fits: "off + length buf < 2 ^ 32 * CHUNK_SIZE"
  shows "\<exists>os'. write_at ic now ob buf off pref os = Some (Inr (length buf), os')
    \<and> object_ready ic ob (i\<lparr>oi_size := if buf = [] then oi_size i else word_of_nat (off + length buf), oi_mtime := whole_us now, oi_pref := pref\<rparr>) os'
    \<and> written (ob_id ob) off buf (os_data os) (os_data os')
    \<and> (\<forall>k. k \<noteq> ob_key ob \<longrightarrow> bt_get (os_metadata os') k = bt_get (os_metadata os) k)"
proof -
  have r: "data_ok (os_data os)" "is_fixed_key (ob_key ob)" "bt_get (os_metadata os) (ob_key ob) = Some (ic_write ic i)"
    using ready by (simp_all add: object_ready_def)
  define sz where "sz = (if length buf = 0 then None else Some (off + length buf))"
  obtain t where t: "write_chunks (ob_id ob) (map piece_range (pieces off (length buf))) buf 0 None (os_data os)
      = Some (None, length buf, sz, t)" "written (ob_id ob) off buf (os_data os) t"
    using write_chunks_spec [OF r(1) fits refl, of "ob_id ob" 0 None] by (auto simp: sz_def)
  define m where "m = meta_delete\<lparr>mm_size := map_option word_of_nat sz, mm_mtime := Some now, mm_pref := Some pref\<rparr>"
  have "storable_message m" "\<not> sets_none m"
    using now by (auto simp: m_def storable_message_def clock_ok_def meta_delete_def sets_none_def)
  from update_object_info_spec [OF ic r(2) this, of "os\<lparr>os_data := t\<rparr>" i] r(3) obtain mt where
    mt: "update_object_info ic (ob_key ob) m (os\<lparr>os_data := t\<rparr>) = Some (os\<lparr>os_data := t, os_metadata := mt\<rparr>)"
      "bt_get mt = (bt_get (os_metadata os))(ob_key ob \<mapsto> ic_write ic (update_info (truncate_mtime m) i))" by auto
  have "update_info (truncate_mtime m) i = i\<lparr>oi_size := if buf = [] then oi_size i else word_of_nat (off + length buf), oi_mtime := whole_us now, oi_pref := pref\<rparr>"
    by (simp add: m_def update_info_def truncate_mtime_def meta_delete_def or_old_def sz_def)
  moreover have "write_at ic now ob buf off pref os = Some (Inr (length buf), os\<lparr>os_data := t, os_metadata := mt\<rparr>)"
    using mt(1) by (simp add: write_at_def split_bounds_pieces [OF fits] t(1) m_def)
  moreover have "data_ok t" using t(2) by (simp add: written_def)
  ultimately show ?thesis using t(2) r(2) mt(2) by (auto simp: object_ready_def)
qed


text \<open>C6. What was written is read back: a read of the same length at the same offset after a write returns exactly the bytes.\<close>

theorem object_write_read:
  assumes "info_roundtrip ic" "object_ready ic ob i os" "clock_ok now" "valid_pref pref" "buf \<noteq> []"
    "off + length buf < 2 ^ 32 * CHUNK_SIZE" "length out = length buf"
  shows "\<exists>os'. write_at ic now ob buf off pref os = Some (Inr (length buf), os')
    \<and> read_at ic ob out off os' = Some (Inr (length buf), buf)"
proof -
  obtain os' where os': "write_at ic now ob buf off pref os = Some (Inr (length buf), os')"
    "object_ready ic ob (i\<lparr>oi_size := word_of_nat (off + length buf), oi_mtime := whole_us now, oi_pref := pref\<rparr>) os'"
    "written (ob_id ob) off buf (os_data os) (os_data os')"
    using write_at_spec [OF assms(1-4,6)] assms(5) by auto
  have "off + length buf < 2 ^ 64" using assms(6) by (simp add: CHUNK_SIZE_def)
  then have sz: "object_size ic ob os' = Some (off + length buf)"
    using object_size_word [OF assms(1) os'(2)] by simp
  have first: "off mod CHUNK_SIZE \<le> length v" if "chunk_at (os_data os') (ob_id ob) (off div CHUNK_SIZE) = Some v" for v
    
  proof -
    have "stored_at (os_data os') (ob_id ob) off" using os'(3) assms(5) by (simp add: written_def)
    then show ?thesis using that by (simp add: stored_at_def)
  qed
  have "data_ok (os_data os')" using os'(2) by (simp add: object_ready_def)
  from read_at_spec [OF this sz, of off out] first assms(6,7) obtain r buf' where
    read: "read_at ic ob out off os' = Some (Inr r, buf')" "length buf' = length buf" "r \<le> length buf"
      "r = length buf \<or> (\<forall>p. off + r \<le> p \<and> p < off + length buf \<longrightarrow> \<not> stored_at (os_data os') (ob_id ob) p)"
      "take r buf' = map (byte_at (os_data os') (ob_id ob)) [off..<off + r]"
    by auto
  have r: "r = length buf"
  proof (rule ccontr)
    assume "r \<noteq> length buf"
    with read(3,4) have "\<not> stored_at (os_data os') (ob_id ob) (off + r)" "r < length buf" by auto
    with os'(3) show False by (simp add: written_def)
  qed
  have "byte_at (os_data os') (ob_id ob) (off + j) = buf ! j" if "j < length buf" for j
    using os'(3) assms(6) that by (simp add: written_def)
  then have "map (byte_at (os_data os') (ob_id ob)) [off..<off + length buf] = buf" by (intro nth_equalityI) simp_all
  with read(1,2,5) os'(1) r show ?thesis by auto
qed

definition example_info :: object_info where
  "example_info = \<lparr>oi_object_id = 0, oi_size = 0, oi_mtime = 0, oi_pref = 0, oi_access_pattern = Unknown\<rparr>"

definition example_object :: object_handle where
  "example_object = \<lparr>ob_key = [97], ob_id = 0, ob_storage_preference = 0\<rparr>"

definition example_store :: object_store where
  "example_store = \<lparr>os_data = [], os_metadata = [([97], ic_write example_info_codec example_info)], object_id_counter = 1\<rparr>"

lemma example_ready:
  "object_ready example_info_codec example_object example_info example_store" "clock_ok 0" "valid_pref 0"
  by (simp_all add: object_ready_def example_object_def example_store_def data_ok_def is_fixed_key_def bt_get_def clock_ok_def valid_pref_def)


theorem object_write_read_witness:
  "\<exists>os'. write_at example_info_codec 0 example_object [1, 2] 131071 0 example_store = Some (Inr 2, os')
    \<and> read_at example_info_codec example_object [7, 7] 131071 os' = Some (Inr 2, [1, 2])"
proof -
  have fits: "131071 + length [1 :: byte, 2] < 2 ^ 32 * CHUNK_SIZE" by (simp add: CHUNK_SIZE_def)
  have len: "length [1 :: byte, 2] = 2" by simp
  show ?thesis using object_write_read [OF example_info_roundtrip example_ready _ fits, of "[7, 7]"] unfolding len by simp
qed



lemma write_at_data:
  "write_at ic now ob buf off pref os = Some (r, os') \<Longrightarrow> off + length buf < 2 ^ 32 * CHUNK_SIZE
    \<Longrightarrow> \<exists>e n sz. write_chunks (ob_id ob) (map piece_range (pieces off (length buf))) buf 0 None (os_data os) = Some (e, n, sz, os_data os')"
  by (auto simp: write_at_def split_bounds_pieces update_object_info_def bind_eq_Some_conv Let_def split: option.splits)

lemma write_one_byte:
  assumes "object_ready example_info_codec example_object i os" "off + 1 < 2 ^ 32 * CHUNK_SIZE"
    "chunk_at (os_data os) 0 (off div CHUNK_SIZE) = None" "off mod CHUNK_SIZE = 0"
  shows "\<exists>os' i'. write_at example_info_codec 0 example_object [b] off 0 os = Some (Inr 1, os')
    \<and> object_ready example_info_codec example_object i' os' \<and> object_size example_info_codec example_object os' = Some (off + 1)
    \<and> os_data os' = bt_insert (object_chunk_key 0 (off div CHUNK_SIZE)) [b] (os_data os)"
proof -
  have fits: "off + length [b] < 2 ^ 32 * CHUNK_SIZE" using assms(2) by simp
  obtain os' i' where os': "write_at example_info_codec 0 example_object [b] off 0 os = Some (Inr 1, os')"
    "object_ready example_info_codec example_object i' os'" "oi_size i' = word_of_nat (off + 1)"
    using write_at_spec [OF example_info_roundtrip assms(1) example_ready(2,3) fits] by auto
  have "pieces off 1 = [(off div CHUNK_SIZE, 0, 1)]"
    using assms(4) by (subst pieces.simps) (simp add: pieces.simps [of _ 0] CHUNK_SIZE_def)
  with write_at_data [OF os'(1) fits] have "write_chunks 0 [piece_range (off div CHUNK_SIZE, 0, 1)] [b] 0 None (os_data os)
      = Some (None, 1, Some (off div CHUNK_SIZE * CHUNK_SIZE + 1), os_data os')
    \<or> os_data os' = bt_insert (object_chunk_key 0 (off div CHUNK_SIZE)) [b] (os_data os)"
    using ds_upsert_spec [of 0 "[b]" "object_chunk_key 0 (off div CHUNK_SIZE)" "os_data os"] assms(3)
    by (auto simp: example_object_def piece_range_def single_chunk_len_def checked_sub_def MAX_MESSAGE_SIZE_def overlay_def chunk_at_def)
  then have "os_data os' = bt_insert (object_chunk_key 0 (off div CHUNK_SIZE)) [b] (os_data os)"
    using ds_upsert_spec [of 0 "[b]" "object_chunk_key 0 (off div CHUNK_SIZE)" "os_data os"] assms(3)
    by (auto simp: piece_range_def single_chunk_len_def checked_sub_def MAX_MESSAGE_SIZE_def overlay_def chunk_at_def)
  moreover have "off + 1 < 2 ^ 64" using assms(2) by (simp add: CHUNK_SIZE_def)
  ultimately show ?thesis using os' object_size_word [OF example_info_roundtrip os'(2,3)] by blast
qed

text \<open>C37. Otherwise the read goes wrong: with one byte at the beginning of an object and one at the beginning of its second
  chunk, reading the last byte of the first chunk and the first of the second panics, although the object is that long.\<close>

theorem object_read_at_panics:
  "\<exists>os1 os2. write_at example_info_codec 0 example_object [7] 0 0 example_store = Some (Inr 1, os1)
    \<and> write_at example_info_codec 0 example_object [9] 131072 0 os1 = Some (Inr 1, os2)
    \<and> object_size example_info_codec example_object os2 = Some 131073
    \<and> read_at example_info_codec example_object [0, 0] 131071 os2 = None"
proof -
  obtain os1 i1 where os1: "write_at example_info_codec 0 example_object [7] 0 0 example_store = Some (Inr 1, os1)"
    "object_ready example_info_codec example_object i1 os1" "os_data os1 = [(object_chunk_key 0 0, [7])]"
    using write_one_byte [OF example_ready(1), of 0 7] by (auto simp: CHUNK_SIZE_def chunk_at_def example_store_def)
  have keys: "object_chunk_key 0 0 < object_chunk_key 0 1" using chunk_key_less [of 0 1 0 0] by simp
  have "chunk_at (os_data os1) 0 (131072 div CHUNK_SIZE) = None"
    using keys by (auto simp: chunk_at_def os1(3) bt_get_Cons CHUNK_SIZE_def)
  from write_one_byte [OF os1(2) _ this, of 9] obtain os2 i2 where os2:
    "write_at example_info_codec 0 example_object [9] 131072 0 os1 = Some (Inr 1, os2)"
    "object_size example_info_codec example_object os2 = Some 131073"
    "os_data os2 = [(object_chunk_key 0 0, [7]), (object_chunk_key 0 1, [9])]"
    using keys by (auto simp: CHUNK_SIZE_def os1(3))
  have "read_chunk_range example_object 0 1 os2 = Some (Inr [(0, 1, [7]), (131072, 131073, [9])])"
    using keys less_imp_le [OF keys] less_not_sym [OF keys] by (simp add: read_chunk_range_def tree_range_def is_inclusive_non_empty_def os2(3) example_object_def below_min_def
        above_max_def max_key_def decode_chunk_key co_as_bytes_def CHUNK_SIZE_def)
  then have "read_at example_info_codec example_object [0, 0] 131071 os2 = None"
    using os2(2) by (auto simp: read_at_def object_size_def from_byte_bounds_def CHUNK_SIZE_def read_chunk_def)
  with os1(1) os2 show ?thesis by blast
qed

subsection \<open>Deletion, renaming, new identifiers, seeking\<close>

lemma meta_apply_delete: "meta_apply ic key [0] d = Some None"
  by (simp add: meta_apply_def meta_unpack_def field_def apply_info_def FIXED_DELETE_def)

lemma insert_meta_delete: "insert_meta ic key [0] os = Some (os\<lparr>os_metadata := bt_remove key (os_metadata os)\<rparr>)"
  by (simp add: insert_meta_def tree_insert_def meta_message_action_def meta_apply_delete)

lemma insert_meta_all_delete:
  "insert_meta_all ic [0] es os = Some (os\<lparr>os_metadata := filter (\<lambda>e. fst e \<notin> fst ` set es) (os_metadata os)\<rparr>)"
  by (induction es arbitrary: os) (auto simp: insert_meta_delete bt_remove_def intro!: arg_cong [where f = "\<lambda>m. os_metadata_update (\<lambda>_. m) _"] filter_cong)

lemma pack_delete: "meta_pack meta_delete = Some [0]"
  by (simp add: meta_pack_def meta_delete_def to_content_flags_def)

text \<open>The keys from \<open>key 0\<close> up to the successor of \<open>key 1\<close>.\<close>

lemma custom_key_range:
  "key @ [0] \<le> k \<and> k \<le> key @ [1] @ [0] \<longleftrightarrow> (\<exists>name. k = key @ [0] @ name) \<or> k = key @ [1] \<or> k = key @ [1, 0]" for k key :: bytes
proof (induction key arbitrary: k)
  case Nil
  show ?case
  proof (cases k)
    case (Cons x r)
    have "x = 0 \<or> x = 1 \<or> 1 < x" for x :: byte
      by (cases "x < 1") (auto simp: linorder_not_less order.order_iff_strict)
    then show ?thesis using Cons le_append_zero [of k "[1]"] by (cases r) (auto simp: order.order_iff_strict)
  qed simp
next
  case (Cons a key)
  then show ?case by (cases k) auto
qed





text \<open>C39. The search for an object identifier ends if there is an identifier without first chunk, and returns the next such.\<close>

theorem find_oid_returns:
  assumes "chunk_at data free 0 = None"
  shows "\<exists>oid. find_oid data counter = Some (oid, oid + 1) \<and> chunk_at data oid 0 = None \<and> oid - counter \<le> free - counter"
proof (induction "unat (free - counter)" arbitrary: counter rule: less_induct)
  case less
  show ?case
  proof (cases "bt_get data (object_chunk_key counter 0)")
    case None
    then show ?thesis by (simp add: find_oid.simps chunk_at_def)
  next
    case (Some v)
    then have ne: "free - counter \<noteq> 0" using assms by (auto simp: chunk_at_def)
    have pred: "unat (free - (counter + 1)) = unat (free - counter) - 1"
      using unat_minus_one [OF ne] by (simp add: algebra_simps)
    then have "unat (free - (counter + 1)) < unat (free - counter)" using ne by (simp add: unat_gt_0)
    from less [OF this] obtain oid where oid: "find_oid data (counter + 1) = Some (oid, oid + 1)" "chunk_at data oid 0 = None"
      "oid - (counter + 1) \<le> free - (counter + 1)" by blast
    have "oid - counter \<noteq> 0" using oid(2) Some by (auto simp: chunk_at_def)
    then have "unat (oid - (counter + 1)) = unat (oid - counter) - 1" "0 < unat (oid - counter)"
      using unat_minus_one [of "oid - counter"] by (simp_all add: algebra_simps unat_gt_0)
    moreover have "0 < unat (free - counter)" using ne by (simp add: unat_gt_0)
    ultimately have "oid - counter \<le> free - counter" using oid(3) pred unfolding word_le_nat_alt by linarith
    with oid Some show ?thesis by (simp add: find_oid.simps [of _ counter])
  qed
qed

theorem find_oid_returns_witness:
  "\<exists>oid. find_oid [(object_chunk_key 5 0, [1])] 5 = Some (oid, oid + 1) \<and> chunk_at [(object_chunk_key 5 0, [1])] oid 0 = None \<and> oid - 5 \<le> 6 - 5"
  by (rule find_oid_returns) (simp add: chunk_at_def bt_get_Cons chunk_key_inj)

lemma add_u64_i64_exact:
  "add_u64_i64 base delta = (if 0 \<le> uint base + sint delta \<and> uint base + sint delta < 2 ^ 64
     then Some (word_of_int (uint base + sint delta)) else None)"
proof -
  have d: "- (2 ^ 63) \<le> sint delta" "sint delta < 2 ^ 63" using sint_greater_eq [of delta] sint_less [of delta] by simp_all
  have b: "0 \<le> uint base" "uint base < 2 ^ 64" using uint_lt2p [of base] by simp_all
  show ?thesis
  proof (cases "0 \<le> sint delta")
    case True
    have "uint delta = sint delta" using uint_sint [of delta] True d by (simp add: take_bit_int_eq_self)
    then show ?thesis using True b by (simp add: add_u64_i64_def)
  next
    case False
    have "uint (- delta) = uint (word_of_int (- sint delta) :: 64 word)" by simp
    also have "\<dots> = - sint delta" using False d by (simp only: uint_word_of_int_eq) (simp add: take_bit_int_eq_self)
    finally have "- delta \<le> base \<longleftrightarrow> 0 \<le> uint base + sint delta" unfolding word_le_def by linarith
    then show ?thesis using False b by (simp add: add_u64_i64_def)
  qed
qed

text \<open>A relative seek moves to the exact position and fails exactly when it is not a 64-bit offset.\<close>

theorem seek_exact:
  "cursor_seek ic (SeekCurrent delta) cur os = Some
     (if 0 \<le> uint (oc_pos cur) + sint delta \<and> uint (oc_pos cur) + sint delta < 2 ^ 64
      then (Inr (word_of_int (uint (oc_pos cur) + sint delta)), cur\<lparr>oc_pos := word_of_int (uint (oc_pos cur) + sint delta)\<rparr>)
      else (Inl InvalidInput, cur))"
  by (simp add: cursor_seek_def add_u64_i64_exact seek_to_def)

end
