(* ===== verification/Spec2Isabelle.thy ===== *)
theory Spec2Isabelle
  imports Handler ClockCache NodeLayout Parity1 WriteBackQueue Allocation ObjectStore
begin

text \<open>
  A verification development for the Haura storage engine, the crate in \<^verbatim>\<open>src/betree/src\<close>.

  \<^bold>\<open>The program.\<close> Haura keeps datasets and objects in copy-on-write B\<epsilon>-trees. A message inserted
  into a tree (\<^verbatim>\<open>tree/\<close>) is put into the buffer of an inner node and flushed down level by level until
  it reaches a leaf, where it is applied. Nodes live in a cache (\<^verbatim>\<open>cache/\<close>) behind the data management
  unit (\<^verbatim>\<open>data_management/\<close>), which writes a modified node to newly allocated blocks and frees its old
  blocks, unless a snapshot contains them. Bitmaps of the used blocks, dead lists and the
  roots of the datasets are entries of the root tree, a tree itself, kept up to date by the handler
  (\<^verbatim>\<open>database/\<close>). Blocks are on leaf devices, mirrors or parity groups (\<^verbatim>\<open>vdev/\<close>), grouped in up
  to four storage tiers (\<^verbatim>\<open>storage_pool/\<close>).

  \<^bold>\<open>Conventions.\<close> A panic is the value \<open>None\<close> of an option; an error result is an inner \<open>None\<close>, a boolean
  or the left side of a sum. Byte strings are lists of 8-bit words. Disk addresses, identifiers,
  checksums and the counters that wrap are words of their width; sizes are natural
  numbers where the code cannot overflow, and narrowing or checked arithmetic is written out elsewhere.
  Functions of other crates (hashes, \<^verbatim>\<open>bincode\<close>) are arguments of the definitions; what the code
  relies on is a named predicate such as \<open>csum_codec\<close>.

  \<^bold>\<open>Theories.\<close>
  \<^item> \<open>Prelude\<close>, \<open>BTreeMap\<close>: shared vocabulary; the ordered map of the standard library with the locale
    \<open>ordered_map\<close>.
  \<^item> \<open>CowBytes\<close> (\<^verbatim>\<open>cow_bytes.rs\<close>), \<open>Buffer\<close> (\<^verbatim>\<open>buffer.rs\<close>): byte slices; aligned buffers that share storages in
    a heap. Parts of a split mutable buffer are disjoint, and writing to an owned buffer appends.
  \<^item> \<open>StoragePreference\<close>, \<open>DiskOffset\<close> (\<^verbatim>\<open>storage_pool/\<close>, \<^verbatim>\<open>vdev/block.rs\<close>), \<open>Allocator\<close> (\<^verbatim>\<open>allocator.rs\<close>): preferences,
    packed addresses, and the bitmap allocator of a segment, which is first fit and never gives out
    a used block (locale \<open>block_allocator\<close>).
  \<^item> \<open>Vdev\<close> (\<^verbatim>\<open>vdev/mod.rs\<close>, \<^verbatim>\<open>mem.rs\<close>, \<^verbatim>\<open>file.rs\<close>, \<^verbatim>\<open>mirror.rs\<close>), \<open>Parity1\<close> (\<^verbatim>\<open>vdev/parity1.rs\<close>): devices that may fail. A mirror
    read returns verified data as long as one copy is left and repairs the others; a parity group
    survives the loss of any one device, writes nothing outside of its allocation and returns no
    unverified data.
  \<^item> \<open>WriteBackQueue\<close> (\<^verbatim>\<open>bounded_future_queue.rs\<close>, \<^verbatim>\<open>storage_pool/unit.rs\<close>): the queue of background writes as a
    step relation on any number of threads and tasks. No read or flush overtakes a returned write; once
    no write is being enqueued everything completes; two schedules in which the code fails are exhibited.
  \<^item> \<open>Configuration\<close>, \<open>StoragePool\<close> (\<^verbatim>\<open>storage_pool/configuration.rs\<close>, \<^verbatim>\<open>unit.rs\<close>): descriptions of tiers, printed
    and parsed; the devices built from them and the dispatch of reads, writes and sizes. What is
    written to any kind of device is read back as long as the device has the redundancy it promises.
  \<^item> \<open>DefaultMessageAction\<close> (\<^verbatim>\<open>tree/message_action.rs\<close>, \<^verbatim>\<open>default_message_action.rs\<close>): messages, their
    application and their merge; locale \<open>message_action\<close>.
  \<^item> \<open>PivotKey\<close>, \<open>PackedChildBuffer\<close>, \<open>PackedLayout\<close> (\<^verbatim>\<open>tree/imp/internal/packed_child_buffer.rs\<close>): message buffers and
    leaves, in unpacked and in serialised form; flushes compose the effects of messages; packing and
    reading back keeps the contents.
  \<^item> \<open>ObjectRef\<close>, \<open>InternalNode\<close>, \<open>TakeChild\<close>, \<open>InternalLayout\<close> (\<^verbatim>\<open>data_management/object_ptr.rs\<close>, \<^verbatim>\<open>impls.rs\<close>,
    \<^verbatim>\<open>tree/imp/internal/copyless_internal.rs\<close>), \<open>Node\<close>, \<open>NodeSplit\<close>, \<open>NodeLayout\<close> (\<^verbatim>\<open>tree/imp/node.rs\<close>): inner nodes and
    nodes. Splits, merges and rebalancing keep for every key its child and its pending message;
    a node that is stored and read back behaves as before.
  \<^item> \<open>Clock\<close>, \<open>ClockCache\<close> (\<^verbatim>\<open>cache/\<close>): the linked list in its heap refines a list; eviction gives a second
    chance and never takes a pinned entry (locale \<open>object_cache\<close>).
  \<^item> \<open>RootTreeMsg\<close>, \<open>Handler\<close> (\<^verbatim>\<open>database/root_tree_msg.rs\<close>, \<^verbatim>\<open>handler.rs\<close>, \<^verbatim>\<open>storage_info.rs\<close>): keys of the root tree;
    bookkeeping of blocks. Copy on write frees nothing a snapshot contains.
  \<^item> \<open>Allocation\<close> (\<^verbatim>\<open>allocate\<close> and \<^verbatim>\<open>allocate_raw_at\<close> of \<^verbatim>\<open>data_management/dmu.rs\<close>): the choice of tier and disk and the
    search over segments, on top of the pool, the handler and the segment allocator. A returned place
    was unused and the search over a disk is exhaustive.
  \<^item> \<open>Dataset\<close> (\<^verbatim>\<open>database/dataset.rs\<close>, \<^verbatim>\<open>range_validation.rs\<close>): insertion, upsert, deletion and range queries of a dataset over
    the contents of its tree.
  \<^item> \<open>ObjectMeta\<close>, \<open>ObjectStore\<close> (\<^verbatim>\<open>object/\<close>): metadata messages, and objects as chunks in a data tree. Exactly
    when merging messages is faithful; cutting a byte range into chunks; a write changes its
    range only and is read back; what deletion and renaming do; a read that panics.

  \<^bold>\<open>Bounds and fuel.\<close> No definition takes fuel. Loops that may not end are \<^verbatim>\<open>partial_function (option)\<close>
  definitions, and their theorems state that they return. Machine bounds that the code does not check
  (sizes below \<open>2 ^ 32\<close>, disk numbers below 1024) are hypotheses of the theorems.

  \<^bold>\<open>Not modelled.\<close> The walk over several nodes with their locks (\<^verbatim>\<open>tree/imp/mod.rs\<close>, \<^verbatim>\<open>flush.rs\<close>, \<^verbatim>\<open>split.rs\<close>,
  \<^verbatim>\<open>range.rs\<close>) and the protocol between cache and write-back of the data management unit (\<^verbatim>\<open>dmu.rs\<close>): the nodes, the cache
  and the allocation they use are modelled one by one, and datasets and objects stand on the contents of a tree instead.
  Opening, syncing and closing a database, snapshots and superblocks (\<^verbatim>\<open>database/mod.rs\<close>, \<^verbatim>\<open>snapshot.rs\<close>,
  \<^verbatim>\<open>superblock.rs\<close>), and the migration policies, which use floating point and random numbers. The compression
  crates, C bindings, command line tool, benchmarks, metrics and logging are calls of other libraries.
\<close>

end
